(* ===== verification/Prelude.thy ===== *)
theory Prelude
  imports Main "HOL-Library.Word" "HOL-Library.Monad_Syntax" "HOL-Library.Code_Target_Nat"
begin

unbundle bit_operations_syntax

text \<open>
  The vocabulary shared by all theories of the development.

  \<^item> Machine types: a Go \<^verbatim>\<open>byte\<close> is an 8-bit word, a byte slice a list of them, a Go
    string a list of (byte) characters. \<^verbatim>\<open>time.Duration\<close> counts nanoseconds and is an
    integer.
  \<^item> Errors: the package \<^verbatim>\<open>internal/errors\<close> (\<^verbatim>\<open>New\<close>, \<^verbatim>\<open>WithStr\<close>, \<^verbatim>\<open>Join\<close>) as a
    datatype with its rendering; a fallible call returns \<open>err + 'a\<close>.
  \<^item> Panics: an operation that may index out of range or call \<^verbatim>\<open>panic\<close> returns an
    option, \<^const>\<open>None\<close> being the panic (or a loop that does not return).
  \<^item> Decimal rendering of integers (\<^verbatim>\<open>strconv.Itoa\<close>, the verb \<^verbatim>\<open>%d\<close>).
\<close>

section \<open>Machine types\<close>

type_synonym byte = "8 word"
type_synonym bytes = "byte list"
type_synonym u16 = "16 word"
type_synonym u32 = "32 word"
type_synonym duration = int

named_theorems res_iff \<open>when a sequenced computation succeeds\<close>
named_theorems ring_intros \<open>preservation of ring structure\<close>

definition millisecond :: duration where "millisecond = 1000000"
definition second :: duration where "second = 1000000000"
definition minute :: duration where "minute = 60 * second"

text \<open>Go integer division and remainder truncate towards zero.\<close>

definition quot :: "int \<Rightarrow> int \<Rightarrow> int" where
  "quot a b = sgn a * sgn b * (\<bar>a\<bar> div \<bar>b\<bar>)"

lemma quot_nonneg [simp]: "0 \<le> a \<Longrightarrow> 0 < b \<Longrightarrow> quot a b = a div b"
  by (cases "a = 0") (simp_all add: quot_def)

section \<open>Decimal rendering\<close>

fun digitsOf :: "nat \<Rightarrow> string" where
  "digitsOf n = (if n < 10 then [char_of (48 + n)] else digitsOf (n div 10) @ [char_of (48 + n mod 10)])"

declare digitsOf.simps [simp del]

definition Itoa :: "int \<Rightarrow> string" where
  "Itoa i = (if i < 0 then ''-'' @ digitsOf (nat (- i)) else digitsOf (nat i))"

section \<open>Errors\<close>

datatype err = ErrNew string | OpError string err | JoinError "err list"

type_synonym 'a res = "err + 'a"

fun Error :: "err \<Rightarrow> string" where
  "Error (ErrNew t) = t"
| "Error (OpError op e) = op @ '': '' @ Error e"
| "Error (JoinError []) = ''''"
| "Error (JoinError [e]) = Error e"
| "Error (JoinError (e # es)) = Error e @ concat (map (\<lambda>e'. ''; '' @ Error e') es)"

text \<open>A nil error is \<^const>\<open>None\<close>.\<close>

definition WithStr :: "string \<Rightarrow> err option \<Rightarrow> err option" where
  "WithStr op e = (case e of None \<Rightarrow> None | Some e' \<Rightarrow> Some (OpError op e'))"

definition Join :: "err option list \<Rightarrow> err option" where
  "Join es = (let ne = List.map_filter id es in if ne = [] then None else Some (JoinError ne))"

definition bind_res :: "'a res \<Rightarrow> ('a \<Rightarrow> 'b res) \<Rightarrow> 'b res" where
  "bind_res m f = (case m of Inl e \<Rightarrow> Inl e | Inr x \<Rightarrow> f x)"

lemma bind_res_Inr [res_iff]: "bind_res m f = Inr y \<longleftrightarrow> (\<exists>x. m = Inr x \<and> f x = Inr y)"
  by (cases m) (simp_all add: bind_res_def)

lemma bind_res_simps [simp]:
  "bind_res (Inl e) f = Inl e"
  "bind_res (Inr x) f = f x"
  by (simp_all add: bind_res_def)

lemma if_Inl_Inr [res_iff]: "(if b then Inl e else x) = Inr y \<longleftrightarrow> \<not> b \<and> x = Inr y"
  by simp

text \<open>A loop over a list whose body may fail.\<close>

fun foldRes :: "('x \<Rightarrow> 'a \<Rightarrow> 'a res) \<Rightarrow> 'x list \<Rightarrow> 'a \<Rightarrow> 'a res" where
  "foldRes f [] a = Inr a"
| "foldRes f (x # xs) a = bind_res (f x a) (foldRes f xs)"

lemma foldRes_append: "foldRes f (xs @ ys) a = bind_res (foldRes f xs a) (foldRes f ys)"
proof (induction xs arbitrary: a)
  case (Cons x xs)
  then show ?case by (cases "f x a") simp_all
qed simp

lemma bind_Some_conv [res_iff]: "Option.bind m f = Some y \<longleftrightarrow> (\<exists>x. m = Some x \<and> f x = Some y)"
  by (cases m) simp_all

text \<open>Introduction rules for a predicate on the outcome of a panicking computation.\<close>

lemma bind_predI: "m \<noteq> None \<Longrightarrow> (\<And>x. m = Some x \<Longrightarrow> P (f x)) \<Longrightarrow> P (Option.bind m f)"
  by (cases m) simp_all

lemma if_predI: "(b \<Longrightarrow> P x) \<Longrightarrow> (\<not> b \<Longrightarrow> P y) \<Longrightarrow> P (if b then x else y)"
  by simp

section \<open>Slices and byte order\<close>

text \<open>Indexing and slicing out of range panic. A slice \<open>slice xs a b\<close> is \<^verbatim>\<open>xs[a:b]\<close> of a slice
  whose capacity is its length.\<close>

definition at :: "'a list \<Rightarrow> nat \<Rightarrow> 'a option" where
  "at xs i = (if i < length xs then Some (xs ! i) else None)"

definition slice :: "'a list \<Rightarrow> nat \<Rightarrow> nat \<Rightarrow> 'a list option" where
  "slice xs a b = (if a \<le> b \<and> b \<le> length xs then Some (take (b - a) (drop a xs)) else None)"

definition Uint16 :: "bytes \<Rightarrow> nat option" where
  "Uint16 b = (case b of x # y # _ \<Rightarrow> Some (unat x * 256 + unat y) | _ \<Rightarrow> None)"

definition Uint16At :: "bytes \<Rightarrow> nat \<Rightarrow> nat option" where
  "Uint16At data off = Option.bind (slice data off (off + 2)) Uint16"

definition PutUint16 :: "nat \<Rightarrow> bytes" where
  "PutUint16 n = [word_of_nat (n div 256), word_of_nat n]"

text \<open>\<^verbatim>\<open>bytes.LastIndexByte\<close> and \<^verbatim>\<open>strings.LastIndexByte\<close>; \<^const>\<open>None\<close> is \<open>-1\<close>.\<close>

definition LastIndexByte :: "'a list \<Rightarrow> 'a \<Rightarrow> nat option" where
  "LastIndexByte xs c =
     (if c \<in> set xs then Some (length xs - 1 - length (takeWhile (\<lambda>x. x \<noteq> c) (rev xs))) else None)"

lemma LastIndexByte_None [simp]: "LastIndexByte xs c = None \<longleftrightarrow> c \<notin> set xs"
  by (simp add: LastIndexByte_def)

lemma LastIndexByte_Some:
  assumes "LastIndexByte xs c = Some i"
  shows "i < length xs" "xs ! i = c" "c \<notin> set (drop (Suc i) xs)"
proof -
  have c: "c \<in> set xs" and i: "i = length xs - 1 - length (takeWhile (\<lambda>x. x \<noteq> c) (rev xs))"
    using assms by (simp_all add: LastIndexByte_def split: if_splits)
  then obtain ys zs where s: "xs = ys @ c # zs" "c \<notin> set zs" by (meson split_list_last)
  have "takeWhile (\<lambda>x. x \<noteq> c) (rev xs) = rev zs" unfolding s(1) using s(2) by (simp, subst takeWhile_append2) auto
  then have "i = length ys" using i s(1) by simp
  then show "i < length xs" "xs ! i = c" "c \<notin> set (drop (Suc i) xs)" using s by simp_all
qed

lemma at_Some [simp]: "i < length xs \<Longrightarrow> at xs i = Some (xs ! i)"
  by (simp add: at_def)

lemma slice_Some [simp]: "a \<le> b \<Longrightarrow> b \<le> length xs \<Longrightarrow> slice xs a b = Some (take (b - a) (drop a xs))"
  by (simp add: slice_def)

lemma at_append: "data = pre @ x # rest \<Longrightarrow> i = length pre \<Longrightarrow> at data i = Some x"
  by simp

lemma take_drop_two: "i + 2 \<le> length xs \<Longrightarrow> take 2 (drop i xs) = [xs ! i, xs ! Suc i]"
  by (simp add: take_Suc_conv_app_nth numeral_2_eq_2)

lemma Uint16At_Some [simp]:
  "off + 2 \<le> length data \<Longrightarrow> Uint16At data off = Some (unat (data ! off) * 256 + unat (data ! Suc off))"
  by (simp add: Uint16At_def Uint16_def take_drop_two)

lemma Uint16_PutUint16: "n < 65536 \<Longrightarrow> Uint16 (PutUint16 n @ rest) = Some n"
  by (simp add: Uint16_def PutUint16_def unat_of_nat)

lemma length_PutUint16 [simp]: "length (PutUint16 n) = 2"
  by (simp add: PutUint16_def)

lemma slice_middle [simp]: "slice (a @ b @ c) (length a) (length a + length b) = Some b"
  by (simp add: slice_def)

lemma Uint16At_PutUint16:
  assumes "data = pre @ PutUint16 n @ rest" "off = length pre" "n < 65536"
  shows "Uint16At data off = Some n"
  using slice_middle [of pre "PutUint16 n" rest] Uint16_PutUint16 [OF assms(3), of "[]"] assms(1,2)
  by (simp add: Uint16At_def)

end
