(* ===== verification/Sockets.thy ===== *)
theory Sockets
  imports Prelude
begin

text \<open>
  Connections as the program uses them: writes, urgent data (\<^verbatim>\<open>oob.go\<close>, \<^verbatim>\<open>oob_unix.go\<close>) and
  waiting for acknowledgements (\<^verbatim>\<open>waitack_linux.go\<close>). The operating system is a record of
  answers that may depend on the whole history of calls; nothing is assumed of it unless a
  theorem says so. A history lists the calls that had an effect, oldest first.
\<close>

datatype event =
    EvWrite nat bytes
  | EvOOB nat bytes
  | EvSleep duration
  | EvTcpInfo nat
  | EvIntr nat
  | EvFail nat
  | EvClose nat

type_synonym hist = "event list"

datatype sendto = SendOk | EINTR | SendErr err

record kernel =
  k_isSyscallConn :: "nat \<Rightarrow> bool"
  k_syscallConn :: "hist \<Rightarrow> nat \<Rightarrow> err option"
  k_write :: "hist \<Rightarrow> nat \<Rightarrow> bytes \<Rightarrow> err option"
  k_rawWrite :: "hist \<Rightarrow> nat \<Rightarrow> err option"
  k_sendto :: "hist \<Rightarrow> nat \<Rightarrow> bytes \<Rightarrow> sendto"
  k_rawControl :: "hist \<Rightarrow> nat \<Rightarrow> err option"
  k_tcpInfo :: "hist \<Rightarrow> nat \<Rightarrow> nat res"
  k_now :: "hist \<Rightarrow> int"

section \<open>Operations\<close>

definition connWrite :: "kernel \<Rightarrow> hist \<Rightarrow> nat \<Rightarrow> bytes \<Rightarrow> hist \<times> err option" where
  "connWrite k h c b = (case k_write k h c b of
       None \<Rightarrow> (h @ [EvWrite c b], None)
     | Some e \<Rightarrow> (h @ [EvFail c], Some e))"

definition getRawConn :: "kernel \<Rightarrow> hist \<Rightarrow> nat \<Rightarrow> err option" where
  "getRawConn k h c =
     (if \<not> k_isSyscallConn k c then Some (ErrNew ''not a syscall.Conn'')
      else WithStr ''get raw conn'' (k_syscallConn k h c))"

text \<open>\<^verbatim>\<open>Sendto\<close> is retried as long as it is interrupted.\<close>

partial_function (option) sendtoLoop :: "kernel \<Rightarrow> nat \<Rightarrow> bytes \<Rightarrow> hist \<Rightarrow> (hist \<times> err option) option" where
  "sendtoLoop k c buf h = (case k_sendto k h c buf of
       SendOk \<Rightarrow> Some (h @ [EvOOB c buf], None)
     | EINTR \<Rightarrow> sendtoLoop k c buf (h @ [EvIntr c])
     | SendErr e \<Rightarrow> Some (h @ [EvFail c], Some e))"

definition sendWithOOB :: "kernel \<Rightarrow> hist \<Rightarrow> nat \<Rightarrow> bytes \<Rightarrow> byte \<Rightarrow> (hist \<times> err option) option" where
  "sendWithOOB k h c data oob = (case getRawConn k h c of
       Some e \<Rightarrow> Some (h, Some e)
     | None \<Rightarrow> (case k_rawWrite k h c of
         Some e \<Rightarrow> Some (h, Some (OpError ''raw write'' e))
       | None \<Rightarrow> do {
           (h', sendErr) \<leftarrow> sendtoLoop k c (data @ [oob]) h;
           Some (h', WithStr ''sendto (MSG_OOB)'' sendErr) }))"

text \<open>The poll for unacknowledged data. A poll and the clock reading that follows it see the
  same time.\<close>

partial_function (option) ackLoop ::
    "kernel \<Rightarrow> nat \<Rightarrow> duration \<Rightarrow> int \<Rightarrow> hist \<Rightarrow> (hist \<times> err option) option" where
  "ackLoop k c delay start h =
     (let h1 = h @ [EvTcpInfo c] in
      case k_tcpInfo k h c of
        Inl e \<Rightarrow> Some (h1, Some e)
      | Inr unacked \<Rightarrow>
          if unacked = 0 then
            (if k_now k h1 - start \<le> 20 * millisecond then Some (h1 @ [EvSleep delay], None) else Some (h1, None))
          else if k_now k h1 > start + 3 * second
          then Some (h1, Some (ErrNew ''timeout waiting for peer ACK''))
          else ackLoop k c delay start (h1 @ [EvSleep (10 * millisecond)]))"

definition waitForAck :: "kernel \<Rightarrow> hist \<Rightarrow> bool \<Rightarrow> nat \<Rightarrow> duration \<Rightarrow> (hist \<times> err option) option" where
  "waitForAck k h enabled c delay =
     (if \<not> enabled then Some (h @ [EvSleep delay], None)
      else case getRawConn k h c of
        Some e \<Rightarrow> Some (h, Some (OpError ''wait for ACK'' e))
      | None \<Rightarrow> (case k_rawControl k h c of
          Some e \<Rightarrow> Some (h, Some (OpError ''wait for ack: raw control'' e))
        | None \<Rightarrow> do {
            (h', innerErr) \<leftarrow> ackLoop k c delay (k_now k h) h;
            Some (h', WithStr ''wait for ack: get tcp info'' innerErr) }))"

section \<open>The calls return\<close>

text \<open>Assumptions on the system under which the loops end: a send is not interrupted for ever,
  and a sleep lasts at least as long as asked for.\<close>

definition interrupts_end :: "kernel \<Rightarrow> bool" where
  "interrupts_end k \<longleftrightarrow> (\<forall>h c buf. \<exists>n. k_sendto k (h @ replicate n (EvIntr c)) c buf \<noteq> EINTR)"

definition clock_runs :: "kernel \<Rightarrow> bool" where
  "clock_runs k \<longleftrightarrow> (\<forall>h e. k_now k h \<le> k_now k (h @ [e])) \<and>
     (\<forall>h d. k_now k h + d \<le> k_now k (h @ [EvSleep d]))"

lemma sendtoLoop_returns:
  assumes "k_sendto k (h @ replicate n (EvIntr c)) c buf \<noteq> EINTR"
  shows "\<exists>r. sendtoLoop k c buf h = Some r"
  using assms
proof (induction n arbitrary: h)
  case 0
  then show ?case by (subst sendtoLoop.simps) (auto split: sendto.split)
next
  case (Suc n)
  then have "\<exists>r. sendtoLoop k c buf (h @ [EvIntr c]) = Some r" by simp
  then show ?case by (subst sendtoLoop.simps) (auto split: sendto.split)
qed

lemma ackLoop_returns:
  assumes clock: "clock_runs k"
  shows "\<exists>r. ackLoop k c delay start h = Some r"
proof (induction "nat (start + 3 * second + 1 - k_now k h)" arbitrary: h rule: less_induct)
  case less
  let ?h1 = "h @ [EvTcpInfo c]" let ?h2 = "?h1 @ [EvSleep (10 * millisecond)]"
  have t: "k_now k h \<le> k_now k ?h1" "k_now k ?h1 + 10 * millisecond \<le> k_now k ?h2"
    using clock unfolding clock_runs_def by blast+
  have "\<exists>r. ackLoop k c delay start ?h2 = Some r" if "k_now k ?h1 \<le> start + 3 * second"
    using that t by (intro less.hyps) (simp add: second_def millisecond_def)
  then show ?case by (subst ackLoop.simps) (auto simp: Let_def split: sum.split)
qed

text \<open>What a peer reads in band: the payloads of the writes and of the urgent sends, where a
  new urgent byte supersedes the previous one, which is then delivered in band. So only the
  last byte of the last urgent send is missing.\<close>

fun sentBytes :: "nat \<Rightarrow> event \<Rightarrow> bytes" where
  "sentBytes c (EvWrite c' b) = (if c' = c then b else [])"
| "sentBytes c (EvOOB c' b) = (if c' = c then b else [])"
| "sentBytes c _ = []"

fun isOOB :: "nat \<Rightarrow> event \<Rightarrow> bool" where
  "isOOB c (EvOOB c' b) \<longleftrightarrow> c' = c"
| "isOOB c _ \<longleftrightarrow> False"

fun inband :: "nat \<Rightarrow> hist \<Rightarrow> bytes" where
  "inband c [] = []"
| "inband c (e # es) =
     (if isOOB c e \<and> \<not> (\<exists>e' \<in> set es. isOOB c e') then butlast (sentBytes c e) else sentBytes c e) @ inband c es"

end
