(* ===== verification/ClientHello.thy ===== *)
theory ClientHello
  imports Prelude
begin

text \<open>
  The TLS ClientHello parser \<^verbatim>\<open>parseClientHello\<close> of \<^verbatim>\<open>internal/core/tunnel.go\<close>. The result is a
  tuple of the protocol version bytes, the position and length of the server name (position
  \<open>-1\<close> when there is none), the flags for a key share and for an encrypted hello, and the
  error. \<^const>\<open>None\<close> is an index out of range. The theorems show that the parser is total on every
  record that \<^verbatim>\<open>handleTLS\<close> passes, that a position it reports lies inside the record, and that
  it finds exactly the server name of an encoded hello.
\<close>

section \<open>The parser\<close>

definition tlsRecordTypeHandshake :: byte where "tlsRecordTypeHandshake = 0x16"
definition tlsMajorVersion :: byte where "tlsMajorVersion = 3"
definition tlsRecordHeaderLen :: nat where "tlsRecordHeaderLen = 5"
definition tlsHandshakeHeaderLen :: nat where "tlsHandshakeHeaderLen = 4"
definition tlsHandshakeTypeClientHello :: byte where "tlsHandshakeTypeClientHello = 1"
definition tlsExtTypeSNI :: nat where "tlsExtTypeSNI = 0"
definition tlsExtTypeKeyShare :: nat where "tlsExtTypeKeyShare = 0x33"
definition tlsExtTypeECH :: nat where "tlsExtTypeECH = 0xfe"

lemmas tls_consts = tlsRecordTypeHandshake_def tlsMajorVersion_def tlsRecordHeaderLen_def
  tlsHandshakeHeaderLen_def tlsHandshakeTypeClientHello_def
lemmas tls_ext_consts = tlsExtTypeSNI_def tlsExtTypeKeyShare_def tlsExtTypeECH_def

text \<open>One server name extension: its position and length, or the error it is refused with.\<close>

definition parseSNI :: "bytes \<Rightarrow> nat \<Rightarrow> nat \<Rightarrow> nat \<Rightarrow> int \<Rightarrow> (nat \<times> nat) res option" where
  "parseSNI data extDataStart extDataEnd extLen sniStart =
     (if sniStart \<noteq> -1 then Some (Inl (ErrNew ''duplicate SNI extension''))
      else if extLen < 2 then Some (Inl (ErrNew ''malformed SNI extension (too short for list length)''))
      else do {
        listLen \<leftarrow> Uint16At data extDataStart;
        if listLen + 2 \<noteq> extLen then Some (Inl (ErrNew ''SNI list length field mismatch''))
        else
          let cursor = extDataStart + 2 in
          if cursor + 3 > extDataEnd then Some (Inl (ErrNew ''SNI entry too short''))
          else do {
            nameType \<leftarrow> at data cursor;
            if nameType \<noteq> 0 then Some (Inl (ErrNew ''unsupported SNI name type''))
            else do {
              nameLen \<leftarrow> Uint16At data (cursor + 1);
              let nameStart = cursor + 3;
              if nameStart + nameLen > extDataEnd
              then Some (Inl (ErrNew ''SNI name length exceeds extension''))
              else Some (Inr (nameStart, nameLen)) } } })"

type_synonym ext_state = "int \<times> int \<times> bool \<times> bool"

function parseExtensions ::
    "bytes \<Rightarrow> nat \<Rightarrow> nat \<Rightarrow> ext_state \<Rightarrow> (ext_state \<times> err option) option" where
  "parseExtensions data extensionsEnd offset st =
     (if offset + 4 \<le> extensionsEnd then
        case (Uint16At data offset, Uint16At data (offset + 2)) of
          (Some extType, Some extLen) \<Rightarrow>
            let (sniStart, sniLen, hasKeyShare, hasECH) = st;
                extDataStart = offset + 4; extDataEnd = extDataStart + extLen
            in if extDataEnd > extensionsEnd
               then Some (st, Some (ErrNew ''extension length exceeds extensions block''))
               else if extType = tlsExtTypeKeyShare
               then parseExtensions data extensionsEnd extDataEnd (sniStart, sniLen, True, hasECH)
               else if extType = tlsExtTypeECH
               then parseExtensions data extensionsEnd extDataEnd (sniStart, sniLen, hasKeyShare, True)
               else if extType = tlsExtTypeSNI
               then (case parseSNI data extDataStart extDataEnd extLen sniStart of
                       None \<Rightarrow> None
                     | Some (Inl e) \<Rightarrow> Some (st, Some e)
                     | Some (Inr (s, n)) \<Rightarrow>
                         parseExtensions data extensionsEnd extDataEnd (int s, int n, hasKeyShare, hasECH))
               else parseExtensions data extensionsEnd extDataEnd st
        | _ \<Rightarrow> None
      else Some (st, None))"
  by pat_completeness auto
termination
  by (relation "measure (\<lambda>(data, e, off, st). e - off)") auto

declare parseExtensions.simps [simp del]

type_synonym hello_res = "bytes \<times> int \<times> int \<times> bool \<times> bool \<times> err option"

definition helloErr :: "bytes \<Rightarrow> string \<Rightarrow> hello_res option" where
  "helloErr prtVer e = Some (prtVer, -1, 0, False, False, Some (ErrNew e))"

text \<open>The fields after the random value: session id, cipher suites, compression methods and
  the extension block.\<close>

definition parseHelloBody :: "bytes \<Rightarrow> bytes \<Rightarrow> nat \<Rightarrow> hello_res option" where
  "parseHelloBody data prtVer offset =
     (if offset \<ge> length data then helloErr prtVer ''unexpected end after Random'' else do {
      sessionIDLen \<leftarrow> map_option unat (at data offset);
      let offset = offset + 1;
      if offset + sessionIDLen > length data then helloErr prtVer ''session_id length exceeds data'' else do {
      let offset = offset + sessionIDLen;
      if offset + 2 > length data then helloErr prtVer ''cannot read cipher_suites length'' else do {
      csLen \<leftarrow> Uint16At data offset;
      let offset = offset + 2;
      if offset + csLen > length data then helloErr prtVer ''cipher_suites exceed data'' else do {
      let offset = offset + csLen;
      if offset \<ge> length data then helloErr prtVer ''cannot read compression_methods length'' else do {
      compMethodsLen \<leftarrow> map_option unat (at data offset);
      let offset = offset + 1;
      if offset + compMethodsLen > length data then helloErr prtVer ''compression_methods exceed data'' else do {
      let offset = offset + compMethodsLen;
      if offset + 2 > length data then Some (prtVer, -1, 0, False, False, None) else do {
      extTotalLen \<leftarrow> Uint16At data offset;
      let offset = offset + 2;
      if offset + extTotalLen > length data then helloErr prtVer ''extensions length exceeds data'' else do {
      ((sniStart, sniLen, hasKeyShare, hasECH), e) \<leftarrow>
        parseExtensions data (offset + extTotalLen) offset (-1, 0, False, False);
      Some (prtVer, sniStart, sniLen, hasKeyShare, hasECH, e) }}}}}}}})"

definition parseClientHello :: "bytes \<Rightarrow> hello_res option" where
  "parseClientHello data = do {
     b0 \<leftarrow> at data 0;
     if b0 \<noteq> tlsRecordTypeHandshake then helloErr [] ''not a TLS handshake record'' else do {
     b1 \<leftarrow> at data 1;
     if b1 \<noteq> tlsMajorVersion then helloErr [] ''not a standard TLS record'' else do {
     recordLen \<leftarrow> Uint16At data 3;
     if length data < tlsRecordHeaderLen + recordLen then helloErr [] ''record length exceeds data size'' else do {
     let offset = tlsRecordHeaderLen;
     if recordLen < tlsHandshakeHeaderLen then helloErr [] ''handshake message too short'' else do {
     t \<leftarrow> at data offset;
     if t \<noteq> tlsHandshakeTypeClientHello
     then helloErr [] (''not a ClientHello handshake (type='' @ digitsOf (unat t) @ '')'') else do {
     l1 \<leftarrow> at data (offset + 1);
     l2 \<leftarrow> at data (offset + 2);
     l3 \<leftarrow> at data (offset + 3);
     let handshakeLen = unat l1 * 65536 + unat l2 * 256 + unat l3;
     if handshakeLen + tlsHandshakeHeaderLen > recordLen
     then helloErr [] ''handshake length exceeds record length'' else do {
     let offset = offset + tlsHandshakeHeaderLen;
     if handshakeLen < 2 + 32 + 1
     then helloErr [] ''ClientHello too short for mandatory fields'' else do {
     prtVer \<leftarrow> slice data offset (offset + 2);
     parseHelloBody data prtVer (offset + 2 + 32) }}}}}}}}"

section \<open>Totality and bounds\<close>

text \<open>A reported server name lies behind the fixed fields of a hello and inside the record.\<close>

definition sni_in :: "nat \<Rightarrow> nat \<Rightarrow> ext_state \<Rightarrow> bool" where
  "sni_in lo hi st = (case st of (sniStart, sniLen, _) \<Rightarrow>
     sniStart = -1 \<and> sniLen = 0 \<or> int lo \<le> sniStart \<and> 0 \<le> sniLen \<and> sniStart + sniLen \<le> int hi)"

lemma parseSNI_total:
  assumes "s + n \<le> e" "e \<le> length data" "lo \<le> s"
  shows "\<exists>r. parseSNI data s (s + n) n st = Some r \<and>
    (\<forall>p l. r = Inr (p, l) \<longrightarrow> lo + 5 \<le> p \<and> p + l \<le> e)"
proof (cases "st = -1 \<and> 2 \<le> n")
  case False
  then show ?thesis by (auto simp: parseSNI_def)
next
  case True
  show ?thesis
  proof (cases "5 \<le> n")
    case True
    with \<open>st = -1 \<and> 2 \<le> n\<close> assms show ?thesis
      by (auto simp: parseSNI_def)
  next
    case False
    with True assms show ?thesis by (auto simp: parseSNI_def)
  qed
qed

lemma parseExtensions_end: "e < off + 4 \<Longrightarrow> parseExtensions data e off st = Some (st, None)"
  by (subst parseExtensions.simps) simp

lemma parseExtensions_overrun:
  assumes "off + 4 \<le> e" "Uint16At data off = Some t" "Uint16At data (off + 2) = Some l" "e < off + 4 + l"
  shows "parseExtensions data e off st = Some (st, Some (ErrNew ''extension length exceeds extensions block''))"
  using assms by (subst parseExtensions.simps) (simp add: Let_def split: prod.split)

lemma parseExtensions_step:
  assumes "off + 4 \<le> e" "Uint16At data off = Some t" "Uint16At data (off + 2) = Some l" "off + 4 + l \<le> e"
  shows "parseExtensions data e off (s, n, k, c) =
    (if t = tlsExtTypeKeyShare then parseExtensions data e (off + 4 + l) (s, n, True, c)
     else if t = tlsExtTypeECH then parseExtensions data e (off + 4 + l) (s, n, k, True)
     else if t = tlsExtTypeSNI then
       (case parseSNI data (off + 4) (off + 4 + l) l s of
          None \<Rightarrow> None
        | Some (Inl x) \<Rightarrow> Some ((s, n, k, c), Some x)
        | Some (Inr (p, m)) \<Rightarrow> parseExtensions data e (off + 4 + l) (int p, int m, k, c))
     else parseExtensions data e (off + 4 + l) (s, n, k, c))"
  using assms by (subst parseExtensions.simps) (simp add: Let_def)

lemma parseExtensions_total:
  assumes "e \<le> length data" "lo \<le> off" "sni_in (lo + 9) e st"
  shows "\<exists>st' r. parseExtensions data e off st = Some (st', r) \<and> sni_in (lo + 9) e st'"
proof -
  define P where "P x \<longleftrightarrow> (\<exists>st' (r :: err option). x = Some (st', r) \<and> sni_in (lo + 9) e st')" for x
  have "P (parseExtensions data e off st)"
    using assms(2,3)
  proof (induction "e - off" arbitrary: off st rule: less_induct)
    case less
    obtain s n k c where st: "st = (s, n, k, c)" by (cases st)
    have stop: "P (Some (st, r))" for r using less.prems by (auto simp: P_def)
    show ?case
    proof (cases "off + 4 \<le> e")
      case False
      then show ?thesis using stop by (simp add: parseExtensions_end)
    next
      case True
      obtain t l where r: "Uint16At data off = Some t" "Uint16At data (off + 2) = Some l"
        using True assms(1) by simp
      show ?thesis
      proof (cases "off + 4 + l \<le> e")
        case fits: True
        have IH: "P (parseExtensions data e (off + 4 + l) st')" if "sni_in (lo + 9) e st'" for st'
          using less.hyps [of "off + 4 + l" st'] that less.prems True by simp
        have inv: "sni_in (lo + 9) e (s, n, k', c')" for k' c' using less.prems(2) by (simp add: sni_in_def st)
        obtain q where q: "parseSNI data (off + 4) (off + 4 + l) l s = Some q"
          "\<And>p m. q = Inr (p, m) \<Longrightarrow> lo + 9 \<le> p \<and> p + m \<le> e"
          using parseSNI_total [OF fits assms(1), of "lo + 4" s] less.prems(1) by (auto simp: add.commute)
        then have "sni_in (lo + 9) e (int p, int m, k, c)" if "q = Inr (p, m)" for p m
          using q(2) [OF that] by (simp add: sni_in_def)
        with IH inv stop show ?thesis
          unfolding st parseExtensions_step [OF True r fits] q(1)
          by (auto split: sum.split simp: st)
      next
        case False
        then show ?thesis using stop parseExtensions_overrun [OF True r] by simp
      qed
    qed
  qed
  then show ?thesis by (simp add: P_def)
qed

lemma parseHelloBody_total:
  "\<exists>s n k c e. parseHelloBody data v off = Some (v, s, n, k, c, e) \<and> sni_in (off + 15) (length data) (s, n, k, c)"
proof -
  define P where "P x \<longleftrightarrow> (\<exists>s n k c (e :: err option). x = Some (v, s, n, k, c, e) \<and>
    sni_in (off + 15) (length data) (s, n, k, c))" for x
  have ext: "P (parseExtensions data (o' + l) o' (-1, 0, False, False) \<bind>
      (\<lambda>((s, n, k, c), e). Some (v, s, n, k, c, e)))" if "off + 6 \<le> o'" "o' + l \<le> length data" for o' l
    using parseExtensions_total [OF that(2), of "off + 6" o' "(-1, 0, False, False)"] that
    by (fastforce simp: sni_in_def P_def)
  have out: "P (Some (v, -1, 0, False, False, e))" for e by (auto simp: P_def sni_in_def)
  have "P (parseHelloBody data v off)"
    unfolding parseHelloBody_def Let_def helloErr_def
    by (intro if_predI [where P = P] ext out bind_predI [where P = P]) simp_all
  then show ?thesis by (simp add: P_def)
qed


lemma parseClientHello_bounds:
  assumes "5 \<le> length data"
  shows "\<exists>v s n k c e. parseClientHello data = Some (v, s, n, k, c, e) \<and>
    sni_in 58 (length data) (s, n, k, c) \<and> (e = None \<longrightarrow> length v = 2 \<and> 44 \<le> length data)"
proof -
  define P where "P x \<longleftrightarrow> (\<exists>(v :: bytes) s n k c (e :: err option). x = Some (v, s, n, k, c, e) \<and>
    sni_in 58 (length data) (s, n, k, c) \<and> (e = None \<longrightarrow> length v = 2 \<and> 44 \<le> length data))" for x
  have out: "P (helloErr v x)" for v x by (auto simp: P_def helloErr_def sni_in_def)
  have body: "P (parseHelloBody data v 43)" if "length v = 2" "44 \<le> length data" for v
    using parseHelloBody_total [of data v 43] that by (auto simp: P_def)
  have "P (parseClientHello data)"
    using assms unfolding parseClientHello_def Let_def
    by (intro if_predI [where P = P] out bind_predI [where P = P]) (auto simp: tls_consts at_def intro!: body)
  then show ?thesis by (simp add: P_def)
qed

section \<open>Encoded hellos\<close>

text \<open>The wire format of a hello, as a specification for the parser.\<close>

record hello =
  h_minor :: byte
  h_version :: bytes
  h_random :: bytes
  h_session :: bytes
  h_ciphers :: bytes
  h_compression :: bytes
  h_extensions :: "(nat \<times> bytes) list"

definition enc_ext :: "nat \<times> bytes \<Rightarrow> bytes" where
  "enc_ext x = PutUint16 (fst x) @ PutUint16 (length (snd x)) @ snd x"

definition enc_exts :: "(nat \<times> bytes) list \<Rightarrow> bytes" where
  "enc_exts xs = concat (map enc_ext xs)"

definition sni_body :: "bytes \<Rightarrow> bytes" where
  "sni_body name = PutUint16 (length name + 3) @ [0] @ PutUint16 (length name) @ name"

definition enc_body :: "hello \<Rightarrow> bytes" where
  "enc_body h = h_version h @ h_random h @ [word_of_nat (length (h_session h))] @ h_session h @
     PutUint16 (length (h_ciphers h)) @ h_ciphers h @
     [word_of_nat (length (h_compression h))] @ h_compression h @
     PutUint16 (length (enc_exts (h_extensions h))) @ enc_exts (h_extensions h)"

definition enc_hello :: "hello \<Rightarrow> bytes" where
  "enc_hello h = [0x16, 3, h_minor h] @ PutUint16 (length (enc_body h) + 4) @
     [1, word_of_nat (length (enc_body h) div 65536)] @ PutUint16 (length (enc_body h) mod 65536) @ enc_body h"

definition wf_hello :: "hello \<Rightarrow> bool" where
  "wf_hello h \<longleftrightarrow> length (h_version h) = 2 \<and> length (h_random h) = 32 \<and>
     length (h_session h) < 256 \<and> length (h_compression h) < 256 \<and> length (enc_body h) + 4 < 65536 \<and>
     (\<forall>(t, b) \<in> set (h_extensions h). t < 65536)"

lemma enc_ext_length [simp]: "length (enc_ext x) = 4 + length (snd x)"
  by (simp add: enc_ext_def)

lemma enc_exts_simps [simp]:
  "enc_exts [] = []" "enc_exts (x # xs) = enc_ext x @ enc_exts xs" "enc_exts (xs @ ys) = enc_exts xs @ enc_exts ys"
  by (simp_all add: enc_exts_def)

lemma sni_body_length [simp]: "length (sni_body name) = length name + 5"
  by (simp add: sni_body_def)

lemma parseSNI_enc:
  assumes "data = pre @ sni_body name @ post" "length name + 3 < 65536"
  shows "parseSNI data (length pre) (length pre + (length name + 5)) (length name + 5) (-1) =
    Some (Inr (length pre + 5, length name))"
proof -
  have 1: "Uint16At data (length pre) = Some (length name + 3)"
    using assms by (intro Uint16At_PutUint16) (simp_all add: sni_body_def)
  have 2: "Uint16At data (length pre + 2 + 1) = Some (length name)"
    using assms
    by (intro Uint16At_PutUint16 [of data "pre @ PutUint16 (length name + 3) @ [0]"]) (simp_all add: sni_body_def)
  have 3: "at data (length pre + 2) = Some 0"
    using assms by (simp add: sni_body_def nth_append)
  show ?thesis using 1 2 3 by (simp add: parseSNI_def)
qed

text \<open>What the extension loop computes on an encoded block.\<close>

fun spec_exts :: "nat \<Rightarrow> (nat \<times> bytes) list \<Rightarrow> ext_state \<Rightarrow> ext_state" where
  "spec_exts off [] st = st"
| "spec_exts off ((t, b) # xs) (s, n, k, c) = spec_exts (off + 4 + length b) xs
     (if t = 0 then (int off + 9, int (length b) - 5, k, c) else (s, n, k \<or> t = 0x33, c \<or> t = 0xfe))"

fun one_sni :: "bool \<Rightarrow> (nat \<times> bytes) list \<Rightarrow> bool" where
  "one_sni seen [] = True"
| "one_sni seen ((t, b) # xs) \<longleftrightarrow>
     (if t = 0 then \<not> seen \<and> (\<exists>name. b = sni_body name) \<and> one_sni True xs else one_sni seen xs)"

lemma parseExtensions_enc:
  assumes "data = pre @ enc_exts xs @ post" "length (enc_exts xs) < 65536" "\<forall>(t, b) \<in> set xs. t < 65536"
    "one_sni (s \<noteq> -1) xs"
  shows "parseExtensions data (length pre + length (enc_exts xs)) (length pre) (s, n, k, c) =
    Some (spec_exts (length pre) xs (s, n, k, c), None)"
  using assms
proof (induction xs arbitrary: pre s n k c)
  case Nil
  then show ?case by (simp add: parseExtensions_end)
next
  case (Cons x xs)
  obtain t b where x: "x = (t, b)" by force
  let ?e = "length pre + length (enc_exts (x # xs))" and ?pre = "pre @ enc_ext x"
  have d: "data = ?pre @ enc_exts xs @ post" using Cons.prems(1) by simp
  have r: "Uint16At data (length pre) = Some t"
    by (rule Uint16At_PutUint16 [of _ pre _ "PutUint16 (length b) @ b @ enc_exts xs @ post"])
      (use Cons.prems x in \<open>auto simp: enc_ext_def\<close>)
  have r': "Uint16At data (length pre + 2) = Some (length b)"
    by (rule Uint16At_PutUint16 [of _ "pre @ PutUint16 t" _ "b @ enc_exts xs @ post"])
      (use Cons.prems x in \<open>auto simp: enc_ext_def\<close>)
  have IH: "parseExtensions data ?e (length pre + 4 + length b) st' =
      Some (spec_exts (length pre + 4 + length b) xs st', None)" if "one_sni (fst st' \<noteq> -1) xs" for st'
    using Cons.IH [OF d, of "fst st'" "fst (snd st')"] Cons.prems(2,3) that x
    by (cases st') (simp add: add.assoc)
  have sni: "parseSNI data (length pre + 4) (length pre + 4 + length b) (length b) s =
      Some (Inr (length pre + 9, length name))" if "s = -1" "b = sni_body name" for name
    using parseSNI_enc [of data "pre @ PutUint16 t @ PutUint16 (length b)" name "enc_exts xs @ post"]
      Cons.prems(1,2) that x by (simp add: enc_ext_def)
  have fits: "length pre + 4 \<le> ?e" "length pre + 4 + length b \<le> ?e" using x by simp_all
  show ?case
    unfolding parseExtensions_step [OF fits(1) r r' fits(2)] tls_ext_consts
    using IH sni Cons.prems(4) x by auto
qed


lemma parseHelloBody_ok:
  assumes sid: "at data o1 = Some a" "o1 + 1 + unat a = o2"
    and cs: "Uint16At data o2 = Some b" "o2 + 2 + b = o3"
    and cm: "at data o3 = Some d" "o3 + 1 + unat d = o4"
    and x: "Uint16At data o4 = Some l" "o4 + 2 = o5" "o5 + l \<le> length data"
    and ext: "parseExtensions data (o5 + l) o5 (-1, 0, False, False) = Some ((s, n, k, c), e)"
  shows "parseHelloBody data v o1 = Some (v, s, n, k, c, e)"
proof -
  have "o1 < length data" "o2 + 2 \<le> length data" "o3 < length data" "o4 + 2 \<le> length data" "o2 \<le> length data"
    "o3 \<le> length data" "o4 \<le> length data" "o5 \<le> length data"
    using assms(2,4,6,8,9) by linarith+
  then show ?thesis
    unfolding parseHelloBody_def Let_def sid(1) option.map bind.bind_lunit sid(2) cs(1) cs(2) cm(1) cm(2) x(1) x(2) ext
    using x(3) by simp
qed

lemma parseHelloBody_enc:
  assumes wf: "wf_hello h" and one: "one_sni False (h_extensions h)"
    and data: "data = pre @ h_version h @ h_random h @ drop 34 (enc_body h)" "length pre = 9"
  shows "parseHelloBody data v 43 = (case spec_exts (length data - length (enc_exts (h_extensions h)))
      (h_extensions h) (-1, 0, False, False) of (s, n, k, c) \<Rightarrow> Some (v, s, n, k, c, None))"
proof -
  let ?s = "h_session h" and ?cs = "h_ciphers h" and ?cm = "h_compression h" and ?x = "enc_exts (h_extensions h)"
  let ?p1 = "pre @ h_version h @ h_random h" and ?p2 = "pre @ h_version h @ h_random h @ [word_of_nat (length ?s)] @ ?s"
  let ?p3 = "?p2 @ PutUint16 (length ?cs) @ ?cs" 
  let ?p4 = "?p3 @ [word_of_nat (length ?cm)] @ ?cm" let ?p5 = "?p4 @ PutUint16 (length ?x)"
  have lens: "length (h_version h) = 2" "length (h_random h) = 32" "length ?s < 256" "length ?cm < 256"
    "length ?cs < 65536" "length ?x < 65536" "\<forall>(t, b) \<in> set (h_extensions h). t < 65536"
    using wf by (auto simp: wf_hello_def enc_body_def)
  have d: "data = ?p5 @ ?x" using data lens(1,2) by (simp add: enc_body_def)
  have len: "length ?p1 = 43" "length ?p2 = 44 + length ?s" "length ?p3 = 46 + length ?s + length ?cs"
    "length ?p4 = 47 + length ?s + length ?cs + length ?cm" "length ?p5 = 49 + length ?s + length ?cs + length ?cm"
    using lens(1,2) data(2) by simp_all
  have 1: "at data 43 = Some (word_of_nat (length ?s))" 
    by (rule at_append [of _ ?p1]) (use d len in simp_all)
  have 2: "Uint16At data (44 + length ?s) = Some (length ?cs)"
    by (rule Uint16At_PutUint16 [of _ ?p2 _ "?cs @ [word_of_nat (length ?cm)] @ ?cm @ PutUint16 (length ?x) @ ?x"])
      (use d len lens in simp_all)
  have 3: "at data (46 + length ?s + length ?cs) = Some (word_of_nat (length ?cm))"
    by (rule at_append [of _ ?p3]) (use d len in simp_all)
  have 4: "Uint16At data (47 + length ?s + length ?cs + length ?cm) = Some (length ?x)"
    by (rule Uint16At_PutUint16 [of _ ?p4 _ ?x]) (use d len lens in simp_all)
  have 5: "parseExtensions data (length ?p5 + length ?x) (length ?p5) (-1, 0, False, False) =
      Some (spec_exts (length ?p5) (h_extensions h) (-1, 0, False, False), None)"
    using parseExtensions_enc [of data ?p5 "h_extensions h" "[]" "-1"] d lens one by simp
  have ld: "length data = 49 + length ?s + length ?cs + length ?cm + length ?x" using d len(5) by simp
  have u: "unat (word_of_nat (length ?s) :: byte) = length ?s" "unat (word_of_nat (length ?cm) :: byte) = length ?cm"
    using lens(3,4) by (simp_all add: unat_of_nat)
  let ?o5 = "49 + length ?s + length ?cs + length ?cm"
  have o5: "length data - length ?x = ?o5" using ld by simp
  obtain s n k c where sp: "spec_exts ?o5 (h_extensions h) (-1, 0, False, False) = (s, n, k, c)"
    by (metis prod_cases4)
  have "parseHelloBody data v 43 = Some (v, s, n, k, c, None)"
  proof (rule parseHelloBody_ok [OF 1 _ 2 _ 3 _ 4])
    show "parseExtensions data (?o5 + length ?x) ?o5 (-1, 0, False, False) = Some ((s, n, k, c), None)"
      using 5 sp unfolding len(5) by simp
  qed (use u ld in simp_all)
  then show ?thesis using sp o5 by simp
qed

lemma spec_exts_no_sni:
  "\<forall>(t, b) \<in> set xs. t \<noteq> 0 \<Longrightarrow> spec_exts off xs (s, n, k, c) =
    (s, n, k \<or> 0x33 \<in> fst ` set xs, c \<or> 0xfe \<in> fst ` set xs)"
  by (induction off xs "(s, n, k, c)" arbitrary: s n k c rule: spec_exts.induct) auto

lemma spec_exts_append:
  "spec_exts off (xs @ ys) st = spec_exts (off + length (enc_exts xs)) ys (spec_exts off xs st)"
  by (induction off xs st rule: spec_exts.induct) (auto simp: add.assoc)

lemma one_sni_append: "\<forall>(t, b) \<in> set xs. t \<noteq> 0 \<Longrightarrow> one_sni d (xs @ ys) = one_sni d ys"
  by (induction xs) auto

lemma one_sni_none: "\<forall>(t, b) \<in> set xs. t \<noteq> 0 \<Longrightarrow> one_sni d xs"
  by (induction xs) auto

lemma enc_hello_parse:
  assumes wf: "wf_hello h" and one: "one_sni False (h_extensions h)"
  shows "parseClientHello (enc_hello h) =
    (case spec_exts (length (enc_hello h) - length (enc_exts (h_extensions h)))
      (h_extensions h) (-1, 0, False, False) of (s, n, k, c) \<Rightarrow> Some (h_version h, s, n, k, c, None))"
proof -
  let ?L = "length (enc_body h)"
  have lens: "length (h_version h) = 2" "length (h_random h) = 32" "?L + 4 < 65536" "35 \<le> ?L"
    using wf by (auto simp: wf_hello_def enc_body_def)
  let ?p = "[0x16, 3, h_minor h] @ PutUint16 (?L + 4) @ [1, word_of_nat (?L div 65536)] @ PutUint16 (?L mod 65536)"
  have d: "enc_hello h = ?p @ enc_body h" by (simp add: enc_hello_def)
  have body: "enc_body h = h_version h @ h_random h @ drop 34 (enc_body h)"
    using lens(1,2) by (simp add: enc_body_def)
  have 1: "Uint16At (enc_hello h) 3 = Some (?L + 4)"
    by (rule Uint16At_PutUint16 [of _ "[0x16, 3, h_minor h]"]) (use lens in \<open>simp_all add: enc_hello_def\<close>)
  have ver: "slice (enc_hello h) 9 11 = Some (h_version h)"
    unfolding d by (subst body) (simp add: slice_def lens)
  have len: "length (enc_hello h) = 9 + ?L" by (simp add: d)
  have z: "?L div 65536 = 0" "?L mod 65536 = ?L" using lens(3) by simp_all
  have l3: "unat (word_of_nat (?L div 256) :: byte) * 256 + unat (word_of_nat ?L :: byte) = ?L"
    using lens(3) by (simp add: unat_of_nat)
  have "parseClientHello (enc_hello h) = parseHelloBody (enc_hello h) (h_version h) 43"
    using 1 ver len lens l3
    by (simp add: parseClientHello_def tls_consts) (simp add: enc_hello_def PutUint16_def z Let_def tls_consts)
  also have "\<dots> = (case spec_exts (length (enc_hello h) - length (enc_exts (h_extensions h)))
      (h_extensions h) (-1, 0, False, False) of (s, n, k, c) \<Rightarrow> Some (h_version h, s, n, k, c, None))"
    by (rule parseHelloBody_enc [OF wf one, of _ ?p]) (use d body in simp_all)
  finally show ?thesis .
qed

lemma enc_hello_split: "\<exists>pre. enc_hello h = pre @ enc_exts (h_extensions h)"
  unfolding enc_hello_def enc_body_def by (metis append_assoc)

section \<open>Properties\<close>

text \<open>
  C4. On every record of at least five bytes, which is what \<^verbatim>\<open>handleTLS\<close> reads, the parser
  returns without an index out of range. The server name position it reports is \<open>-1\<close>, or it and
  the length lie inside the record behind the fixed fields, so that the slice
  \<^verbatim>\<open>record[sniStart:sniStart+sniLen]\<close> is defined; without an error the version bytes are two.
\<close>

theorem parseClientHello_total:
  assumes "5 \<le> length data"
  shows "\<exists>v s n k c e. parseClientHello data = Some (v, s, n, k, c, e) \<and>
    (s = -1 \<or> 58 \<le> s \<and> 0 \<le> n \<and> s + n \<le> int (length data)) \<and> (e = None \<longrightarrow> length v = 2)"
  using parseClientHello_bounds [OF assms] by (auto simp: sni_in_def)

theorem parseClientHello_total_witness:
  "parseClientHello [0x16, 3, 1, 0, 0] = helloErr [] ''handshake message too short'' \<and>
   (\<exists>v s n k c e. parseClientHello [0x16, 3, 1, 0, 0] = Some (v, s, n, k, c, e) \<and>
    (s = -1 \<or> 58 \<le> s \<and> 0 \<le> n \<and> s + n \<le> int (length [0x16 :: byte, 3, 1, 0, 0])) \<and> (e = None \<longrightarrow> length v = 2))"
  using parseClientHello_total [of "[0x16, 3, 1, 0, 0]"]
  by (simp add: parseClientHello_def tls_consts)

text \<open>
  C5. The parser finds the server name: for every encoded hello with one server name
  extension, wherever it stands among the others, the result is the version, a position and
  a length at which the record holds exactly that name, the flags for the extension types
  0x33 (key share) and 0xfe, and no error.
\<close>

theorem parseClientHello_sni:
  assumes wf: "wf_hello h" and exts: "h_extensions h = xs @ (0, sni_body name) # ys"
    and others: "\<forall>(t, b) \<in> set (xs @ ys). t \<noteq> 0"
  shows "\<exists>p. parseClientHello (enc_hello h) =
      Some (h_version h, int p, int (length name), 0x33 \<in> fst ` set (xs @ ys), 0xfe \<in> fst ` set (xs @ ys), None) \<and>
    take (length name) (drop p (enc_hello h)) = name"
proof -
  obtain pre where pre: "enc_hello h = pre @ enc_exts (h_extensions h)" using enc_hello_split by blast
  let ?p = "length pre + length (enc_exts xs) + 9"
  have one: "one_sni False (h_extensions h)" using others unfolding exts
    by (subst one_sni_append) (auto intro!: one_sni_none)
  have "drop ?p (enc_hello h) = name @ enc_exts ys"
    unfolding pre exts by (simp add: enc_ext_def sni_body_def PutUint16_def)
  moreover have "parseClientHello (enc_hello h) = Some (h_version h, int ?p, int (length name),
      0x33 \<in> fst ` set (xs @ ys), 0xfe \<in> fst ` set (xs @ ys), None)"
    using others
    by (subst enc_hello_parse [OF wf one]) (simp add: pre exts spec_exts_append spec_exts_no_sni image_Un)
  ultimately show ?thesis by (intro exI [of _ ?p]) simp
qed

theorem parseClientHello_sni_witness:
  "\<exists>p. parseClientHello (enc_hello \<lparr>h_minor = 1, h_version = [3, 3], h_random = replicate 32 7,
        h_session = [1, 2], h_ciphers = [0x13, 1], h_compression = [0],
        h_extensions = [(0x33, [9]), (0, sni_body [97, 46, 98])]\<rparr>) =
      Some ([3, 3], int p, 3, True, False, None)"
  using parseClientHello_sni [of "\<lparr>h_minor = 1, h_version = [3, 3], h_random = replicate 32 7,
        h_session = [1, 2], h_ciphers = [0x13, 1], h_compression = [0],
        h_extensions = [(0x33, [9]), (0, sni_body [97, 46, 98])]\<rparr>" "[(0x33, [9])]" "[97, 46, 98]" "[]"]
  by (auto simp: wf_hello_def enc_body_def)

end
