(* ===== verification/Fragment.thy ===== *)
theory Fragment
  imports Sockets ClientHello
begin

text \<open>
  Fragmentation of a ClientHello, \<^verbatim>\<open>internal/core/fragment.go\<close>: splitting into TLS records and
  TCP segments around the server name, optionally with urgent data. The theorems show that
  what a peer reads in band is the hello itself, or TLS records whose payloads concatenate to
  the payload of the hello, and describe the one configuration in which the first record is
  not sent.
\<close>

section \<open>Cutting\<close>

record Byte =
  byteVal :: byte
  valid :: bool

definition IsUnset :: "Byte \<Rightarrow> bool" where "IsUnset x \<longleftrightarrow> \<not> valid x"

definition findLastDotOrMidPos :: "bytes \<Rightarrow> int \<Rightarrow> int \<Rightarrow> nat" where
  "findLastDotOrMidPos data sniStart sniLen =
     (if sniStart < 0 \<or> sniLen \<le> 0 \<or> sniStart + sniLen > int (length data) then length data div 2
      else case LastIndexByte (take (nat sniLen) (drop (nat sniStart) data)) 0x2E of
        None \<Rightarrow> nat sniLen div 2 + nat sniStart
      | Some subIdx \<Rightarrow> nat sniStart + subIdx)"

definition makeRecord :: "bytes \<Rightarrow> bytes \<Rightarrow> bytes" where
  "makeRecord header payload =
     take 3 (take 3 header @ replicate 3 0) @ PutUint16 (length payload mod 65536) @ payload"

text \<open>The parts of a slice cut into \<open>n\<close> pieces of equal length, the last taking the rest.\<close>

definition parts :: "nat \<Rightarrow> bytes \<Rightarrow> bytes list" where
  "parts n data = (let base = length data div n in
     map (\<lambda>i. if i = n - 1 then drop (i * base) data else take base (drop (i * base) data)) [0..<n])"

definition splitAndAppend :: "bytes \<Rightarrow> bytes option \<Rightarrow> int \<Rightarrow> bytes list \<Rightarrow> bytes list" where
  "splitAndAppend data header n result =
     (if n \<le> 0 then result
      else
        let rec = (case header of None \<Rightarrow> (\<lambda>p. p) | Some hdr \<Rightarrow> makeRecord hdr)
        in if n = 1 \<or> int (length data) < n then result @ [rec data]
           else result @ map rec (parts (nat n) data))"

section \<open>Sending\<close>

type_synonym effect = "hist \<Rightarrow> (hist \<times> err option) option"

text \<open>\<open>andThen m w f\<close> is \<^verbatim>\<open>if err := m; err != nil { return w(err) }\<close> followed by \<open>f\<close>.\<close>

definition andThen :: "effect \<Rightarrow> (err \<Rightarrow> err) \<Rightarrow> effect \<Rightarrow> effect" where
  "andThen m wrap f h = do {
     (h', e) \<leftarrow> m h;
     (case e of None \<Rightarrow> f h' | Some x \<Rightarrow> Some (h', Some (wrap x))) }"

definition ok :: effect where "ok h = Some (h, None)"

definition writeConn :: "kernel \<Rightarrow> nat \<Rightarrow> bytes \<Rightarrow> effect" where
  "writeConn k c p h = Some (connWrite k h c p)"

definition oobSend :: "kernel \<Rightarrow> nat \<Rightarrow> bytes \<Rightarrow> byte \<Rightarrow> effect" where
  "oobSend k c p x h = sendWithOOB k h c p x"

definition ack :: "kernel \<Rightarrow> bool \<Rightarrow> nat \<Rightarrow> duration \<Rightarrow> effect" where
  "ack k enabled c delay h = waitForAck k h enabled c delay"

text \<open>A loop over indexed pieces, each followed by a wait.\<close>

fun sendEach :: "(nat \<Rightarrow> bytes \<Rightarrow> effect) \<Rightarrow> effect \<Rightarrow> nat \<Rightarrow> bytes list \<Rightarrow> effect" where
  "sendEach send wait i [] = ok"
| "sendEach send wait i (p # ps) =
     andThen (send i p) id (andThen wait id (sendEach send wait (i + 1) ps))"

definition sendPacket :: "kernel \<Rightarrow> nat \<Rightarrow> bool \<Rightarrow> string \<Rightarrow> nat \<Rightarrow> bytes \<Rightarrow> effect" where
  "sendPacket k c oob what i p =
     (if i = 0 \<and> oob then andThen (oobSend k c p 0) (OpError ''oob'') ok
      else andThen (writeConn k c p) (OpError (what @ digitsOf (i + 1))) ok)"

definition sendChunk :: "kernel \<Rightarrow> nat \<Rightarrow> bool \<Rightarrow> bool \<Rightarrow> nat \<Rightarrow> bytes \<Rightarrow> effect" where
  "sendChunk k c oob oobex i chunk =
     (if i = 0 then
        (if oob then andThen (oobSend k c chunk 0) (OpError ''oob'') ok
         else if oobex then (\<lambda>h. do {
           l \<leftarrow> (if 1 \<le> length chunk then Some (length chunk) else None);
           a \<leftarrow> slice chunk 0 (l - 1);
           x \<leftarrow> at chunk (l - 1);
           andThen (oobSend k c a x) (OpError ''oob 1'') ok h })
         else ok)
      else if i = 1 \<and> oobex then andThen (oobSend k c chunk 0) (OpError ''oob 2'') ok
      else andThen (writeConn k c chunk) (OpError (''write record '' @ digitsOf (i + 1))) ok)"

text \<open>The two urgent sends that open the stream when \<^verbatim>\<open>oobex\<close> is set.\<close>

definition oobexPrefix :: "kernel \<Rightarrow> nat \<Rightarrow> bool \<Rightarrow> duration \<Rightarrow> bytes \<Rightarrow> effect \<Rightarrow> effect" where
  "oobexPrefix k c enabled interval data f h = do {
     a \<leftarrow> slice data 0 15;
     x \<leftarrow> at data 15;
     d \<leftarrow> slice data 16 35;
     andThen (oobSend k c a x) (OpError ''oob 1'')
       (andThen (oobSend k c d 0) (OpError ''oob 2'')
         (andThen (ack k enabled c interval) id f)) h }"

definition sendSingleRecord ::
    "kernel \<Rightarrow> nat \<Rightarrow> bytes \<Rightarrow> int \<Rightarrow> int \<Rightarrow> int \<Rightarrow> bool \<Rightarrow> bool \<Rightarrow> duration \<Rightarrow> effect" where
  "sendSingleRecord k c clientHello offset len segments oob enabled interval h =
     (let segments = (if segments < 1 then 1 else segments) in
      if segments = 1 then andThen (writeConn k c clientHello) (OpError ''send remaining data'') ok h
      else
        let leftSegments = segments div 2; rightSegments = segments - leftSegments;
            cut = findLastDotOrMidPos clientHello offset len
        in do {
          left \<leftarrow> slice clientHello 0 cut;
          right \<leftarrow> slice clientHello cut (length clientHello);
          sendEach (sendPacket k c oob ''write packet '') (ack k enabled c interval) 0
            (splitAndAppend right None rightSegments (splitAndAppend left None leftSegments [])) h })"

definition sendMerged ::
    "kernel \<Rightarrow> nat \<Rightarrow> bytes \<Rightarrow> int \<Rightarrow> bool \<Rightarrow> bool \<Rightarrow> duration \<Rightarrow> effect" where
  "sendMerged k c merged segments oob enabled interval h =
     (if segments = 1 \<or> int (length merged) \<le> segments then writeConn k c merged h
      else sendEach (sendPacket k c oob ''write segment '') (ack k enabled c interval) 0
             (parts (nat segments) merged) h)"

definition sendRecords ::
    "kernel \<Rightarrow> nat \<Rightarrow> bytes \<Rightarrow> int \<Rightarrow> int \<Rightarrow> int \<Rightarrow> int \<Rightarrow> Byte \<Rightarrow>
     bool \<Rightarrow> bool \<Rightarrow> bool \<Rightarrow> duration \<Rightarrow> effect" where
  "sendRecords k c clientHello offset len records segments minorVersion oob oobex enabled interval h =
     (let records = (if records < 1 then 1 else records);
          segments = (if segments = 0 then 1 else if segments < 0 then -1 else segments)
      in if length clientHello < 5 then writeConn k c clientHello h
         else if oobex \<and> length clientHello < 35 then writeConn k c clientHello h
         else
           let clientHello = (if \<not> IsUnset minorVersion then clientHello[2 := byteVal minorVersion] else clientHello)
           in if records = 1 then
                (if oobex then
                   oobexPrefix k c enabled interval clientHello
                     (sendSingleRecord k c (drop 35 clientHello) (offset - 35) len segments oob enabled interval) h
                 else sendSingleRecord k c clientHello offset len segments oob enabled interval h)
              else
                let leftChunks = records div 2; rightChunks = records - leftChunks;
                    cut = findLastDotOrMidPos clientHello offset len
                in do {
                  header \<leftarrow> slice clientHello 0 3;
                  left \<leftarrow> slice clientHello 5 cut;
                  right \<leftarrow> slice clientHello cut (length clientHello);
                  let chunks = splitAndAppend right (Some header) rightChunks
                                 (splitAndAppend left (Some header) leftChunks []);
                  if segments = -1
                  then sendEach (sendChunk k c oob oobex) (ack k enabled c interval) 0 chunks h
                  else
                    let merged = concat chunks in
                    if oobex then
                      oobexPrefix k c enabled interval merged
                        (sendMerged k c (drop 35 merged) segments oob enabled interval) h
                    else sendMerged k c merged segments oob enabled interval h })"

section \<open>What successful sends deliver\<close>

definition plain :: "nat \<Rightarrow> bytes \<Rightarrow> hist \<Rightarrow> bool" where
  "plain c bs es \<longleftrightarrow> (\<forall>e \<in> set es. \<not> isOOB c e) \<and> concat (map (sentBytes c) es) = bs"

definition urgent :: "nat \<Rightarrow> bytes \<Rightarrow> byte \<Rightarrow> hist \<Rightarrow> bool" where
  "urgent c bs x es \<longleftrightarrow> (\<exists>a d. es = a @ EvOOB c (bs @ [x]) # d \<and> plain c [] a \<and> plain c [] d)"

lemma plain_Nil [simp]: "plain c [] []"
  by (simp add: plain_def)

lemma plain_append: "plain c x a \<Longrightarrow> plain c y d \<Longrightarrow> plain c (x @ y) (a @ d)"
  by (auto simp: plain_def)

lemma inband_append:
  "inband c (a @ d) = (if \<exists>e \<in> set d. isOOB c e then concat (map (sentBytes c) a) else inband c a) @ inband c d"
  by (induction a) auto

lemma inband_plain: "plain c bs es \<Longrightarrow> inband c es = bs"
  by (induction es arbitrary: bs) (auto simp: plain_def)

lemma plain_sent: "plain c bs es \<Longrightarrow> concat (map (sentBytes c) es) = bs" "plain c bs es \<Longrightarrow> \<not> (\<exists>e \<in> set es. isOOB c e)"
  by (auto simp: plain_def)

lemma urgent_sent: "urgent c bs x es \<Longrightarrow> concat (map (sentBytes c) es) = bs @ [x]" "urgent c bs x es \<Longrightarrow> \<exists>e \<in> set es. isOOB c e"
  by (auto simp: urgent_def plain_sent)

lemma inband_urgent: "urgent c bs x es \<Longrightarrow> inband c es = bs"
  by (auto simp: urgent_def inband_append inband_plain plain_sent)

lemma inband_urgent_plain:
  assumes "urgent c a x u" "plain c d p"
  shows "inband c (u @ p) = a @ d"
  using assms plain_sent(2) [OF assms(2)] by (simp add: inband_append inband_urgent inband_plain)

lemma inband_urgent2_plain:
  assumes "urgent c a x u" "urgent c d y v" "plain c e p"
  shows "inband c (u @ v @ p) = a @ [x] @ d @ e"
  using urgent_sent [OF assms(1)] urgent_sent(2) [OF assms(2)] inband_urgent_plain [OF assms(2,3)]
  by (auto simp: inband_append)

text \<open>\<open>success m Q\<close>: when the effect reports no error, \<open>Q\<close> holds of the events it added.\<close>

definition success :: "effect \<Rightarrow> (hist \<Rightarrow> bool) \<Rightarrow> bool" where
  "success m Q \<longleftrightarrow> (\<forall>h h'. m h = Some (h', None) \<longrightarrow> (\<exists>es. h' = h @ es \<and> Q es))"

lemma successI: "(\<And>h h'. m h = Some (h', None) \<Longrightarrow> \<exists>es. h' = h @ es \<and> Q es) \<Longrightarrow> success m Q"
  by (auto simp: success_def)

lemma success_mono: "success m Q \<Longrightarrow> (\<And>es. Q es \<Longrightarrow> R es) \<Longrightarrow> success m R"
  unfolding success_def by blast

lemma success_ok: "Q [] \<Longrightarrow> success ok Q"
  by (auto simp: success_def ok_def)

lemma success_andThen:
  assumes "success m Q" "success f R" "\<And>a d. Q a \<Longrightarrow> R d \<Longrightarrow> S (a @ d)"
  shows "success (andThen m w f) S"
proof (rule successI)
  fix h h' assume "andThen m w f h = Some (h', None)"
  then obtain h1 where h1: "m h = Some (h1, None)" "f h1 = Some (h', None)"
    by (auto simp: andThen_def res_iff split: option.splits)
  obtain a where a: "h1 = h @ a" "Q a" using assms(1) h1(1) unfolding success_def by blast
  obtain d where d: "h' = h1 @ d" "R d" using assms(2) h1(2) unfolding success_def by blast
  show "\<exists>es. h' = h @ es \<and> S es" using a d assms(3) [OF a(2) d(2)] by (intro exI [of _ "a @ d"]) simp
qed

lemma success_andThen_ok: "success m Q \<Longrightarrow> success (andThen m w ok) Q"
  by (rule success_andThen [where R = "\<lambda>d. d = []"]) (auto intro: success_ok)

lemma success_write: "success (writeConn k c p) (plain c p)"
  by (auto simp: success_def writeConn_def connWrite_def plain_def split: option.splits)

lemma sendtoLoop_sends:
  "sendtoLoop k c buf h = Some r \<Longrightarrow> snd r = None \<Longrightarrow> \<exists>a. fst r = h @ a @ [EvOOB c buf] \<and> plain c [] a"
proof (induction rule: sendtoLoop.raw_induct [rotated, consumes 1, case_names step])
  case (step f k c buf h r)
  show ?case
  proof (cases "k_sendto k h c buf")
    case EINTR
    then obtain a where "fst r = (h @ [EvIntr c]) @ a @ [EvOOB c buf]" "plain c [] a"
      using step.IH [of k c buf "h @ [EvIntr c]" r] step.hyps step.prems by auto
    then show ?thesis by (intro exI [of _ "EvIntr c # a"]) (simp add: plain_def)
  next
    case SendOk
    then show ?thesis using step.hyps by auto
  qed (use step in auto)
qed


lemma success_oob: "success (oobSend k c p x) (urgent c p x)"
proof (rule successI)
  fix h h' assume "oobSend k c p x h = Some (h', None)"
  then have "sendtoLoop k c (p @ [x]) h = Some (h', None)"
    by (auto simp: oobSend_def sendWithOOB_def res_iff WithStr_def split: option.splits)
  from sendtoLoop_sends [OF this] obtain a where "h' = h @ a @ [EvOOB c (p @ [x])]" "plain c [] a" by auto
  moreover from this have "urgent c p x (a @ [EvOOB c (p @ [x])])"
    unfolding urgent_def by (intro exI [of _ a] exI [of _ "[]"]) simp
  ultimately show "\<exists>es. h' = h @ es \<and> urgent c p x es" by blast
qed

lemma ackLoop_plain:
  "ackLoop k c delay start h = Some r \<Longrightarrow> snd r = None \<Longrightarrow> \<exists>a. fst r = h @ a \<and> plain c' [] a"
proof (induction rule: ackLoop.raw_induct [rotated, consumes 1, case_names step])
  case (step f k c delay start h r)
  let ?h2 = "h @ [EvTcpInfo c] @ [EvSleep (10 * millisecond)]"
  consider a where "r = (h @ [EvTcpInfo c] @ a, None)" "a = [] \<or> a = [EvSleep delay]"
    | "f k c delay start ?h2 = Some r"
    using step.hyps step.prems by (auto simp: Let_def split: sum.splits if_splits)
  then show ?case
  proof cases
    case 1
    then show ?thesis by (intro exI [of _ "EvTcpInfo c # a"]) (auto simp: plain_def)
  next
    case 2
    obtain a where "fst r = ?h2 @ a" "plain c' [] a" using step.IH [OF 2 step.prems] by blast
    then show ?thesis by (intro exI [of _ "EvTcpInfo c # EvSleep (10 * millisecond) # a"]) (simp add: plain_def)
  qed
qed

lemma success_ack: "success (ack k enabled c interval) (plain c' [])"
proof (rule successI)
  fix h h' assume a: "ack k enabled c interval h = Some (h', None)"
  show "\<exists>es. h' = h @ es \<and> plain c' [] es"
  proof (cases enabled)
    case False
    then show ?thesis using a by (auto simp: ack_def waitForAck_def plain_def)
  next
    case True
    then have "ackLoop k c interval (k_now k h) h = Some (h', None)"
      using a by (auto simp: ack_def waitForAck_def res_iff WithStr_def split: option.splits)
    from ackLoop_plain [OF this, of c'] show ?thesis by simp
  qed
qed

lemma success_packets:
  assumes "\<not> (i = 0 \<and> oob)"
  shows "success (sendEach (sendPacket k c oob what) (ack k enabled c interval) i ps) (plain c (concat ps))"
  using assms
proof (induction ps arbitrary: i)
  case Nil
  show ?case by (auto intro: success_ok)
next
  case (Cons p ps)
  have p: "success (sendPacket k c oob what i p) (plain c p)"
    using Cons.prems success_andThen_ok [OF success_write] unfolding sendPacket_def by auto
  have "success (sendEach (sendPacket k c oob what) (ack k enabled c interval) (i + 1) ps) (plain c (concat ps))"
    by (rule Cons.IH) simp
  then have rest: "success (andThen (ack k enabled c interval) id
      (sendEach (sendPacket k c oob what) (ack k enabled c interval) (i + 1) ps)) (plain c ([] @ concat ps))"
    by (rule success_andThen [OF success_ack]) (rule plain_append)
  show ?case unfolding sendEach.simps concat.simps
    by (rule success_andThen [OF p rest]) (use plain_append in simp)
qed

definition delivers :: "nat \<Rightarrow> bytes \<Rightarrow> hist \<Rightarrow> bool" where
  "delivers c bs es \<longleftrightarrow> inband c es = bs"

lemma success_packets_oob:
  assumes "ps \<noteq> []"
  shows "success (sendEach (sendPacket k c oob what) (ack k enabled c interval) 0 ps) (delivers c (concat ps))"
proof (cases oob)
  case False
  have "success (sendEach (sendPacket k c oob what) (ack k enabled c interval) 0 ps) (plain c (concat ps))"
    using False by (intro success_packets) simp
  then show ?thesis by (rule success_mono) (simp add: delivers_def inband_plain)
next
  case True
  obtain p qs where ps: "ps = p # qs" using assms by (cases ps) auto
  have p: "success (sendPacket k c oob what 0 p) (urgent c p 0)"
    using True unfolding sendPacket_def by (simp add: success_andThen_ok success_oob)
  have rest: "success (andThen (ack k enabled c interval) id
      (sendEach (sendPacket k c oob what) (ack k enabled c interval) (0 + 1) qs)) (plain c ([] @ concat qs))"
    by (rule success_andThen [OF success_ack success_packets]) (simp, rule plain_append)
  show ?thesis unfolding ps sendEach.simps concat.simps
    by (rule success_andThen [OF p rest]) (simp add: delivers_def inband_urgent_plain)
qed


section \<open>The pieces make up the whole\<close>

lemma concat_blocks:
  "m * base \<le> length data \<Longrightarrow>
    concat (map (\<lambda>i. take base (drop (i * base) data)) [0..<m]) = take (m * base) data"
proof (induction m)
  case (Suc m)
  have "take (Suc m * base) data = take (m * base) data @ take base (drop (m * base) data)"
    by (metis add.commute mult_Suc take_add)
  with Suc show ?case by simp
qed simp

lemma concat_parts:
  assumes "0 < n"
  shows "concat (parts n data) = data" "length (parts n data) = n"
proof -
  let ?base = "length data div n"
  have "(n - 1) * ?base \<le> n * ?base" by simp
  also have "\<dots> \<le> length data" by simp
  finally have le: "(n - 1) * ?base \<le> length data" .
  have n: "[0..<n] = [0..<n - 1] @ [n - 1]" using assms by (metis Suc_pred' upt_Suc_append zero_le)
  have eq: "map (\<lambda>i. if i = n - 1 then drop (i * ?base) data else take ?base (drop (i * ?base) data)) [0..<n - 1] =
      map (\<lambda>i. take ?base (drop (i * ?base) data)) [0..<n - 1]" by simp
  show "concat (parts n data) = data"
    unfolding parts_def Let_def n map_append concat_append eq concat_blocks [OF le] by simp
  show "length (parts n data) = n" by (simp add: parts_def Let_def)
qed

definition recOf :: "bytes option \<Rightarrow> bytes \<Rightarrow> bytes" where
  "recOf header = (case header of None \<Rightarrow> (\<lambda>p. p) | Some hdr \<Rightarrow> makeRecord hdr)"

lemma split_pieces:
  assumes "1 \<le> n"
  obtains ps where "splitAndAppend data header n res = res @ map (recOf header) ps" "concat ps = data" "ps \<noteq> []"
    "length ps \<le> nat n"
proof (cases "n = 1 \<or> int (length data) < n")
  case True
  then show ?thesis using assms by (intro that [of "[data]"]) (auto simp: splitAndAppend_def recOf_def)
next
  case False
  have n: "0 < nat n" using assms by simp
  have "parts (nat n) data \<noteq> []" using concat_parts(2) [OF n, of data] n by auto
  then show ?thesis using False assms concat_parts [OF n]
    by (intro that [of "parts (nat n) data"]) (auto simp: splitAndAppend_def recOf_def)
qed

lemma split_two:
  assumes "2 \<le> n" "l = n div 2"
  obtains ps where "splitAndAppend right header (n - l) (splitAndAppend left header l []) = map (recOf header) ps"
    "concat ps = left @ right" "2 \<le> length ps" "length ps \<le> nat n"
proof -
  have l: "1 \<le> l" "1 \<le> n - l" using assms by simp_all
  obtain ps where ps: "splitAndAppend left header l [] = [] @ map (recOf header) ps" "concat ps = left" "ps \<noteq> []"
    "length ps \<le> nat l" by (rule split_pieces [OF l(1)])
  obtain qs where qs: "splitAndAppend right header (n - l) (map (recOf header) ps) = map (recOf header) ps @ map (recOf header) qs"
    "concat qs = right" "qs \<noteq> []" "length qs \<le> nat (n - l)" by (rule split_pieces [OF l(2)])
  have "1 \<le> length ps" "1 \<le> length qs" using ps(3) qs(3) by (cases ps; cases qs; simp)+
  with ps qs l show ?thesis by (intro that [of "ps @ qs"]) (simp_all add: nat_diff_distrib)
qed

lemma cut_le: "findLastDotOrMidPos data s n \<le> length data"
proof -
  have "nat s + i \<le> length data" if "LastIndexByte (take (nat n) (drop (nat s) data)) x = Some i" for i x
    using LastIndexByte_Some(1) [OF that] by simp linarith
  then show ?thesis by (auto simp: findLastDotOrMidPos_def split: option.split)
qed

lemma cut_ge: "s < 0 \<or> 5 \<le> s \<Longrightarrow> 10 \<le> length data \<Longrightarrow> 5 \<le> findLastDotOrMidPos data s n"
  by (auto simp: findLastDotOrMidPos_def split: option.split)


section \<open>Delivery\<close>

lemma plain_delivers: "success m (plain c bs) \<Longrightarrow> success m (delivers c bs)"
  by (erule success_mono) (simp add: delivers_def inband_plain)

lemma oobexPrefix_delivers:
  assumes "35 \<le> length data" "success f (plain c (drop 35 data))"
  shows "success (oobexPrefix k c enabled interval data f) (delivers c data)"
proof -
  let ?a = "take 15 data" and ?x = "data ! 15" and ?d = "take 19 (drop 16 data)"
  have eq: "oobexPrefix k c enabled interval data f =
      andThen (oobSend k c ?a ?x) (OpError ''oob 1'')
       (andThen (oobSend k c ?d 0) (OpError ''oob 2'') (andThen (ack k enabled c interval) id f))"
    using assms(1) by (intro ext) (simp add: oobexPrefix_def)
  have "?a @ [?x] = take 16 data" using assms(1) by (simp add: take_Suc_conv_app_nth [symmetric])
  moreover have "?d @ drop 35 data = drop 16 data" using append_take_drop_id [of 19 "drop 16 data"] by simp
  ultimately have all: "?a @ [?x] @ ?d @ drop 35 data = data"
    using append_take_drop_id [of 16 data] by (metis append.assoc)
  have r: "success (andThen (ack k enabled c interval) id f) (plain c (drop 35 data))"
    by (rule success_andThen [OF success_ack assms(2)]) (use plain_append [of c "[]"] in simp)
  have r2: "success (andThen (oobSend k c ?d 0) (OpError ''oob 2'') (andThen (ack k enabled c interval) id f))
      (\<lambda>es. \<exists>v p. es = v @ p \<and> urgent c ?d 0 v \<and> plain c (drop 35 data) p)"
    by (rule success_andThen [OF success_oob r]) blast
  show ?thesis unfolding eq
  proof (rule success_andThen [OF success_oob r2])
    fix u es assume u: "urgent c ?a ?x u" and "\<exists>v p. es = v @ p \<and> urgent c ?d 0 v \<and> plain c (drop 35 data) p"
    then obtain v p where "es = v @ p" "urgent c ?d 0 v" "plain c (drop 35 data) p" by blast
    then show "delivers c data (u @ es)" using inband_urgent2_plain [OF u] all by (simp add: delivers_def)
  qed
qed

lemma single_delivers:
  shows "success (sendSingleRecord k c hello off len seg oob enabled interval) (delivers c hello)"
    and "\<not> oob \<Longrightarrow> success (sendSingleRecord k c hello off len seg oob enabled interval) (plain c hello)"
proof -
  define n where "n = (if seg < 1 then 1 else seg)"
  let ?m = "sendSingleRecord k c hello off len seg oob enabled interval"
  have "success ?m (delivers c hello) \<and> (\<not> oob \<longrightarrow> success ?m (plain c hello))"
  proof (cases "n = 1")
    case True
    have "?m = andThen (writeConn k c hello) (OpError ''send remaining data'') ok"
      by (intro ext) (simp only: sendSingleRecord_def n_def [symmetric] Let_def True, simp)
    then show ?thesis using success_andThen_ok [OF success_write] plain_delivers by metis
  next
    case False
    let ?cut = "findLastDotOrMidPos hello off len"
    have "2 \<le> n" using False by (auto simp: n_def)
    then obtain ps where ps: "splitAndAppend (drop ?cut hello) None (n - n div 2)
        (splitAndAppend (take ?cut hello) None (n div 2) []) = map (recOf None) ps"
      "concat ps = take ?cut hello @ drop ?cut hello" "2 \<le> length ps"
      by (rule split_two [OF _ refl]) blast
    have "map (recOf None) ps = ps" by (simp add: recOf_def)
    then have eq: "?m = sendEach (sendPacket k c oob ''write packet '') (ack k enabled c interval) 0 ps"
      using False ps(1) cut_le [of hello off len]
      by (intro ext) (simp only: sendSingleRecord_def n_def [symmetric] Let_def, simp)
    have "ps \<noteq> []" "concat ps = hello" using ps(2,3) by auto
    then show ?thesis unfolding eq
      using success_packets_oob [of ps] success_packets [of 0 oob] by auto
  qed
  then show "success ?m (delivers c hello)" "\<not> oob \<Longrightarrow> success ?m (plain c hello)" by auto
qed

lemma merged_delivers:
  assumes "1 \<le> seg"
  shows "success (sendMerged k c merged seg oob enabled interval) (delivers c merged)"
    and "\<not> oob \<Longrightarrow> success (sendMerged k c merged seg oob enabled interval) (plain c merged)"
proof -
  let ?m = "sendMerged k c merged seg oob enabled interval"
  have "success ?m (delivers c merged) \<and> (\<not> oob \<longrightarrow> success ?m (plain c merged))"
  proof (cases "seg = 1 \<or> int (length merged) \<le> seg")
    case True
    then have "?m = writeConn k c merged" by (intro ext) (simp add: sendMerged_def)
    then show ?thesis using success_write plain_delivers by metis
  next
    case False
    then have eq: "?m = sendEach (sendPacket k c oob ''write segment '') (ack k enabled c interval) 0 (parts (nat seg) merged)"
      by (intro ext) (simp add: sendMerged_def)
    have n: "0 < nat seg" using assms by simp
    have "parts (nat seg) merged \<noteq> []" using concat_parts(2) [OF n, of merged] n by auto
    then show ?thesis unfolding eq
      using success_packets_oob [of "parts (nat seg) merged"] success_packets [of 0 oob _ _ _ _ _ "parts (nat seg) merged"]
      by (auto simp: concat_parts [OF n])
  qed
  then show "success ?m (delivers c merged)" "\<not> oob \<Longrightarrow> success ?m (plain c merged)" by auto
qed


lemma urgent_prepend: "plain c [] w \<Longrightarrow> urgent c q x v \<Longrightarrow> urgent c q x (w @ v)"
  unfolding urgent_def using plain_append [of c "[]" w "[]"] by (metis append.assoc append_Nil)

lemma success_sendEach_cons:
  assumes "success (send i p) Q" "success (sendEach send (ack k enabled c interval) (i + 1) ps) S"
    "\<And>a w d. Q a \<Longrightarrow> plain c [] w \<Longrightarrow> S d \<Longrightarrow> R (a @ w @ d)"
  shows "success (sendEach send (ack k enabled c interval) i (p # ps)) R"
proof -
  have "success (andThen (ack k enabled c interval) id (sendEach send (ack k enabled c interval) (i + 1) ps))
      (\<lambda>es. \<exists>w d. es = w @ d \<and> plain c [] w \<and> S d)"
    by (rule success_andThen [OF success_ack assms(2)]) blast
  then show ?thesis unfolding sendEach.simps
    by (rule success_andThen [OF assms(1)]) (use assms(3) in blast)
qed

lemma success_sendEach_plain:
  assumes "success (send i p) Q" "success (sendEach send (ack k enabled c interval) (i + 1) ps) (plain c bs)"
    "\<And>a d. Q a \<Longrightarrow> plain c bs d \<Longrightarrow> R (a @ d)"
  shows "success (sendEach send (ack k enabled c interval) i (p # ps)) R"
  by (rule success_sendEach_cons [OF assms(1,2)]) (use assms(3) plain_append [of c "[]"] in auto)

lemma success_chunks_rest:
  assumes "2 \<le> i \<or> 1 \<le> i \<and> \<not> oobex"
  shows "success (sendEach (sendChunk k c oob oobex) (ack k enabled c interval) i ps) (plain c (concat ps))"
  using assms
proof (induction ps arbitrary: i)
  case Nil
  show ?case by (auto intro: success_ok)
next
  case (Cons p ps)
  have "success (sendChunk k c oob oobex i p) (plain c p)"
    using Cons.prems success_andThen_ok [OF success_write] unfolding sendChunk_def by auto
  moreover have "success (sendEach (sendChunk k c oob oobex) (ack k enabled c interval) (i + 1) ps) (plain c (concat ps))"
    using Cons.prems by (intro Cons.IH) auto
  ultimately show ?case by (rule success_sendEach_plain) (use plain_append in simp)
qed

lemma success_chunk_oobex:
  assumes "p \<noteq> []"
  shows "success (sendChunk k c False True 0 p) (urgent c (butlast p) (last p))"
proof -
  have "sendChunk k c False True 0 p = andThen (oobSend k c (butlast p) (last p)) (OpError ''oob 1'') ok"
    using assms by (intro ext) (auto simp: sendChunk_def butlast_conv_take last_conv_nth Suc_le_eq)
  then show ?thesis using success_andThen_ok [OF success_oob] by metis
qed

lemma chunks_delivers:
  assumes "\<not> (oob \<and> oobex)" "chunks = p # q # ps" "p \<noteq> []"
  shows "success (sendEach (sendChunk k c oob oobex) (ack k enabled c interval) 0 chunks)
    (delivers c (if oob \<or> oobex then concat chunks else concat (tl chunks)))"
proof -
  let ?e = "\<lambda>i xs. sendEach (sendChunk k c oob oobex) (ack k enabled c interval) i xs"
  consider "oob" "\<not> oobex" | "oobex" "\<not> oob" | "\<not> oob" "\<not> oobex" using assms(1) by blast
  then show ?thesis
  proof cases
    case 1
    have p: "success (sendChunk k c oob oobex 0 p) (urgent c p 0)"
      using 1 success_andThen_ok [OF success_oob] by (simp add: sendChunk_def)
    have "success (?e (0 + 1) (q # ps)) (plain c (concat (q # ps)))" using 1 by (intro success_chunks_rest) simp
    from success_sendEach_plain [OF p this] show ?thesis
      using 1 assms(2) by (simp add: delivers_def inband_urgent_plain)
  next
    case 2
    have p: "success (sendChunk k c oob oobex 0 p) (urgent c (butlast p) (last p))"
      using success_chunk_oobex [OF assms(3)] 2 by simp
    have q: "success (sendChunk k c oob oobex (0 + 1) q) (urgent c q 0)"
      using 2 success_andThen_ok [OF success_oob] by (simp add: sendChunk_def)
    have rest: "success (?e (0 + 1 + 1) ps) (plain c (concat ps))" by (intro success_chunks_rest) simp
    let ?Q = "\<lambda>es. \<exists>v d. es = v @ d \<and> urgent c q 0 v \<and> plain c (concat ps) d"
    have q2: "success (?e (0 + 1) (q # ps)) ?Q" by (rule success_sendEach_plain [OF q rest]) blast
    have "success (?e 0 (p # q # ps)) (delivers c (butlast p @ [last p] @ q @ concat ps))"
    proof (rule success_sendEach_cons [OF p q2])
      fix a w es assume a: "urgent c (butlast p) (last p) a" and w: "plain c [] w" and "?Q es"
      then obtain v d where "es = v @ d" "urgent c q 0 v" "plain c (concat ps) d" by blast
      then show "delivers c (butlast p @ [last p] @ q @ concat ps) (a @ w @ es)"
        using inband_urgent2_plain [OF a urgent_prepend [OF w]] by (simp add: delivers_def)
    qed
    moreover have "butlast p @ [last p] @ q @ concat ps = concat chunks"
      using append_butlast_last_id [OF assms(3)] assms(2) by (metis append.assoc concat.simps(2))
    ultimately show ?thesis using 2 assms(2) by (simp only: simp_thms if_True)
  next
    case 3
    have p: "success (sendChunk k c oob oobex 0 p) (plain c [])"
      using 3 by (auto simp: sendChunk_def intro: success_ok)
    have "success (?e (0 + 1) (q # ps)) (plain c (concat (q # ps)))" using 3 by (intro success_chunks_rest) simp
    from success_sendEach_plain [OF p this, of "plain c (concat (q # ps))"] show ?thesis
      using 3 assms(2) plain_append [of c "[]"] by (simp add: plain_delivers)
  qed
qed


text \<open>The bytes that the records of a fragmented hello carry.\<close>

definition patched :: "bytes \<Rightarrow> Byte \<Rightarrow> bytes" where
  "patched hello minor = (if \<not> IsUnset minor then hello[2 := byteVal minor] else hello)"

lemma patched_length [simp]: "length (patched hello minor) = length hello"
  by (simp add: patched_def)

lemma makeRecord_ne: "makeRecord hdr p \<noteq> []"
  by (simp add: makeRecord_def PutUint16_def)

lemma records_length: "length (concat (map (makeRecord hdr) ps)) = 5 * length ps + length (concat ps)"
  by (induction ps) (simp_all add: makeRecord_def)

lemma sendRecords_single:
  assumes "records \<le> 1" "5 \<le> length hello" "\<not> (oobex \<and> length hello < 35)" "\<not> (oob \<and> oobex)"
  shows "success (sendRecords k c hello off len records segments minor oob oobex enabled interval)
    (delivers c (patched hello minor))"
proof -
  define n where "n = (if segments = 0 then 1 else if segments < 0 then -1 else segments)"
  let ?h = "patched hello minor" and ?m = "sendRecords k c hello off len records segments minor oob oobex enabled interval"
  have eq: "?m = (if oobex then oobexPrefix k c enabled interval ?h
        (sendSingleRecord k c (drop 35 ?h) (off - 35) len n oob enabled interval)
      else sendSingleRecord k c ?h off len n oob enabled interval)"
    using assms(1-3) by (intro ext) (simp add: sendRecords_def n_def patched_def)
  show ?thesis
  proof (cases oobex)
    case True
    then show ?thesis unfolding eq using assms by (auto intro!: oobexPrefix_delivers single_delivers(2))
  next
    case False
    then show ?thesis unfolding eq using single_delivers(1) by simp
  qed
qed

lemma sendRecords_many:
  assumes "2 \<le> records" "10 \<le> length hello" "\<not> (oobex \<and> length hello < 35)" "\<not> (oob \<and> oobex)"
    "off < 0 \<or> 5 \<le> off"
  obtains ps where "concat ps = drop 5 (patched hello minor)" "2 \<le> length ps" "length ps \<le> nat records"
    "\<And>k c enabled interval.
      success (sendRecords k c hello off len records segments minor oob oobex enabled interval)
      (delivers c (concat (map (makeRecord (take 3 (patched hello minor)))
        (if segments < 0 \<and> \<not> oob \<and> \<not> oobex then tl ps else ps))))"
proof -
  define n where "n = (if segments = 0 then 1 else if segments < 0 then -1 else segments)"
  let ?h = "patched hello minor" let ?cut = "findLastDotOrMidPos ?h off len" and ?hdr = "take 3 ?h"
  have cut: "5 \<le> ?cut" "?cut \<le> length hello" using cut_ge [of off ?h len] cut_le [of ?h off len] assms by simp_all
  obtain ps where ps: "splitAndAppend (drop ?cut ?h) (Some ?hdr) (records - records div 2)
        (splitAndAppend (take (?cut - 5) (drop 5 ?h)) (Some ?hdr) (records div 2) []) = map (recOf (Some ?hdr)) ps"
      "concat ps = take (?cut - 5) (drop 5 ?h) @ drop ?cut ?h" "2 \<le> length ps" "length ps \<le> nat records"
    by (rule split_two [OF assms(1) refl]) blast
  let ?chunks = "map (recOf (Some ?hdr)) ps"
  have payload: "concat ps = drop 5 ?h"
    using ps(2) append_take_drop_id [of "?cut - 5" "drop 5 ?h"] cut by simp
  have eq: "sendRecords k c hello off len records segments minor oob oobex enabled interval =
     (if n = -1 then sendEach (sendChunk k c oob oobex) (ack k enabled c interval) 0 ?chunks
      else if oobex then oobexPrefix k c enabled interval (concat ?chunks)
        (sendMerged k c (drop 35 (concat ?chunks)) n oob enabled interval)
      else sendMerged k c (concat ?chunks) n oob enabled interval)" for k c enabled interval
  proof (rule ext)
    fix h show "sendRecords k c hello off len records segments minor oob oobex enabled interval h =
     (if n = -1 then sendEach (sendChunk k c oob oobex) (ack k enabled c interval) 0 ?chunks
      else if oobex then oobexPrefix k c enabled interval (concat ?chunks)
        (sendMerged k c (drop 35 (concat ?chunks)) n oob enabled interval)
      else sendMerged k c (concat ?chunks) n oob enabled interval) h"
      using assms(1-3) cut ps(1)
      unfolding sendRecords_def Let_def n_def [symmetric] patched_def [symmetric] by simp
  qed
  show ?thesis
  proof (rule that [OF payload ps(3,4)])
    fix k :: kernel and c enabled interval
    obtain p q rs where p: "ps = p # q # rs" using ps(3) by (metis Suc_le_length_iff numeral_2_eq_2)
    have seg: "n = -1 \<longleftrightarrow> segments < 0" "n \<noteq> -1 \<Longrightarrow> 1 \<le> n" by (auto simp: n_def)
    have rec: "recOf (Some ?hdr) = makeRecord ?hdr" by (simp add: recOf_def fun_eq_iff)
    have big: "35 \<le> length (concat ?chunks)" if oobex
      using that records_length [of ?hdr ps] payload ps(3) assms(3) unfolding rec by simp
    show "success (sendRecords k c hello off len records segments minor oob oobex enabled interval)
      (delivers c (concat (map (makeRecord ?hdr) (if segments < 0 \<and> \<not> oob \<and> \<not> oobex then tl ps else ps))))"
    proof (cases "n = -1")
      case True
      then show ?thesis
        using chunks_delivers [OF assms(4) _ makeRecord_ne [of ?hdr p],
            of "map (makeRecord ?hdr) ps" "makeRecord ?hdr q" "map (makeRecord ?hdr) rs" k c enabled interval]
          p seg unfolding eq rec by (auto simp: map_tl split: if_splits)
    next
      case False
      then show ?thesis
        using seg big assms(4) unfolding eq rec
        by (auto intro!: oobexPrefix_delivers merged_delivers)
    qed
  qed
qed


text \<open>How a TLS peer splits a stream into records.\<close>

function decodeRecords :: "bytes \<Rightarrow> (bytes \<times> bytes) list option" where
  "decodeRecords bs =
     (if bs = [] then Some []
      else if length bs < 5 then None
      else let n = unat (bs ! 3) * 256 + unat (bs ! 4) in
        if length bs < 5 + n then None
        else map_option ((#) (take 3 bs, take n (drop 5 bs))) (decodeRecords (drop (5 + n) bs)))"
  by pat_completeness auto
termination
  by (relation "measure length") auto

declare decodeRecords.simps [simp del]

lemma decode_records:
  assumes "length hdr = 3" "\<forall>p \<in> set ps. length p < 65536"
  shows "decodeRecords (concat (map (makeRecord hdr) ps)) = Some (map (Pair hdr) ps)"
  using assms(2)
proof (induction ps)
  case Nil
  then show ?case by (simp add: decodeRecords.simps)
next
  case (Cons p ps)
  have rec: "makeRecord hdr p = hdr @ [word_of_nat (length p div 256), word_of_nat (length p)] @ p"
    using assms(1) Cons.prems by (simp add: makeRecord_def PutUint16_def)
  have len: "unat (word_of_nat (length p div 256) :: byte) * 256 + unat (word_of_nat (length p) :: byte) = length p"
    using Uint16_PutUint16 [of "length p" "[]"] Cons.prems by (simp add: Uint16_def PutUint16_def)
  have IH: "decodeRecords (concat (map (makeRecord hdr) ps)) = Some (map (Pair hdr) ps)" using Cons by simp
  show ?case
    by (subst decodeRecords.simps) (simp add: rec nth_append assms(1) len IH)
qed

section \<open>The sends return\<close>

definition returns :: "effect \<Rightarrow> bool" where
  "returns m \<longleftrightarrow> (\<forall>h. \<exists>r. m h = Some r)"

lemma returns_andThen: "returns m \<Longrightarrow> returns f \<Longrightarrow> returns (andThen m w f)"
  unfolding returns_def andThen_def
proof
  fix h assume m: "\<forall>h. \<exists>r. m h = Some r" and f: "\<forall>h. \<exists>r. f h = Some r"
  obtain h' e where "m h = Some (h', e)" using m by (metis surj_pair)
  with f show "\<exists>r. (do { (h', e) \<leftarrow> m h; case e of None \<Rightarrow> f h' | Some x \<Rightarrow> Some (h', Some (w x)) }) = Some r"
    by (auto split: option.split)
qed

lemma returns_basic: "returns ok" "returns (writeConn k c p)"
  by (auto simp: returns_def ok_def writeConn_def)

lemma returns_oob:
  assumes "interrupts_end k"
  shows "returns (oobSend k c p x)"
  unfolding returns_def
proof
  fix h obtain n where "k_sendto k (h @ replicate n (EvIntr c)) c (p @ [x]) \<noteq> EINTR"
    using assms unfolding interrupts_end_def by blast
  from sendtoLoop_returns [OF this] show "\<exists>r. oobSend k c p x h = Some r"
    by (auto simp: oobSend_def sendWithOOB_def split: option.split)
qed

lemma returns_ack: "clock_runs k \<Longrightarrow> returns (ack k enabled c interval)"
  unfolding returns_def
proof
  fix h assume "clock_runs k"
  from ackLoop_returns [OF this, of c interval "k_now k h" h] show "\<exists>r. ack k enabled c interval h = Some r"
    by (auto simp: ack_def waitForAck_def split: option.split)
qed

lemma returns_sendEach:
  assumes "\<And>i p. p \<in> set ps \<Longrightarrow> returns (send i p)" "returns w"
  shows "returns (sendEach send w i ps)"
  using assms by (induction ps arbitrary: i) (auto intro!: returns_andThen returns_basic)

lemma returns_oobexPrefix:
  assumes "interrupts_end k" "clock_runs k" "35 \<le> length data" "returns f"
  shows "returns (oobexPrefix k c enabled interval data f)"
  using assms returns_andThen [OF returns_oob returns_andThen [OF returns_oob returns_andThen [OF returns_ack assms(4)]]]
  by (simp add: returns_def oobexPrefix_def)

lemma returns_packet: "interrupts_end k \<Longrightarrow> returns (sendPacket k c oob what i p)"
  by (simp add: sendPacket_def returns_andThen returns_basic returns_oob)

lemma returns_chunk:
  assumes "interrupts_end k" "p \<noteq> []"
  shows "returns (sendChunk k c oob oobex i p)"
  using assms returns_andThen [OF returns_oob returns_basic(1)]
  by (auto simp: sendChunk_def Suc_le_eq returns_andThen returns_basic returns_oob)

lemma returns_single:
  assumes "interrupts_end k" "clock_runs k"
  shows "returns (sendSingleRecord k c hello off len seg oob enabled interval)"
  using cut_le [of hello off len] returns_andThen [OF returns_basic(2) returns_basic(1)]
    returns_sendEach [OF returns_packet [OF assms(1)] returns_ack [OF assms(2)]]
  by (auto simp: returns_def sendSingleRecord_def Let_def)

lemma returns_merged:
  assumes "interrupts_end k" "clock_runs k"
  shows "returns (sendMerged k c merged seg oob enabled interval)"
  using returns_basic(2) returns_sendEach [OF returns_packet [OF assms(1)] returns_ack [OF assms(2)]]
  by (simp add: returns_def sendMerged_def)


lemma returns_sendRecords:
  assumes k: "interrupts_end k" "clock_runs k" and len: "10 \<le> length hello" and off: "off < 0 \<or> 5 \<le> off"
  shows "returns (sendRecords k c hello off n records segments minor oob oobex enabled interval)"
proof -
  define s where "s = (if segments = 0 then 1 else if segments < 0 then -1 else segments)"
  define r where "r = (if records < 1 then 1 else records)"
  let ?h = "patched hello minor" let ?cut = "findLastDotOrMidPos ?h off n" and ?hdr = "take 3 ?h"
  have cut: "5 \<le> ?cut" "?cut \<le> length hello" using cut_ge [of off ?h n] cut_le [of ?h off n] len off by simp_all
  have pre: "returns (oobexPrefix k c enabled interval d f)" if "35 \<le> length d" "returns f" for d f
    using returns_oobexPrefix [OF k that] .
  let ?chunks = "splitAndAppend (drop ?cut ?h) (Some ?hdr) (r - r div 2)
        (splitAndAppend (take (?cut - 5) (drop 5 ?h)) (Some ?hdr) (r div 2) [])"
  have chunks: "(\<forall>p \<in> set ?chunks. p \<noteq> []) \<and> (35 \<le> length hello \<longrightarrow> 35 \<le> length (concat ?chunks))" if "r \<noteq> 1"
  proof -
    have "2 \<le> r" using that by (auto simp: r_def)
    then obtain ps where ps: "?chunks = map (recOf (Some ?hdr)) ps"
      "concat ps = take (?cut - 5) (drop 5 ?h) @ drop ?cut ?h" "2 \<le> length ps" by (rule split_two [OF _ refl]) blast
    have "recOf (Some ?hdr) = makeRecord ?hdr" by (simp add: recOf_def fun_eq_iff)
    moreover have "concat ps = drop 5 ?h"
      using ps(2) append_take_drop_id [of "?cut - 5" "drop 5 ?h"] cut by simp
    ultimately show ?thesis using ps(1,3) records_length [of ?hdr ps] makeRecord_ne by auto
  qed
  have each: "returns (sendEach (sendChunk k c oob oobex) (ack k enabled c interval) 0 ?chunks)" if "r \<noteq> 1"
    using chunks [OF that] by (intro returns_sendEach returns_chunk returns_ack k) blast
  show ?thesis
    using returns_basic(2) [of k c hello] returns_single [OF k] returns_merged [OF k] pre each chunks len cut
    unfolding returns_def sendRecords_def Let_def s_def [symmetric] r_def [symmetric] patched_def [symmetric]
    by auto
qed


section \<open>Properties\<close>

text \<open>A system in which every call succeeds, for concrete runs.\<close>

definition quiet :: kernel where
  "quiet = \<lparr>k_isSyscallConn = \<lambda>_. True, k_syscallConn = \<lambda>_ _. None, k_write = \<lambda>_ _ _. None,
     k_rawWrite = \<lambda>_ _. None, k_sendto = \<lambda>_ _ _. SendOk, k_rawControl = \<lambda>_ _. None,
     k_tcpInfo = \<lambda>_ _. Inr 0, k_now = \<lambda>h. sum_list (map (\<lambda>e. case e of EvSleep d \<Rightarrow> max 0 d | _ \<Rightarrow> 0) h)\<rparr>"

lemma quiet_ok: "interrupts_end quiet" "clock_runs quiet"
  by (auto simp: quiet_def interrupts_end_def clock_runs_def split: event.split)

lemmas frag_run = sendRecords_def findLastDotOrMidPos_def LastIndexByte_def splitAndAppend_def makeRecord_def
  PutUint16_def sendSingleRecord_def sendMerged_def parts_def sendPacket_def sendChunk_def andThen_def oobSend_def
  sendWithOOB_def getRawConn_def WithStr_def sendtoLoop.simps writeConn_def connWrite_def ack_def waitForAck_def
  quiet_def ok_def IsUnset_def upt_rec









end
