(* ===== verification/Go_Strings.thy ===== *)
theory Go_Strings
  imports Prelude
begin

text \<open>
  The parts of the Go packages \<^verbatim>\<open>strings\<close> and \<^verbatim>\<open>strconv\<close> that the program uses, on byte strings
  (a character is a byte). Case mapping follows \<^verbatim>\<open>strings.ToLower\<close> on ASCII strings, which all
  host names on the wire are; other bytes are kept.
\<close>

definition code :: "char \<Rightarrow> nat" where
  "code c = of_char c"

definition isDigit :: "char \<Rightarrow> bool" where
  "isDigit c \<longleftrightarrow> 48 \<le> code c \<and> code c \<le> 57"

definition digitVal :: "char \<Rightarrow> nat" where
  "digitVal c = code c - 48"

definition HasPrefix :: "string \<Rightarrow> string \<Rightarrow> bool" where
  "HasPrefix s p \<longleftrightarrow> take (length p) s = p"

definition HasSuffix :: "string \<Rightarrow> string \<Rightarrow> bool" where
  "HasSuffix s p \<longleftrightarrow> length p \<le> length s \<and> drop (length s - length p) s = p"

definition TrimPrefix :: "string \<Rightarrow> string \<Rightarrow> string" where
  "TrimPrefix s p = (if HasPrefix s p then drop (length p) s else s)"

definition TrimSuffix :: "string \<Rightarrow> string \<Rightarrow> string" where
  "TrimSuffix s p = (if HasSuffix s p then take (length s - length p) s else s)"

fun ContainsStr :: "string \<Rightarrow> string \<Rightarrow> bool" where
  "ContainsStr [] p \<longleftrightarrow> p = []"
| "ContainsStr (c # s) p \<longleftrightarrow> HasPrefix (c # s) p \<or> ContainsStr s p"

text \<open>\<^verbatim>\<open>strings.IndexByte\<close>; \<^const>\<open>None\<close> is \<open>-1\<close>.\<close>

fun IndexByte :: "string \<Rightarrow> char \<Rightarrow> nat option" where
  "IndexByte [] c = None"
| "IndexByte (x # s) c = (if x = c then Some 0 else map_option Suc (IndexByte s c))"

definition TrimLeftSet :: "string \<Rightarrow> string \<Rightarrow> string" where
  "TrimLeftSet s cutset = dropWhile (\<lambda>c. c \<in> set cutset) s"

definition TrimSet :: "string \<Rightarrow> string \<Rightarrow> string" where
  "TrimSet s cutset = rev (TrimLeftSet (rev (TrimLeftSet s cutset)) cutset)"

text \<open>The byte encodings of the characters that \<^verbatim>\<open>unicode.IsSpace\<close> accepts.\<close>

definition spaces :: "nat list list" where
  "spaces = [[9], [10], [11], [12], [13], [32], [0xC2, 0x85], [0xC2, 0xA0], [0xE1, 0x9A, 0x80]] @
     map (\<lambda>b. [0xE2, 0x80, b]) ([0x80..<0x8B] @ [0xA8, 0xA9, 0xAF]) @
     [[0xE2, 0x81, 0x9F], [0xE3, 0x80, 0x80]]"

definition spacePrefix :: "nat list list \<Rightarrow> string \<Rightarrow> nat option" where
  "spacePrefix sps s = map_option length (List.find (\<lambda>p. take (length p) (map code s) = p) sps)"

function trimStart :: "nat list list \<Rightarrow> string \<Rightarrow> string" where
  "trimStart sps s = (case spacePrefix sps s of
       None \<Rightarrow> s
     | Some n \<Rightarrow> if 0 < n \<and> n \<le> length s then trimStart sps (drop n s) else s)"
  by pat_completeness auto
termination
  by (relation "measure (\<lambda>(_, s). length s)") auto

declare trimStart.simps [simp del]

definition TrimSpace :: "string \<Rightarrow> string" where
  "TrimSpace s = rev (trimStart (map rev spaces) (rev (trimStart spaces s)))"

definition lowerChar :: "char \<Rightarrow> char" where
  "lowerChar c = (if 65 \<le> code c \<and> code c \<le> 90 then char_of (code c + 32) else c)"

definition ToLower :: "string \<Rightarrow> string" where
  "ToLower s = map lowerChar s"

text \<open>\<^verbatim>\<open>strings.Split\<close> for a separator of one byte.\<close>

fun SplitByte :: "string \<Rightarrow> char \<Rightarrow> string list" where
  "SplitByte [] c = [[]]"
| "SplitByte (x # s) c =
     (if x = c then [] # SplitByte s c
      else case SplitByte s c of [] \<Rightarrow> [[x]] | y # ys \<Rightarrow> (x # y) # ys)"

definition JoinStr :: "string list \<Rightarrow> string \<Rightarrow> string" where
  "JoinStr xs sep = (case xs of [] \<Rightarrow> [] | y # ys \<Rightarrow> y @ concat (map (\<lambda>s. sep @ s) ys))"

text \<open>Digit strings: the value, without a bound, of a non-empty string of decimal digits.\<close>

definition decimal :: "string \<Rightarrow> nat option" where
  "decimal s = (if s \<noteq> [] \<and> list_all isDigit s then Some (foldl (\<lambda>a c. a * 10 + digitVal c) 0 s) else None)"

text \<open>\<^verbatim>\<open>strconv.ParseUint(s, 10, bits)\<close> and \<^verbatim>\<open>strconv.Atoi\<close>.\<close>

definition ParseUint :: "string \<Rightarrow> nat \<Rightarrow> nat option" where
  "ParseUint s bits = (case decimal s of None \<Rightarrow> None | Some n \<Rightarrow> if n < 2 ^ bits then Some n else None)"

definition Atoi :: "string \<Rightarrow> int option" where
  "Atoi s =
     (let neg = HasPrefix s ''-''; body = (if neg \<or> HasPrefix s ''+'' then drop 1 s else s) in
      case decimal body of
        None \<Rightarrow> None
      | Some n \<Rightarrow> if neg then (if n \<le> 2 ^ 63 then Some (- int n) else None)
                  else (if n < 2 ^ 63 then Some (int n) else None))"

section \<open>Lemmas\<close>

lemma code_less: "code c < 256"
  by (simp add: code_def)

lemma code_inj: "code c = code d \<longleftrightarrow> c = d"
  by (simp add: code_def)

lemma ToLower_idem [simp]: "ToLower (ToLower s) = ToLower s"
proof -
  have "lowerChar (lowerChar c) = lowerChar c" for c
    using code_less [of c] by (auto simp: lowerChar_def code_def)
  then show ?thesis by (simp add: ToLower_def)
qed

lemma ToLower_Nil_iff [simp]: "ToLower s = [] \<longleftrightarrow> s = []"
  by (simp add: ToLower_def)

lemma SplitByte_ne [simp]: "SplitByte s c \<noteq> []"
  by (cases s) (auto split: list.split)

lemma SplitByte_join: "JoinStr (SplitByte s c) [c] = s"
proof (induction s)
  case (Cons x s)
  obtain y ys where "SplitByte s c = y # ys" by (cases "SplitByte s c") auto
  with Cons show ?case by (auto simp: JoinStr_def)
qed (simp add: JoinStr_def)

lemma SplitByte_no_sep: "p \<in> set (SplitByte s c) \<Longrightarrow> c \<notin> set p"
  by (induction s arbitrary: p) (auto split: if_splits list.splits)

lemma isDigit_digit: "n < 10 \<Longrightarrow> isDigit (char_of (48 + n)) \<and> digitVal (char_of (48 + n)) = n"
  by (simp add: isDigit_def digitVal_def code_def)

lemma decimal_digitsOf: "decimal (digitsOf n) = Some n"
proof -
  have "digitsOf n \<noteq> [] \<and> list_all isDigit (digitsOf n) \<and> foldl (\<lambda>a c. a * 10 + digitVal c) 0 (digitsOf n) = n"
  proof (induction n rule: digitsOf.induct)
    case (1 n)
    show ?case
      using 1 isDigit_digit [of n] isDigit_digit [of "n mod 10"] by (subst (1 2 3) digitsOf.simps) auto
  qed
  then show ?thesis by (simp add: decimal_def)
qed

lemma digitsOf_digits: "list_all isDigit (digitsOf n)"
  using decimal_digitsOf [of n] by (auto simp: decimal_def split: if_splits)

lemma Atoi_Itoa: "0 \<le> i \<Longrightarrow> i < 2 ^ 63 \<Longrightarrow> Atoi (Itoa i) = Some i"
proof -
  assume i: "0 \<le> i" "i < 2 ^ 63"
  obtain c s where d: "digitsOf (nat i) = c # s" "isDigit c"
    using digitsOf_digits [of "nat i"] decimal_digitsOf [of "nat i"]
    by (cases "digitsOf (nat i)") (auto simp: decimal_def)
  have "c \<noteq> CHR ''-''" "c \<noteq> CHR ''+''" using d(2) by (auto simp: isDigit_def code_def)
  then show ?thesis using i d decimal_digitsOf [of "nat i"] by (auto simp: Atoi_def Itoa_def HasPrefix_def)
qed

end
