(* ===== verification/Go_Time.thy ===== *)
theory Go_Time
  imports Go_Strings
begin

text \<open>
  \<^verbatim>\<open>time.ParseDuration\<close> and \<^verbatim>\<open>time.Duration.String\<close>. A duration counts nanoseconds. The
  fraction of a number is scaled with float64 arithmetic in the library; here a positive
  float64 is its significand and exponent, and every operation rounds to 53 bits, half to
  even.
\<close>

section \<open>Positive float64 values\<close>

type_synonym float64 = "nat \<times> int"

definition pow2 :: "int \<Rightarrow> nat" where
  "pow2 e = 2 ^ nat e"

fun bitLen :: "nat \<Rightarrow> nat" where
  "bitLen n = (if n = 0 then 0 else Suc (bitLen (n div 2)))"

declare bitLen.simps [simp del]

definition roundDiv :: "nat \<Rightarrow> nat \<Rightarrow> nat" where
  "roundDiv n d = (let q = n div d; r = n mod d in
     if 2 * r < d \<or> (2 * r = d \<and> even q) then q else q + 1)"

text \<open>The float64 nearest to \<open>n / d * 2 ^ e\<close> for positive \<open>n\<close> and \<open>d\<close>.\<close>

definition mkFloat :: "nat \<Rightarrow> nat \<Rightarrow> int \<Rightarrow> float64" where
  "mkFloat n d e =
     (let k = int (bitLen n) - int (bitLen d) - 53;
          sig = (\<lambda>k. (n * pow2 (- k), d * pow2 k));
          k' = (if fst (sig k) div snd (sig k) < 2 ^ 53 then k else k + 1)
      in (roundDiv (fst (sig k')) (snd (sig k')), k' + e))"

definition floatMult :: "float64 \<Rightarrow> float64 \<Rightarrow> float64" where
  "floatMult x y = mkFloat (fst x * fst y) 1 (snd x + snd y)"

text \<open>Conversion to an unsigned integer truncates.\<close>

definition floatTrunc :: "float64 \<Rightarrow> nat" where
  "floatTrunc x = fst x * pow2 (snd x) div pow2 (- snd x)"

text \<open>\<^verbatim>\<open>uint64(float64(f) * (float64(unit) / scale))\<close> with \<open>scale = 10 ^ k\<close>, for \<open>k\<close> up to 22 a
  power of ten that float64 represents.\<close>

definition fraction :: "nat \<Rightarrow> nat \<Rightarrow> nat \<Rightarrow> nat" where
  "fraction f unit k = floatTrunc (floatMult (mkFloat f 1 0) (mkFloat unit (10 ^ k) 0))"

section \<open>ParseDuration\<close>

definition timeQuote :: "string \<Rightarrow> string" where
  "timeQuote s = [CHR 0x22] @ concat (map (\<lambda>c.
     if code c \<ge> 128 \<or> code c < 32
     then [CHR 0x5C, CHR ''x'', ''0123456789abcdef'' ! (code c div 16), ''0123456789abcdef'' ! (code c mod 16)]
     else if c = CHR 0x22 \<or> c = CHR 0x5C then [CHR 0x5C, c] else [c]) s) @ [CHR 0x22]"

definition invalidDuration :: "string \<Rightarrow> err" where
  "invalidDuration orig = ErrNew (''time: invalid duration '' @ timeQuote orig)"

definition unitMap :: "string \<Rightarrow> nat option" where
  "unitMap = map_of [(''ns'', 1), (''us'', 1000), ([CHR 0xC2, CHR 0xB5, CHR ''s''], 1000),
     ([CHR 0xCE, CHR 0xBC, CHR ''s''], 1000), (''ms'', 1000000), (''s'', 1000000000),
     (''m'', 60000000000), (''h'', 3600000000000)]"

text \<open>\<^verbatim>\<open>leadingInt\<close> returns the value and the rest, or fails on overflow.\<close>

fun leadingInt :: "nat \<Rightarrow> string \<Rightarrow> (nat \<times> string) option" where
  "leadingInt x [] = Some (x, [])"
| "leadingInt x (c # s) =
     (if \<not> isDigit c then Some (x, c # s)
      else if x > 2 ^ 63 div 10 then None
      else let x' = x * 10 + digitVal c in if x' > 2 ^ 63 then None else leadingInt x' s)"

text \<open>\<^verbatim>\<open>leadingFraction\<close>: value, number of digits used, rest; the digits after an overflow are skipped.\<close>

fun leadingFraction :: "bool \<Rightarrow> nat \<Rightarrow> nat \<Rightarrow> string \<Rightarrow> nat \<times> nat \<times> string" where
  "leadingFraction overflow x k [] = (x, k, [])"
| "leadingFraction overflow x k (c # s) =
     (if \<not> isDigit c then (x, k, c # s)
      else if overflow then leadingFraction True x k s
      else if x > (2 ^ 63 - 1) div 10 then leadingFraction True x k s
      else let y = x * 10 + digitVal c in
           if y > 2 ^ 63 then leadingFraction True x k s else leadingFraction False y (k + 1) s)"

lemma leadingInt_length: "leadingInt x s = Some (v, s') \<Longrightarrow> length s' \<le> length s"
  by (induction x s rule: leadingInt.induct) (auto simp: Let_def split: if_splits)

lemma leadingFraction_length: "leadingFraction ov x k s = (f, k', s') \<Longrightarrow> length s' \<le> length s"
  by (induction ov x k s rule: leadingFraction.induct) (auto simp: Let_def split: if_splits)

text \<open>The number of a part: integral value, fraction digits and their count, the rest, and whether
  there was a digit before and after the point.\<close>

definition durationNumber :: "string \<Rightarrow> (nat \<times> nat \<times> nat \<times> string \<times> bool) option" where
  "durationNumber s = (case leadingInt 0 s of
       None \<Rightarrow> None
     | Some (v, s1) \<Rightarrow>
         if s1 \<noteq> [] \<and> hd s1 = CHR ''.''
         then case leadingFraction False 0 0 (tl s1) of
                (f, k, s2) \<Rightarrow> Some (v, f, k, s2, length s \<noteq> length s1 \<or> length (tl s1) \<noteq> length s2)
         else Some (v, 0, 0, s1, length s \<noteq> length s1))"

text \<open>One number and its unit: the value in nanoseconds and the rest.\<close>

definition durationPart :: "string \<Rightarrow> string \<Rightarrow> (nat \<times> string) res" where
  "durationPart orig s =
     (if \<not> (hd s = CHR ''.'' \<or> isDigit (hd s)) then Inl (invalidDuration orig)
      else case durationNumber s of
        None \<Rightarrow> Inl (invalidDuration orig)
      | Some (v, f, k, s2, digits) \<Rightarrow>
          let u = takeWhile (\<lambda>c. \<not> (c = CHR ''.'' \<or> isDigit c)) s2 in
          if \<not> digits then Inl (invalidDuration orig)
          else if u = [] then Inl (ErrNew (''time: missing unit in duration '' @ timeQuote orig))
          else case unitMap u of
            None \<Rightarrow> Inl (ErrNew (''time: unknown unit '' @ timeQuote u @ '' in duration '' @ timeQuote orig))
          | Some unit \<Rightarrow>
              if v > 2 ^ 63 div unit then Inl (invalidDuration orig)
              else let w = v * unit + (if f > 0 then fraction f unit k else 0) in
                   if f > 0 \<and> w > 2 ^ 63 then Inl (invalidDuration orig)
                   else Inr (w, drop (length u) s2))"

lemma durationNumber_length: "durationNumber s = Some (v, f, k, s2, d) \<Longrightarrow> length s2 \<le> length s"
proof -
  assume a: "durationNumber s = Some (v, f, k, s2, d)"
  then obtain v1 s1 where 1: "leadingInt 0 s = Some (v1, s1)" by (auto simp: durationNumber_def split: option.splits)
  obtain f1 k1 s3 where 2: "leadingFraction False 0 0 (tl s1) = (f1, k1, s3)" by (metis prod_cases3)
  have "length s1 \<le> length s" "length s3 \<le> length s1"
    using leadingInt_length [OF 1] leadingFraction_length [OF 2] by auto
  with a 1 2 show ?thesis by (auto simp: durationNumber_def split: if_splits)
qed

lemma durationPart_length:
  assumes "durationPart orig s = Inr (w, s')"
  shows "length s' < length s"
proof -
  obtain v f k s2 d where n: "durationNumber s = Some (v, f, k, s2, d)"
    using assms by (auto simp: durationPart_def split: if_splits option.splits)
  let ?u = "takeWhile (\<lambda>c. \<not> (c = CHR ''.'' \<or> isDigit c)) s2"
  have "?u \<noteq> []" "s' = drop (length ?u) s2"
    using assms n by (auto simp: durationPart_def Let_def split: if_splits option.splits)
  moreover from this have "s2 \<noteq> []" "length ?u \<noteq> 0" by auto
  ultimately show ?thesis using durationNumber_length [OF n]
    by (metis diff_less length_drop length_greater_0_conv less_le_trans)
qed

function durationLoop :: "string \<Rightarrow> nat \<Rightarrow> string \<Rightarrow> nat res" where
  "durationLoop orig d s =
     (if s = [] then Inr d
      else case durationPart orig s of
        Inl e \<Rightarrow> Inl e
      | Inr (v, s') \<Rightarrow> if d + v > 2 ^ 63 then Inl (invalidDuration orig) else durationLoop orig (d + v) s')"
  by pat_completeness auto
termination
  by (relation "measure (\<lambda>(_, _, s). length s)") (auto dest: durationPart_length)

declare durationLoop.simps [simp del]

definition ParseDuration :: "string \<Rightarrow> duration res" where
  "ParseDuration orig =
     (let neg = HasPrefix orig ''-'';
          s = (if neg \<or> HasPrefix orig ''+'' then drop 1 orig else orig)
      in if s = ''0'' then Inr 0
         else if s = [] then Inl (invalidDuration orig)
         else case durationLoop orig 0 s of
           Inl e \<Rightarrow> Inl e
         | Inr d \<Rightarrow>
             if neg then Inr (- int d)
             else if d > 2 ^ 63 - 1 then Inl (invalidDuration orig)
             else Inr (int d))"

section \<open>Duration.String\<close>

text \<open>\<^verbatim>\<open>fmtFrac\<close>: the fraction \<open>v / 10 ^ prec\<close> without trailing zeros, and the integral part.\<close>

fun fmtFrac :: "nat \<Rightarrow> nat \<Rightarrow> bool \<Rightarrow> string \<Rightarrow> string \<times> nat" where
  "fmtFrac v 0 pr acc = (if pr then ''.'' @ acc else acc, v)"
| "fmtFrac v (Suc n) pr acc =
     (let digit = v mod 10; pr' = (pr \<or> digit \<noteq> 0) in
      fmtFrac (v div 10) n pr' (if pr' then char_of (48 + digit) # acc else acc))"

definition fmtUnit :: "nat \<Rightarrow> nat \<Rightarrow> string \<Rightarrow> string" where
  "fmtUnit u prec suffix = (case fmtFrac u prec False [] of (frac, v) \<Rightarrow> digitsOf v @ frac @ suffix)"

definition DurationString :: "duration \<Rightarrow> string" where
  "DurationString d =
     (let u = nat \<bar>d\<bar>;
          body = (if u = 0 then ''0s''
            else if u < 1000 then digitsOf u @ ''ns''
            else if u < 1000000 then fmtUnit u 3 [CHR 0xC2, CHR 0xB5, CHR ''s'']
            else if u < 1000000000 then fmtUnit u 6 ''ms''
            else case fmtFrac u 9 False [] of (frac, secs) \<Rightarrow>
              let mins = secs div 60; hours = mins div 60 in
              (if hours > 0 then digitsOf hours @ ''h'' else []) @
              (if mins > 0 then digitsOf (mins mod 60) @ ''m'' else []) @
              digitsOf (secs mod 60) @ frac @ ''s'')
      in (if d < 0 then ''-'' else []) @ body)"

section \<open>Range\<close>

lemma durationLoop_range: "durationLoop orig d s = Inr d' \<Longrightarrow> d \<le> 2 ^ 63 \<Longrightarrow> d' \<le> 2 ^ 63"
proof (induction orig d s rule: durationLoop.induct)
  case (1 orig d s)
  show ?case
  proof (cases "s = []")
    case False
    with "1.prems" obtain v s' where p: "durationPart orig s = Inr (v, s')" "d + v \<le> 2 ^ 63"
      by (subst (asm) durationLoop.simps) (auto split: sum.splits if_splits)
    with "1.prems" False have "durationLoop orig (d + v) s' = Inr d'"
      by (subst (asm) durationLoop.simps) simp
    from "1.IH" [OF False p(1) refl _ this p(2)] p(2) show ?thesis by simp
  qed (use "1.prems" in \<open>simp add: durationLoop.simps\<close>)
qed

lemma ParseDuration_range:
  assumes "ParseDuration s = Inr d"
  shows "- (2 ^ 63) \<le> d \<and> d < 2 ^ 63"
proof -
  let ?s = "if HasPrefix s ''-'' \<or> HasPrefix s ''+'' then drop 1 s else s"
  consider "d = 0" | n where "durationLoop s 0 ?s = Inr n" "d = - int n"
    | n where "durationLoop s 0 ?s = Inr n" "d = int n" "n \<le> 2 ^ 63 - 1"
    using assms unfolding ParseDuration_def Let_def by (simp split: if_splits sum.splits)
  then show ?thesis
  proof cases
    case 2
    then have "n \<le> 2 ^ 63" using durationLoop_range by fastforce
    then have "int n \<le> 2 ^ 63" by (metis of_nat_le_iff of_nat_numeral of_nat_power)
    with 2 show ?thesis by simp
  next
    case 3
    then show ?thesis by simp
  qed simp
qed

end
