(* ===== verification/Policy.thy ===== *)
theory Policy
  imports Fragment Go_Time
begin

text \<open>
  The configuration record of a connection (\<^verbatim>\<open>core/policy.go\<close>): its modes, its JSON decoding,
  its rendering and the merging of several policies.

  The text of a JSON value is given as its syntax tree; a number keeps its literal. A field of
  the decoded struct is found the way \<^verbatim>\<open>encoding/json\<close> does it: by its name, or else ignoring
  case; a later occurrence overwrites an earlier one, unknown names are skipped. The error of
  the first field that cannot be decoded is the error of the whole.
\<close>

section \<open>JSON\<close>

datatype json = JNull | JBool bool | JNum string | JStr string | JArr "json list" | JObj "(string \<times> json) list"

definition typeErr :: "string \<Rightarrow> err" where
  "typeErr t = ErrNew (''json: cannot unmarshal into Go value of type '' @ t)"

text \<open>Targets of kind string, pointer to string, unsigned and signed integers. A JSON null leaves a
  plain target unchanged (it is the zero value here) and makes a pointer nil.\<close>

definition jString :: "json \<Rightarrow> string res" where
  "jString j = (case j of JStr s \<Rightarrow> Inr s | JNull \<Rightarrow> Inr [] | _ \<Rightarrow> Inl (typeErr ''string''))"

definition jPtr :: "(json \<Rightarrow> 'a res) \<Rightarrow> json \<Rightarrow> 'a option res" where
  "jPtr dec j = (if j = JNull then Inr None else bind_res (dec j) (\<lambda>x. Inr (Some x)))"

definition jUint :: "nat \<Rightarrow> json \<Rightarrow> nat res" where
  "jUint bits j = (case j of
       JNull \<Rightarrow> Inr 0
     | JNum lit \<Rightarrow> (case ParseUint lit bits of Some n \<Rightarrow> Inr n | None \<Rightarrow> Inl (typeErr ''uint''))
     | _ \<Rightarrow> Inl (typeErr ''uint''))"

definition jInt :: "json \<Rightarrow> int res" where
  "jInt j = (case j of
       JNull \<Rightarrow> Inr 0
     | JNum lit \<Rightarrow> (case Atoi lit of Some n \<Rightarrow> Inr n | None \<Rightarrow> Inl (typeErr ''int''))
     | _ \<Rightarrow> Inl (typeErr ''int''))"

text \<open>Conversion of an unsigned 64-bit value to \<^verbatim>\<open>int\<close>.\<close>

definition toInt :: "nat \<Rightarrow> int" where
  "toInt n = sint (word_of_nat n :: 64 word)"

section \<open>Modes\<close>

datatype SniffOverrideMode = SniffOverrideUnset | SniffOverrideOff | SniffOverrideAlways
  | SniffOverridePolicyExists | SniffOverrideRouteOnly

definition unmarshalSniffOverride :: "json \<Rightarrow> SniffOverrideMode res" where
  "unmarshalSniffOverride j = bind_res (jString j) (\<lambda>s.
     if s = ''off'' then Inr SniffOverrideOff
     else if s = ''always'' then Inr SniffOverrideAlways
     else if s = ''policy_exists'' then Inr SniffOverridePolicyExists
     else if s = ''route_only'' then Inr SniffOverrideRouteOnly
     else Inl (ErrNew (''invalid sniff_override: '' @ s)))"

datatype Mode = ModeUnset | ModeRaw | ModeDirect | ModeTLSRF | ModeTTLD | ModeBlock | ModeTLSAlert

definition ModeDefault :: Mode where "ModeDefault = ModeTLSRF"

definition unmarshalMode :: "json \<Rightarrow> Mode res" where
  "unmarshalMode j = bind_res (jString j) (\<lambda>s.
     if s = ''raw'' then Inr ModeRaw
     else if s = ''direct'' then Inr ModeDirect
     else if s = ''tls-rf'' then Inr ModeTLSRF
     else if s = ''ttl-d'' then Inr ModeTTLD
     else if s = ''block'' then Inr ModeBlock
     else if s = ''tls-alert'' then Inr ModeTLSAlert
     else Inl (ErrNew (''invalid mode: '' @ s)))"

fun ModeString :: "Mode \<Rightarrow> string" where
  "ModeString ModeRaw = ''raw''"
| "ModeString ModeDirect = ''direct''"
| "ModeString ModeTLSRF = ''tls-rf''"
| "ModeString ModeTTLD = ''ttl-d''"
| "ModeString ModeBlock = ''block''"
| "ModeString ModeTLSAlert = ''tls-alert''"
| "ModeString ModeUnset = ''unknown''"

datatype DNSMode = DNSModeUnset | DNSModePreferIPv4 | DNSModePreferIPv6 | DNSModeIPv4Only | DNSModeIPv6Only

definition DNSModeDefault :: DNSMode where "DNSModeDefault = DNSModePreferIPv4"

fun DNSModeString :: "DNSMode \<Rightarrow> string" where
  "DNSModeString DNSModePreferIPv4 = ''prefer_ipv4''"
| "DNSModeString DNSModePreferIPv6 = ''prefer_ipv6''"
| "DNSModeString DNSModeIPv4Only = ''ipv4_only''"
| "DNSModeString DNSModeIPv6Only = ''ipv6_only''"
| "DNSModeString DNSModeUnset = ''unknown''"

definition unmarshalDNSMode :: "json \<Rightarrow> DNSMode res" where
  "unmarshalDNSMode j = bind_res (jString j) (\<lambda>s.
     if s = ''prefer_ipv4'' then Inr DNSModePreferIPv4
     else if s = ''prefer_ipv6'' then Inr DNSModePreferIPv6
     else if s = ''ipv4_only'' then Inr DNSModeIPv4Only
     else if s = ''ipv6_only'' then Inr DNSModeIPv6Only
     else Inl (ErrNew (''invalid dns_mode: '' @ s)))"

datatype TriBool = BoolUnset | BoolFalse | BoolTrue

definition IsTrue :: "TriBool \<Rightarrow> bool" where "IsTrue b \<longleftrightarrow> b = BoolTrue"

text \<open>\<^verbatim>\<open>TriBool.UnmarshalJSON\<close> compares the raw text, which for a value other than true and false is
  some other text.\<close>

definition unmarshalTriBool :: "json \<Rightarrow> TriBool res" where
  "unmarshalTriBool j = (case j of
       JBool False \<Rightarrow> Inr BoolFalse
     | JBool True \<Rightarrow> Inr BoolTrue
     | _ \<Rightarrow> Inl (ErrNew ''invalid bool''))"

definition SetByte :: "byte \<Rightarrow> Byte" where
  "SetByte x = \<lparr>byteVal = x, valid = True\<rparr>"

definition unmarshalByte :: "json \<Rightarrow> Byte res" where
  "unmarshalByte j = bind_res (jUint 8 j) (\<lambda>x. Inr (SetByte (word_of_nat x)))"

section \<open>The policy record\<close>

definition unsetInt :: int where "unsetInt = -1"

definition unsetString :: string where "unsetString = [CHR 0x00]"

record Policy =
  ReplyFirst :: TriBool
  SniffOverride :: SniffOverrideMode
  DNSMode' :: DNSMode
  DNSCacheTTL :: duration
  ConnectTimeout :: duration
  Host :: string
  MapTo :: string
  Nat64Prefix :: string
  Port :: int
  HttpStatus :: int
  TLS13Only :: TriBool
  Mode' :: Mode
  NumRecords :: int
  NumSegments :: int
  WaitForAck :: TriBool
  OOB :: TriBool
  OOBEx :: TriBool
  MinorVer :: Byte
  SendInterval :: duration
  FakeTTL :: int
  FakeSleep :: duration
  MaxTTL :: int
  Attempts :: int
  SingleTimeout :: duration
  TTLCacheTTL :: duration

text \<open>The zero value of the struct, from which every policy starts.\<close>

definition zeroPolicy :: Policy where
  "zeroPolicy = \<lparr>ReplyFirst = BoolUnset, SniffOverride = SniffOverrideUnset, DNSMode' = DNSModeUnset,
     DNSCacheTTL = 0, ConnectTimeout = 0, Host = [], MapTo = [], Nat64Prefix = [], Port = 0, HttpStatus = 0,
     TLS13Only = BoolUnset, Mode' = ModeUnset, NumRecords = 0, NumSegments = 0, WaitForAck = BoolUnset,
     OOB = BoolUnset, OOBEx = BoolUnset, MinorVer = \<lparr>byteVal = 0, valid = False\<rparr>, SendInterval = 0,
     FakeTTL = 0, FakeSleep = 0, MaxTTL = 0, Attempts = 0, SingleTimeout = 0, TTLCacheTTL = 0\<rparr>"

section \<open>Decoding\<close>

text \<open>The struct \<^verbatim>\<open>tmp\<close> that \<^verbatim>\<open>Policy.UnmarshalJSON\<close> decodes into.\<close>

record PolicyTmp =
  tSniffOverride :: SniffOverrideMode
  tReplyFirst :: TriBool
  tConnectTimeout :: "string option"
  tHost :: "string option"
  tMapTo :: "string option"
  tNat64Prefix :: "string option"
  tPort :: "nat option"
  tDNSMode :: DNSMode
  tDNSCacheTTL :: "string option"
  tHttpStatus :: "nat option"
  tTLS13Only :: TriBool
  tMode :: Mode
  tNumRecords :: "nat option"
  tNumSegments :: "int option"
  tWaitForAck :: TriBool
  tOOB :: TriBool
  tOOBEx :: TriBool
  tMinorVer :: Byte
  tSendInterval :: "string option"
  tFakeTTL :: "nat option"
  tFakeSleep :: "string option"
  tMaxTTL :: "nat option"
  tAttempts :: "nat option"
  tSingleTimeout :: "string option"
  tTTLCacheTTL :: "string option"

definition zeroTmp :: PolicyTmp where
  "zeroTmp = \<lparr>tSniffOverride = SniffOverrideUnset, tReplyFirst = BoolUnset, tConnectTimeout = None,
     tHost = None, tMapTo = None, tNat64Prefix = None, tPort = None, tDNSMode = DNSModeUnset,
     tDNSCacheTTL = None, tHttpStatus = None, tTLS13Only = BoolUnset, tMode = ModeUnset,
     tNumRecords = None, tNumSegments = None, tWaitForAck = BoolUnset, tOOB = BoolUnset,
     tOOBEx = BoolUnset, tMinorVer = \<lparr>byteVal = 0, valid = False\<rparr>, tSendInterval = None, tFakeTTL = None,
     tFakeSleep = None, tMaxTTL = None, tAttempts = None, tSingleTimeout = None, tTTLCacheTTL = None\<rparr>"

text \<open>A field of a struct: its JSON name and how a value is stored in it.\<close>

type_synonym 'r field = "string \<times> (json \<Rightarrow> 'r \<Rightarrow> 'r res)"

definition field :: "string \<Rightarrow> (json \<Rightarrow> 'a res) \<Rightarrow> ('a \<Rightarrow> 'r \<Rightarrow> 'r) \<Rightarrow> 'r field" where
  "field name dec upd = (name, \<lambda>j r. bind_res (dec j) (\<lambda>x. Inr (upd x r)))"

definition lookupField :: "'r field list \<Rightarrow> string \<Rightarrow> (json \<Rightarrow> 'r \<Rightarrow> 'r res) option" where
  "lookupField fs key = (case map_of fs key of
       Some g \<Rightarrow> Some g
     | None \<Rightarrow> map_of (map (\<lambda>(n, g). (ToLower n, g)) fs) (ToLower key))"

definition decodeStruct :: "'r field list \<Rightarrow> json \<Rightarrow> 'r \<Rightarrow> 'r res" where
  "decodeStruct fs j r = (case j of
       JNull \<Rightarrow> Inr r
     | JObj kvs \<Rightarrow> foldRes (\<lambda>(k, v) r. case lookupField fs k of Some g \<Rightarrow> g v r | None \<Rightarrow> Inr r) kvs r
     | _ \<Rightarrow> Inl (typeErr ''struct''))"

definition policyFields :: "PolicyTmp field list" where
  "policyFields =
    [field ''sniff_override'' unmarshalSniffOverride (\<lambda>x. tSniffOverride_update (\<lambda>_. x)),
     field ''reply_first'' unmarshalTriBool (\<lambda>x. tReplyFirst_update (\<lambda>_. x)),
     field ''connect_timeout'' (jPtr jString) (\<lambda>x. tConnectTimeout_update (\<lambda>_. x)),
     field ''host'' (jPtr jString) (\<lambda>x. tHost_update (\<lambda>_. x)),
     field ''map_to'' (jPtr jString) (\<lambda>x. tMapTo_update (\<lambda>_. x)),
     field ''nat64_prefix'' (jPtr jString) (\<lambda>x. tNat64Prefix_update (\<lambda>_. x)),
     field ''port'' (jPtr (jUint 16)) (\<lambda>x. tPort_update (\<lambda>_. x)),
     field ''dns_mode'' unmarshalDNSMode (\<lambda>x. tDNSMode_update (\<lambda>_. x)),
     field ''dns_cache_ttl'' (jPtr jString) (\<lambda>x. tDNSCacheTTL_update (\<lambda>_. x)),
     field ''http_status'' (jPtr (jUint 64)) (\<lambda>x. tHttpStatus_update (\<lambda>_. x)),
     field ''tls13_only'' unmarshalTriBool (\<lambda>x. tTLS13Only_update (\<lambda>_. x)),
     field ''mode'' unmarshalMode (\<lambda>x. tMode_update (\<lambda>_. x)),
     field ''num_records'' (jPtr (jUint 64)) (\<lambda>x. tNumRecords_update (\<lambda>_. x)),
     field ''num_segs'' (jPtr jInt) (\<lambda>x. tNumSegments_update (\<lambda>_. x)),
     field ''wait_for_ack'' unmarshalTriBool (\<lambda>x. tWaitForAck_update (\<lambda>_. x)),
     field ''oob'' unmarshalTriBool (\<lambda>x. tOOB_update (\<lambda>_. x)),
     field ''oob_ex'' unmarshalTriBool (\<lambda>x. tOOBEx_update (\<lambda>_. x)),
     field ''minor_ver'' unmarshalByte (\<lambda>x. tMinorVer_update (\<lambda>_. x)),
     field ''send_interval'' (jPtr jString) (\<lambda>x. tSendInterval_update (\<lambda>_. x)),
     field ''fake_ttl'' (jPtr (jUint 8)) (\<lambda>x. tFakeTTL_update (\<lambda>_. x)),
     field ''fake_sleep'' (jPtr jString) (\<lambda>x. tFakeSleep_update (\<lambda>_. x)),
     field ''max_ttl'' (jPtr (jUint 8)) (\<lambda>x. tMaxTTL_update (\<lambda>_. x)),
     field ''attempts'' (jPtr (jUint 64)) (\<lambda>x. tAttempts_update (\<lambda>_. x)),
     field ''single_timeout'' (jPtr jString) (\<lambda>x. tSingleTimeout_update (\<lambda>_. x)),
     field ''ttl_cache_ttl'' (jPtr jString) (\<lambda>x. tTTLCacheTTL_update (\<lambda>_. x))]"

text \<open>A duration field: absent, or parsed and within the range the field allows.\<close>

definition durationField :: "string \<Rightarrow> string option \<Rightarrow> duration \<Rightarrow> (duration \<Rightarrow> bool) \<Rightarrow> string \<Rightarrow> duration res" where
  "durationField name v unset inRange msg = (case v of
       None \<Rightarrow> Inr unset
     | Some s \<Rightarrow> (case ParseDuration s of
           Inl e \<Rightarrow> Inl (ErrNew (''parse '' @ name @ '' '' @ s @ '': '' @ Error e))
         | Inr d \<Rightarrow> if inRange d then Inr d else Inl (ErrNew (name @ '' '' @ s @ '': '' @ msg))))"

definition stringField :: "string \<Rightarrow> string option \<Rightarrow> string res" where
  "stringField name v = (case v of
       None \<Rightarrow> Inr unsetString
     | Some s \<Rightarrow> if s = unsetString then Inl (ErrNew (name @ '' cannot be `'' @ [CHR 0x5C] @ ''x00`'')) else Inr s)"

text \<open>A positive count: absent (zero), or given and not zero.\<close>

definition countField :: "string \<Rightarrow> nat option \<Rightarrow> int res" where
  "countField name v = (case v of
       None \<Rightarrow> Inr 0
     | Some n \<Rightarrow> if n = 0 then Inl (ErrNew (name @ '' cannot be 0'')) else Inr (toInt n))"

definition nat64Field :: "string option \<Rightarrow> string" where
  "nat64Field v = (case v of
       None \<Rightarrow> []
     | Some s \<Rightarrow> let prefix = TrimSpace s in
         if prefix = unsetString \<or> prefix = [] \<or> prefix = ''off'' then [] else prefix)"

definition segsField :: "int option \<Rightarrow> int res" where
  "segsField v = (case v of
       None \<Rightarrow> Inr 0
     | Some n \<Rightarrow>
         if n = 0 then Inl (ErrNew ''num_segs cannot be 0'')
         else if n < -1 then Inl (ErrNew ''num_segs cannot be less than -1'')
         else Inr n)"

definition fromTmp :: "PolicyTmp \<Rightarrow> Policy res" where
  "fromTmp t =
     bind_res (stringField ''host'' (tHost t)) (\<lambda>host.
     bind_res (stringField ''map_to'' (tMapTo t)) (\<lambda>mapTo.
     bind_res (countField ''num_records'' (tNumRecords t)) (\<lambda>numRecords.
     bind_res (segsField (tNumSegments t)) (\<lambda>numSegments.
     bind_res (countField ''attempts'' (tAttempts t)) (\<lambda>attempts.
     bind_res (countField ''max_ttl'' (tMaxTTL t)) (\<lambda>maxTTL.
     bind_res (durationField ''connect_timeout'' (tConnectTimeout t) unsetInt (\<lambda>d. 0 < d) ''must be greater than 0'') (\<lambda>connectTimeout.
     bind_res (durationField ''send_interval'' (tSendInterval t) unsetInt (\<lambda>d. 0 \<le> d) ''outside the valid range'') (\<lambda>sendInterval.
     bind_res (durationField ''fake_sleep'' (tFakeSleep t) 0 (\<lambda>d. 0 < d) ''must be greater than 0'') (\<lambda>fakeSleep.
     bind_res (durationField ''single_timeout'' (tSingleTimeout t) unsetInt (\<lambda>d. 0 < d) ''must be greater than 0'') (\<lambda>singleTimeout.
     bind_res (durationField ''dns_cache_ttl'' (tDNSCacheTTL t) unsetInt (\<lambda>d. 0 \<le> d) ''must be greater than -1'') (\<lambda>dnsCacheTTL.
     bind_res (durationField ''ttl_cache_ttl'' (tTTLCacheTTL t) unsetInt (\<lambda>d. 0 \<le> d) ''must be greater than -1'') (\<lambda>ttlCacheTTL.
     Inr \<lparr>ReplyFirst = tReplyFirst t, SniffOverride = tSniffOverride t, DNSMode' = tDNSMode t,
       DNSCacheTTL = dnsCacheTTL, ConnectTimeout = connectTimeout, Host = host, MapTo = mapTo,
       Nat64Prefix = nat64Field (tNat64Prefix t),
       Port = (case tPort t of None \<Rightarrow> unsetInt | Some n \<Rightarrow> int n),
       HttpStatus = (case tHttpStatus t of None \<Rightarrow> unsetInt | Some n \<Rightarrow> toInt n),
       TLS13Only = tTLS13Only t, Mode' = tMode t, NumRecords = numRecords, NumSegments = numSegments,
       WaitForAck = tWaitForAck t, OOB = tOOB t, OOBEx = tOOBEx t, MinorVer = tMinorVer t,
       SendInterval = sendInterval,
       FakeTTL = (case tFakeTTL t of None \<Rightarrow> unsetInt | Some n \<Rightarrow> int n),
       FakeSleep = fakeSleep, MaxTTL = maxTTL, Attempts = attempts, SingleTimeout = singleTimeout,
       TTLCacheTTL = ttlCacheTTL\<rparr>))))))))))))"

definition unmarshalPolicy :: "json \<Rightarrow> Policy res" where
  "unmarshalPolicy j = bind_res (decodeStruct policyFields j zeroTmp) fromTmp"

section \<open>Rendering\<close>

text \<open>\<^verbatim>\<open>Policy.String\<close>: the fields that are appended, in the order of the code.\<close>

definition whenS :: "bool \<Rightarrow> string \<Rightarrow> string list" where
  "whenS b s = (if b then [s] else [])"

definition modeFields :: "Policy \<Rightarrow> string list" where
  "modeFields p = (case Mode' p of
       ModeTLSRF \<Rightarrow>
         whenS (\<not> IsUnset (MinorVer p)) (''minor_ver='' @ digitsOf (unat (byteVal (MinorVer p)))) @
         whenS (NumRecords p \<noteq> unsetInt \<and> NumRecords p \<noteq> 1) (''records='' @ Itoa (NumRecords p)) @
         whenS (NumSegments p \<noteq> unsetInt \<and> NumSegments p \<noteq> 1) (''segs='' @ Itoa (NumSegments p)) @
         whenS (SendInterval p > 0) (''send_interval='' @ DurationString (SendInterval p)) @
         whenS (IsTrue (OOB p)) ''oob'' @
         whenS (IsTrue (OOBEx p)) ''oob_ex''
     | ModeTTLD \<Rightarrow>
         (if FakeTTL p = 0 \<or> FakeTTL p = unsetInt then
            [''auto_fake_ttl''] @
            whenS (Attempts p \<noteq> 0) (''attempts='' @ Itoa (Attempts p)) @
            whenS (MaxTTL p \<noteq> 0) (''max_ttl='' @ Itoa (MaxTTL p)) @
            whenS (SingleTimeout p \<noteq> 0) (''single_timeout='' @ DurationString (SingleTimeout p)) @
            whenS (TTLCacheTTL p > 0) (''ttl_cache_ttl='' @ DurationString (TTLCacheTTL p))
          else [''fake_ttl='' @ Itoa (FakeTTL p)]) @
         [''fake_sleep='' @ DurationString (FakeSleep p)]
     | _ \<Rightarrow> [])"

definition PolicyString :: "Policy \<Rightarrow> string" where
  "PolicyString p = JoinStr
     (whenS (Nat64Prefix p \<noteq> []) (''nat64='' @ Nat64Prefix p) @
      whenS (ConnectTimeout p \<noteq> 0) (''timeout='' @ DurationString (ConnectTimeout p)) @
      whenS (Port p \<noteq> unsetInt \<and> Port p \<noteq> 0) (''port='' @ Itoa (Port p)) @
      (if Host p = [] \<or> Host p = unsetString then
         whenS (DNSMode' p \<noteq> DNSModeUnset) (DNSModeString (DNSMode' p)) @
         whenS (DNSCacheTTL p > 0) (''dns_cache_ttl='' @ DurationString (DNSCacheTTL p))
       else []) @
      whenS (HttpStatus p > 0) (''http_status='' @ Itoa (HttpStatus p)) @
      whenS (IsTrue (TLS13Only p)) ''tls13_only'' @
      [ModeString (Mode' p)] @ modeFields p) '' ''"

section \<open>Merging\<close>

definition mergeStart :: Policy where
  "mergeStart = zeroPolicy\<lparr>Host := unsetString, MapTo := unsetString, Port := unsetInt,
     HttpStatus := unsetInt, SendInterval := unsetInt, FakeTTL := unsetInt, ConnectTimeout := unsetInt,
     SingleTimeout := unsetInt, DNSCacheTTL := unsetInt, TTLCacheTTL := unsetInt\<rparr>"

text \<open>The test of every field in the loop: \<^verbatim>\<open>merged.X == unset && p.X != unset\<close>.\<close>

definition pick :: "'a \<Rightarrow> 'a \<Rightarrow> 'a \<Rightarrow> 'a" where
  "pick unset m p = (if m = unset \<and> p \<noteq> unset then p else m)"

definition pickByte :: "Byte \<Rightarrow> Byte \<Rightarrow> Byte" where
  "pickByte m p = (if IsUnset m \<and> \<not> IsUnset p then p else m)"

definition mergeOne :: "Policy \<Rightarrow> Policy \<Rightarrow> Policy" where
  "mergeOne m p = \<lparr>ReplyFirst = pick BoolUnset (ReplyFirst m) (ReplyFirst p),
     SniffOverride = pick SniffOverrideUnset (SniffOverride m) (SniffOverride p),
     DNSMode' = pick DNSModeUnset (DNSMode' m) (DNSMode' p),
     DNSCacheTTL = pick unsetInt (DNSCacheTTL m) (DNSCacheTTL p),
     ConnectTimeout = pick unsetInt (ConnectTimeout m) (ConnectTimeout p),
     Host = pick unsetString (Host m) (Host p),
     MapTo = pick unsetString (MapTo m) (MapTo p),
     Nat64Prefix = pick [] (Nat64Prefix m) (Nat64Prefix p),
     Port = pick unsetInt (Port m) (Port p),
     HttpStatus = pick unsetInt (HttpStatus m) (HttpStatus p),
     TLS13Only = pick BoolUnset (TLS13Only m) (TLS13Only p),
     Mode' = pick ModeUnset (Mode' m) (Mode' p),
     NumRecords = pick 0 (NumRecords m) (NumRecords p),
     NumSegments = pick 0 (NumSegments m) (NumSegments p),
     WaitForAck = pick BoolUnset (WaitForAck m) (WaitForAck p),
     OOB = pick BoolUnset (OOB m) (OOB p),
     OOBEx = pick BoolUnset (OOBEx m) (OOBEx p),
     MinorVer = pickByte (MinorVer m) (MinorVer p),
     SendInterval = pick unsetInt (SendInterval m) (SendInterval p),
     FakeTTL = pick unsetInt (FakeTTL m) (FakeTTL p),
     FakeSleep = pick 0 (FakeSleep m) (FakeSleep p),
     MaxTTL = pick 0 (MaxTTL m) (MaxTTL p),
     Attempts = pick 0 (Attempts m) (Attempts p),
     SingleTimeout = pick unsetInt (SingleTimeout m) (SingleTimeout p),
     TTLCacheTTL = pick unsetInt (TTLCacheTTL m) (TTLCacheTTL p)\<rparr>"

definition mergePolicies :: "Policy list \<Rightarrow> Policy" where
  "mergePolicies ps =
     (let m = foldl mergeOne mergeStart ps;
          m = (if Mode' m = ModeUnset then m\<lparr>Mode' := ModeDefault\<rparr> else m)
      in if DNSMode' m = DNSModeUnset then m\<lparr>DNSMode' := DNSModeDefault\<rparr> else m)"

section \<open>Properties\<close>

text \<open>The first value of a list that is not the unset one.\<close>

fun firstSet :: "'a \<Rightarrow> 'a list \<Rightarrow> 'a" where
  "firstSet unset [] = unset"
| "firstSet unset (x # xs) = (if x = unset then firstSet unset xs else x)"

fun firstByte :: "Byte list \<Rightarrow> Byte" where
  "firstByte [] = \<lparr>byteVal = 0, valid = False\<rparr>"
| "firstByte (x # xs) = (if IsUnset x then firstByte xs else x)"

definition orDefault :: "'a \<Rightarrow> 'a \<Rightarrow> 'a \<Rightarrow> 'a" where
  "orDefault unset d x = (if x = unset then d else x)"

lemma foldl_pick: "foldl (pick u) m xs = (if m = u then firstSet u xs else m)"
  by (induction xs arbitrary: m) (auto simp: pick_def)

lemma foldl_pickByte: "foldl pickByte m xs = (if IsUnset m then (if \<exists>x \<in> set xs. \<not> IsUnset x then firstByte xs else m) else m)"
  by (induction xs arbitrary: m) (auto simp: pickByte_def)

lemma firstByte_unset: "\<forall>x \<in> set xs. IsUnset x \<Longrightarrow> firstByte xs = \<lparr>byteVal = 0, valid = False\<rparr>"
  by (induction xs) auto

lemma foldl_field:
  "(\<And>m p. f (mergeOne m p) = g (f m) (f p)) \<Longrightarrow> f (foldl mergeOne m ps) = foldl g (f m) (map f ps)"
  by (induction ps arbitrary: m) simp_all

lemma foldl_merge_pick:
  "(\<And>m p. f (mergeOne m p) = pick u (f m) (f p)) \<Longrightarrow> f mergeStart = u \<Longrightarrow>
   f (foldl mergeOne mergeStart ps) = firstSet u (map f ps)"
  using foldl_field [of f "pick u" mergeStart ps] by (simp add: foldl_pick)

lemma foldl_merge_byte: "MinorVer (foldl mergeOne mergeStart ps) = firstByte (map MinorVer ps)"
proof -
  have "MinorVer (foldl mergeOne mergeStart ps) = foldl pickByte (MinorVer mergeStart) (map MinorVer ps)"
    by (rule foldl_field) (simp add: mergeOne_def)
  also have "\<dots> = firstByte (map MinorVer ps)"
    using firstByte_unset [of "map MinorVer ps"]
    by (auto simp: foldl_pickByte mergeStart_def zeroPolicy_def IsUnset_def)
  finally show ?thesis .
qed

lemmas merge_start = mergeOne_def mergeStart_def zeroPolicy_def

lemma mergePolicies_fields:
  "ReplyFirst (mergePolicies ps) = firstSet BoolUnset (map ReplyFirst ps)"
  "SniffOverride (mergePolicies ps) = firstSet SniffOverrideUnset (map SniffOverride ps)"
  "DNSMode' (mergePolicies ps) = orDefault DNSModeUnset DNSModeDefault (firstSet DNSModeUnset (map DNSMode' ps))"
  "DNSCacheTTL (mergePolicies ps) = firstSet unsetInt (map DNSCacheTTL ps)"
  "ConnectTimeout (mergePolicies ps) = firstSet unsetInt (map ConnectTimeout ps)"
  "Host (mergePolicies ps) = firstSet unsetString (map Host ps)"
  "MapTo (mergePolicies ps) = firstSet unsetString (map MapTo ps)"
  "Nat64Prefix (mergePolicies ps) = firstSet [] (map Nat64Prefix ps)"
  "Port (mergePolicies ps) = firstSet unsetInt (map Port ps)"
  "HttpStatus (mergePolicies ps) = firstSet unsetInt (map HttpStatus ps)"
  "TLS13Only (mergePolicies ps) = firstSet BoolUnset (map TLS13Only ps)"
  "Mode' (mergePolicies ps) = orDefault ModeUnset ModeDefault (firstSet ModeUnset (map Mode' ps))"
  "NumRecords (mergePolicies ps) = firstSet 0 (map NumRecords ps)"
  "NumSegments (mergePolicies ps) = firstSet 0 (map NumSegments ps)"
  "WaitForAck (mergePolicies ps) = firstSet BoolUnset (map WaitForAck ps)"
  "OOB (mergePolicies ps) = firstSet BoolUnset (map OOB ps)"
  "OOBEx (mergePolicies ps) = firstSet BoolUnset (map OOBEx ps)"
  "SendInterval (mergePolicies ps) = firstSet unsetInt (map SendInterval ps)"
  "FakeTTL (mergePolicies ps) = firstSet unsetInt (map FakeTTL ps)"
  "FakeSleep (mergePolicies ps) = firstSet 0 (map FakeSleep ps)"
  "MaxTTL (mergePolicies ps) = firstSet 0 (map MaxTTL ps)"
  "Attempts (mergePolicies ps) = firstSet 0 (map Attempts ps)"
  "SingleTimeout (mergePolicies ps) = firstSet unsetInt (map SingleTimeout ps)"
  "TTLCacheTTL (mergePolicies ps) = firstSet unsetInt (map TTLCacheTTL ps)"
  "MinorVer (mergePolicies ps) = firstByte (map MinorVer ps)"
proof -
  let ?m = "foldl mergeOne mergeStart ps"
  have "ReplyFirst ?m = firstSet BoolUnset (map ReplyFirst ps)"
    "SniffOverride ?m = firstSet SniffOverrideUnset (map SniffOverride ps)"
    "DNSMode' ?m = firstSet DNSModeUnset (map DNSMode' ps)"
    "DNSCacheTTL ?m = firstSet unsetInt (map DNSCacheTTL ps)"
    "ConnectTimeout ?m = firstSet unsetInt (map ConnectTimeout ps)"
    "Host ?m = firstSet unsetString (map Host ps)"
    "MapTo ?m = firstSet unsetString (map MapTo ps)"
    "Nat64Prefix ?m = firstSet [] (map Nat64Prefix ps)"
    "Port ?m = firstSet unsetInt (map Port ps)"
    "HttpStatus ?m = firstSet unsetInt (map HttpStatus ps)"
    "TLS13Only ?m = firstSet BoolUnset (map TLS13Only ps)"
    "Mode' ?m = firstSet ModeUnset (map Mode' ps)"
    "NumRecords ?m = firstSet 0 (map NumRecords ps)"
    "NumSegments ?m = firstSet 0 (map NumSegments ps)"
    "WaitForAck ?m = firstSet BoolUnset (map WaitForAck ps)"
    "OOB ?m = firstSet BoolUnset (map OOB ps)"
    "OOBEx ?m = firstSet BoolUnset (map OOBEx ps)"
    "SendInterval ?m = firstSet unsetInt (map SendInterval ps)"
    "FakeTTL ?m = firstSet unsetInt (map FakeTTL ps)"
    "FakeSleep ?m = firstSet 0 (map FakeSleep ps)"
    "MaxTTL ?m = firstSet 0 (map MaxTTL ps)"
    "Attempts ?m = firstSet 0 (map Attempts ps)"
    "SingleTimeout ?m = firstSet unsetInt (map SingleTimeout ps)"
    "TTLCacheTTL ?m = firstSet unsetInt (map TTLCacheTTL ps)"
    by (rule foldl_merge_pick; simp add: merge_start)+
  note f = this foldl_merge_byte [of ps]
  show
    "ReplyFirst (mergePolicies ps) = firstSet BoolUnset (map ReplyFirst ps)"
    "SniffOverride (mergePolicies ps) = firstSet SniffOverrideUnset (map SniffOverride ps)"
    "DNSMode' (mergePolicies ps) = orDefault DNSModeUnset DNSModeDefault (firstSet DNSModeUnset (map DNSMode' ps))"
    "DNSCacheTTL (mergePolicies ps) = firstSet unsetInt (map DNSCacheTTL ps)"
    "ConnectTimeout (mergePolicies ps) = firstSet unsetInt (map ConnectTimeout ps)"
    "Host (mergePolicies ps) = firstSet unsetString (map Host ps)"
    "MapTo (mergePolicies ps) = firstSet unsetString (map MapTo ps)"
    "Nat64Prefix (mergePolicies ps) = firstSet [] (map Nat64Prefix ps)"
    "Port (mergePolicies ps) = firstSet unsetInt (map Port ps)"
    "HttpStatus (mergePolicies ps) = firstSet unsetInt (map HttpStatus ps)"
    "TLS13Only (mergePolicies ps) = firstSet BoolUnset (map TLS13Only ps)"
    "Mode' (mergePolicies ps) = orDefault ModeUnset ModeDefault (firstSet ModeUnset (map Mode' ps))"
    "NumRecords (mergePolicies ps) = firstSet 0 (map NumRecords ps)"
    "NumSegments (mergePolicies ps) = firstSet 0 (map NumSegments ps)"
    "WaitForAck (mergePolicies ps) = firstSet BoolUnset (map WaitForAck ps)"
    "OOB (mergePolicies ps) = firstSet BoolUnset (map OOB ps)"
    "OOBEx (mergePolicies ps) = firstSet BoolUnset (map OOBEx ps)"
    "SendInterval (mergePolicies ps) = firstSet unsetInt (map SendInterval ps)"
    "FakeTTL (mergePolicies ps) = firstSet unsetInt (map FakeTTL ps)"
    "FakeSleep (mergePolicies ps) = firstSet 0 (map FakeSleep ps)"
    "MaxTTL (mergePolicies ps) = firstSet 0 (map MaxTTL ps)"
    "Attempts (mergePolicies ps) = firstSet 0 (map Attempts ps)"
    "SingleTimeout (mergePolicies ps) = firstSet unsetInt (map SingleTimeout ps)"
    "TTLCacheTTL (mergePolicies ps) = firstSet unsetInt (map TTLCacheTTL ps)"
    "MinorVer (mergePolicies ps) = firstByte (map MinorVer ps)"
    by (simp_all add: mergePolicies_def Let_def f orDefault_def)
qed

text \<open>C13. Merging is first-set-wins. Every field of a merged policy is the value of the first
  policy of the list that sets it; the mode and the DNS mode, if no policy sets them, are the
  defaults, and every other field then is unset.\<close>

theorem mergePolicies_first_set:
  "mergePolicies ps = \<lparr>ReplyFirst = firstSet BoolUnset (map ReplyFirst ps),
     SniffOverride = firstSet SniffOverrideUnset (map SniffOverride ps),
     DNSMode' = orDefault DNSModeUnset DNSModeDefault (firstSet DNSModeUnset (map DNSMode' ps)),
     DNSCacheTTL = firstSet unsetInt (map DNSCacheTTL ps),
     ConnectTimeout = firstSet unsetInt (map ConnectTimeout ps),
     Host = firstSet unsetString (map Host ps),
     MapTo = firstSet unsetString (map MapTo ps),
     Nat64Prefix = firstSet [] (map Nat64Prefix ps),
     Port = firstSet unsetInt (map Port ps),
     HttpStatus = firstSet unsetInt (map HttpStatus ps),
     TLS13Only = firstSet BoolUnset (map TLS13Only ps),
     Mode' = orDefault ModeUnset ModeDefault (firstSet ModeUnset (map Mode' ps)),
     NumRecords = firstSet 0 (map NumRecords ps),
     NumSegments = firstSet 0 (map NumSegments ps),
     WaitForAck = firstSet BoolUnset (map WaitForAck ps),
     OOB = firstSet BoolUnset (map OOB ps),
     OOBEx = firstSet BoolUnset (map OOBEx ps),
     MinorVer = firstByte (map MinorVer ps),
     SendInterval = firstSet unsetInt (map SendInterval ps),
     FakeTTL = firstSet unsetInt (map FakeTTL ps),
     FakeSleep = firstSet 0 (map FakeSleep ps),
     MaxTTL = firstSet 0 (map MaxTTL ps),
     Attempts = firstSet 0 (map Attempts ps),
     SingleTimeout = firstSet unsetInt (map SingleTimeout ps),
     TTLCacheTTL = firstSet unsetInt (map TTLCacheTTL ps)\<rparr>"
  by (rule Policy.Policy.equality) (simp_all add: mergePolicies_fields)

text \<open>The ranges a decoded policy keeps.\<close>

definition wfPolicy :: "Policy \<Rightarrow> bool" where
  "wfPolicy p \<longleftrightarrow>
     -1 \<le> Port p \<and> Port p \<le> 65535 \<and> -1 \<le> FakeTTL p \<and> FakeTTL p \<le> 255 \<and>
     0 \<le> MaxTTL p \<and> MaxTTL p \<le> 255 \<and> -1 \<le> NumSegments p \<and>
     (ConnectTimeout p = unsetInt \<or> 0 < ConnectTimeout p) \<and>
     (SingleTimeout p = unsetInt \<or> 0 < SingleTimeout p) \<and>
     -1 \<le> SendInterval p \<and> 0 \<le> FakeSleep p \<and> -1 \<le> DNSCacheTTL p \<and> -1 \<le> TTLCacheTTL p"

lemma durationField_cases:
  "durationField name v unset inRange msg = Inr d \<Longrightarrow> d = unset \<or> inRange d"
  by (auto simp: durationField_def split: option.splits sum.splits if_splits)

lemma segsField_range: "segsField v = Inr n \<Longrightarrow> -1 \<le> n"
  by (auto simp: segsField_def split: option.splits if_splits)

lemma jUint_bound: "jUint bits j = Inr n \<Longrightarrow> n < 2 ^ bits"
  by (auto simp: jUint_def ParseUint_def split: json.splits option.splits if_splits)

text \<open>The bounds that the types of the fields of \<^verbatim>\<open>tmp\<close> impose.\<close>

definition wfTmp :: "PolicyTmp \<Rightarrow> bool" where
  "wfTmp t \<longleftrightarrow> (\<forall>n. tPort t = Some n \<longrightarrow> n < 2 ^ 16) \<and> (\<forall>n. tFakeTTL t = Some n \<longrightarrow> n < 2 ^ 8) \<and>
     (\<forall>n. tMaxTTL t = Some n \<longrightarrow> n < 2 ^ 8)"

lemma jPtr_Some: "jPtr dec j = Inr (Some n) \<Longrightarrow> dec j = Inr n"
  by (auto simp: jPtr_def res_iff split: if_splits)

lemma policyFields_wf:
  assumes "(n, g) \<in> set policyFields" "wfTmp t" "g j t = Inr t'"
  shows "wfTmp t'"
  using assms unfolding policyFields_def field_def
  by (auto simp: res_iff wfTmp_def dest!: jPtr_Some jUint_bound)

lemma lookupField_mem: "lookupField fs k = Some g \<Longrightarrow> \<exists>n. (n, g) \<in> set fs"
  by (auto simp: lookupField_def split: option.splits dest!: map_of_SomeD)

lemma decodeStruct_inv:
  assumes "\<And>n g j r r'. (n, g) \<in> set fs \<Longrightarrow> I r \<Longrightarrow> g j r = Inr r' \<Longrightarrow> I r'" "I r" "decodeStruct fs j r = Inr r'"
  shows "I r'"
proof -
  let ?f = "\<lambda>(k, v) r. case lookupField fs k of Some g \<Rightarrow> g v r | None \<Rightarrow> Inr r"
  have "I r \<Longrightarrow> foldRes ?f kvs r = Inr r' \<Longrightarrow> I r'" for kvs r
  proof (induction kvs arbitrary: r)
    case (Cons kv kvs)
    obtain k v where kv: "kv = (k, v)" by force
    obtain r1 where r1: "?f (k, v) r = Inr r1" "foldRes ?f kvs r1 = Inr r'"
      using Cons.prems(2) by (auto simp: kv res_iff)
    have "I r1"
    proof (cases "lookupField fs k")
      case (Some g)
      then obtain n where "(n, g) \<in> set fs" using lookupField_mem by blast
      with assms(1) Cons.prems(1) r1(1) Some show ?thesis by auto
    qed (use r1 Cons.prems in simp)
    with Cons.IH r1(2) show ?case by blast
  qed simp
  with assms(2,3) show ?thesis by (auto simp: decodeStruct_def split: json.splits)
qed

lemma toInt_small: "n < 2 ^ 63 \<Longrightarrow> toInt n = int n"
  by (simp add: toInt_def signed_of_nat signed_take_bit_int_eq_self)

lemma countField_range: "countField name v = Inr k \<Longrightarrow> (\<And>n. v = Some n \<Longrightarrow> n < 2 ^ 8) \<Longrightarrow> 0 \<le> k \<and> k \<le> 255"
  by (auto simp: countField_def toInt_small split: option.splits if_splits)

lemma fromTmp_wf:
  assumes "wfTmp t" "fromTmp t = Inr p"
  shows "wfPolicy p"
proof -
  have f: "segsField (tNumSegments t) = Inr (NumSegments p)" "countField ''max_ttl'' (tMaxTTL t) = Inr (MaxTTL p)"
    "Port p = (case tPort t of None \<Rightarrow> unsetInt | Some n \<Rightarrow> int n)"
    "FakeTTL p = (case tFakeTTL t of None \<Rightarrow> unsetInt | Some n \<Rightarrow> int n)"
    "ConnectTimeout p = unsetInt \<or> 0 < ConnectTimeout p" "SendInterval p = unsetInt \<or> 0 \<le> SendInterval p"
    "FakeSleep p = 0 \<or> 0 < FakeSleep p" "SingleTimeout p = unsetInt \<or> 0 < SingleTimeout p"
    "DNSCacheTTL p = unsetInt \<or> 0 \<le> DNSCacheTTL p" "TTLCacheTTL p = unsetInt \<or> 0 \<le> TTLCacheTTL p"
    using assms(2) unfolding fromTmp_def bind_res_Inr by (auto dest: durationField_cases)
  have "0 \<le> MaxTTL p \<and> MaxTTL p \<le> 255"
    using countField_range [OF f(2)] assms(1) by (simp add: wfTmp_def)
  moreover have "-1 \<le> NumSegments p" by (rule segsField_range [OF f(1)])
  moreover have "-1 \<le> Port p \<and> Port p \<le> 65535" "-1 \<le> FakeTTL p \<and> FakeTTL p \<le> 255"
    using assms(1) by (auto simp: f(3,4) wfTmp_def unsetInt_def split: option.split)
  ultimately show ?thesis using f(5-10) by (auto simp: wfPolicy_def unsetInt_def)
qed

lemma unmarshalPolicy_wf:
  assumes "unmarshalPolicy j = Inr p"
  shows "wfPolicy p"
proof -
  obtain t where t: "decodeStruct policyFields j zeroTmp = Inr t" "fromTmp t = Inr p"
    using assms by (auto simp: unmarshalPolicy_def res_iff)
  have "wfTmp zeroTmp" by (simp add: wfTmp_def zeroTmp_def)
  from decodeStruct_inv [of policyFields wfTmp, OF policyFields_wf this t(1)] have "wfTmp t" .
  with t(2) show ?thesis by (rule fromTmp_wf [rotated])
qed

lemma firstSet_mem: "firstSet u xs = u \<or> firstSet u xs \<in> set xs"
  by (induction xs) auto

lemma firstSet_all: "P u \<Longrightarrow> (\<And>x. x \<in> set xs \<Longrightarrow> P x) \<Longrightarrow> P (firstSet u xs)"
  using firstSet_mem [of u xs] by auto

lemma not_isl_obtain: "\<not> isl x \<Longrightarrow> (\<And>p. x = Inr p \<Longrightarrow> thesis) \<Longrightarrow> thesis"
  by (cases x) auto

text \<open>C14. Every policy the program works with is well formed: whatever JSON the policies of a
  merge were decoded from, the merged policy keeps the ranges of ports, TTLs, segment counts
  and durations, and its mode and DNS mode are set.\<close>

theorem mergePolicies_wf:
  assumes "\<forall>p \<in> set ps. \<exists>j. unmarshalPolicy j = Inr p"
  shows "wfPolicy (mergePolicies ps) \<and> Mode' (mergePolicies ps) \<noteq> ModeUnset \<and>
    DNSMode' (mergePolicies ps) \<noteq> DNSModeUnset"
proof -
  have wf: "wfPolicy p" if "p \<in> set ps" for p using assms that unmarshalPolicy_wf by blast
  have "wfPolicy (mergePolicies ps)" unfolding wfPolicy_def mergePolicies_fields
    by (intro conjI; rule firstSet_all) (auto simp: wfPolicy_def unsetInt_def dest: wf)
  then show ?thesis by (auto simp: mergePolicies_fields orDefault_def ModeDefault_def DNSModeDefault_def)
qed

theorem mergePolicies_wf_witness:
  "\<exists>p q. unmarshalPolicy (JObj [(''mode'', JStr ''ttl-d''), (''Port'', JNum ''8443'')]) = Inr p \<and>
     unmarshalPolicy (JObj [(''connect_timeout'', JStr ''5s''), (''num_segs'', JNum ''-1'')]) = Inr q \<and>
     wfPolicy (mergePolicies [p, q])"
proof -
  have "\<not> isl (unmarshalPolicy (JObj [(''mode'', JStr ''ttl-d''), (''Port'', JNum ''8443'')]))" by code_simp
  then obtain p where p: "unmarshalPolicy (JObj [(''mode'', JStr ''ttl-d''), (''Port'', JNum ''8443'')]) = Inr p"
    by (rule not_isl_obtain)
  have "\<not> isl (unmarshalPolicy (JObj [(''connect_timeout'', JStr ''5s''), (''num_segs'', JNum ''-1'')]))" by code_simp
  then obtain q where q: "unmarshalPolicy (JObj [(''connect_timeout'', JStr ''5s''), (''num_segs'', JNum ''-1'')]) = Inr q"
    by (rule not_isl_obtain)
  have "\<forall>r \<in> set [p, q]. \<exists>j. unmarshalPolicy j = Inr r" using p q by auto
  from mergePolicies_wf [OF this] p q show ?thesis by blast
qed

text \<open>The names of the modes and of the DNS modes round-trip: a JSON string decodes to a
  mode exactly if it is the rendering of that mode, and the unset mode has no name.\<close>

lemma modes_roundtrip:
  "(unmarshalMode (JStr s) = Inr m \<longleftrightarrow> m \<noteq> ModeUnset \<and> s = ModeString m) \<and>
   (unmarshalDNSMode (JStr s) = Inr d \<longleftrightarrow> d \<noteq> DNSModeUnset \<and> s = DNSModeString d)"
proof
  show "unmarshalMode (JStr s) = Inr m \<longleftrightarrow> m \<noteq> ModeUnset \<and> s = ModeString m"
    by (cases m) (auto simp: unmarshalMode_def jString_def)
  show "unmarshalDNSMode (JStr s) = Inr d \<longleftrightarrow> d \<noteq> DNSModeUnset \<and> s = DNSModeString d"
    by (cases d) (auto simp: unmarshalDNSMode_def jString_def)
qed

end
