(* ===== verification/Go_Net.thy ===== *)
theory Go_Net
  imports Go_Strings
begin

text \<open>
  The parts of the Go packages \<^verbatim>\<open>net/netip\<close> and \<^verbatim>\<open>net\<close> that the program uses: parsing and
  printing of addresses and prefixes, prefix membership, successor, and splitting and
  joining of host and port. The texts of the errors are abbreviated to their messages.
\<close>

section \<open>Addresses\<close>

datatype Addr = AddrInvalid | V4 "32 word" | V6 "128 word" string

fun Is4 :: "Addr \<Rightarrow> bool" where
  "Is4 (V4 _) = True"
| "Is4 _ = False"

fun Is6 :: "Addr \<Rightarrow> bool" where
  "Is6 (V6 _ _) = True"
| "Is6 _ = False"

fun Zone :: "Addr \<Rightarrow> string" where
  "Zone (V6 _ z) = z"
| "Zone _ = []"

definition bytesToInt :: "nat list \<Rightarrow> int" where
  "bytesToInt bs = foldl (\<lambda>a x. a * 256 + int x) 0 bs"

text \<open>The four and the sixteen bytes of an address, most significant first.\<close>

definition bytes4 :: "32 word \<Rightarrow> nat list" where
  "bytes4 a = map (\<lambda>i. unat (drop_bit (24 - 8 * i) a) mod 256) [0..<4]"

definition bytes16 :: "128 word \<Rightarrow> nat list" where
  "bytes16 a = map (\<lambda>i. unat (drop_bit (120 - 8 * i) a) mod 256) [0..<16]"

definition mapped :: "32 word \<Rightarrow> 128 word" where
  "mapped a = 0xFFFF00000000 OR ucast a"

definition isMapped :: "128 word \<Rightarrow> bool" where
  "isMapped a \<longleftrightarrow> drop_bit 32 a = 0xFFFF"

fun Unmap :: "Addr \<Rightarrow> Addr" where
  "Unmap (V6 a z) = (if isMapped a then V4 (ucast a) else V6 a z)"
| "Unmap a = a"

fun As16 :: "Addr \<Rightarrow> 128 word" where
  "As16 (V4 a) = mapped a"
| "As16 (V6 a z) = a"
| "As16 AddrInvalid = 0"

fun BitLen :: "Addr \<Rightarrow> nat" where
  "BitLen AddrInvalid = 0"
| "BitLen (V4 _) = 32"
| "BitLen (V6 _ _) = 128"

text \<open>The successor of the last address of a family is the invalid address.\<close>

fun Next :: "Addr \<Rightarrow> Addr" where
  "Next AddrInvalid = AddrInvalid"
| "Next (V4 a) = (if a + 1 = 0 then AddrInvalid else V4 (a + 1))"
| "Next (V6 a z) = (if a + 1 = 0 then AddrInvalid else V6 (a + 1) z)"

section \<open>Parsing\<close>

fun v4Fields :: "char option \<Rightarrow> nat \<Rightarrow> nat \<Rightarrow> nat list \<Rightarrow> string \<Rightarrow> nat list res" where
  "v4Fields prev val digLen fs [] =
     (if length fs < 3 then Inl (ErrNew ''IPv4 address too short'') else Inr (fs @ [val]))"
| "v4Fields prev val digLen fs (c # s) =
     (if isDigit c then
        (if digLen = 1 \<and> val = 0 then Inl (ErrNew ''IPv4 field has octet with leading zero'')
         else let v = val * 10 + digitVal c in
           if v > 255 then Inl (ErrNew ''IPv4 field has value >255'')
           else v4Fields (Some c) v (digLen + 1) fs s)
      else if c = CHR ''.'' then
        (if prev = None \<or> s = [] \<or> prev = Some (CHR ''.'')
         then Inl (ErrNew ''IPv4 field must have at least one digit'')
         else if length fs = 3 then Inl (ErrNew ''IPv4 address too long'')
         else v4Fields (Some c) 0 0 (fs @ [val]) s)
      else Inl (ErrNew ''unexpected character''))"

definition parseIPv4 :: "string \<Rightarrow> Addr res" where
  "parseIPv4 s = (case v4Fields None 0 0 [] s of
       Inl e \<Rightarrow> Inl e
     | Inr fs \<Rightarrow> Inr (V4 (word_of_int (bytesToInt fs))))"

definition hexVal :: "char \<Rightarrow> nat option" where
  "hexVal c = (if isDigit c then Some (digitVal c)
     else if 97 \<le> code c \<and> code c \<le> 102 then Some (code c - 87)
     else if 65 \<le> code c \<and> code c \<le> 70 then Some (code c - 55)
     else None)"

definition hexNum :: "string \<Rightarrow> nat" where
  "hexNum s = foldl (\<lambda>a c. a * 16 + (case hexVal c of None \<Rightarrow> 0 | Some d \<Rightarrow> d)) 0 s"

definition isHex :: "char \<Rightarrow> bool" where
  "isHex c \<longleftrightarrow> hexVal c \<noteq> None"

text \<open>The loop over the fields of an IPv6 address: the bytes read so far, the position of the
  ellipsis, and the text that remains.\<close>

function v6Loop :: "string \<Rightarrow> nat list \<Rightarrow> nat option \<Rightarrow> (nat list \<times> nat option \<times> string) res" where
  "v6Loop s ip ell =
     (if 16 \<le> length ip then Inr (ip, ell, s)
      else
        let hs = takeWhile isHex s; off = length hs in
        if off > 4 then Inl (ErrNew ''each group must have 4 or less digits'')
        else if off = 0 then Inl (ErrNew ''each colon-separated field must have at least one digit'')
        else if off < length s \<and> s ! off = CHR ''.'' then
          (if ell = None \<and> length ip \<noteq> 12
           then Inl (ErrNew ''embedded IPv4 address must replace the final 2 fields of the address'')
           else if length ip + 4 > 16
           then Inl (ErrNew ''too many hex fields to fit an embedded IPv4 at the end of the address'')
           else case v4Fields None 0 0 [] s of
             Inl e \<Rightarrow> Inl e
           | Inr fs \<Rightarrow> Inr (ip @ fs, ell, []))
        else
          let ip' = ip @ [hexNum hs div 256, hexNum hs mod 256]; s1 = drop off s in
          if s1 = [] then Inr (ip', ell, [])
          else if hd s1 \<noteq> CHR '':'' then Inl (ErrNew ''unexpected character, want colon'')
          else if length s1 = 1 then Inl (ErrNew ''colon must be followed by more characters'')
          else
            let s2 = drop 1 s1 in
            if hd s2 = CHR '':'' then
              (if ell \<noteq> None then Inl (ErrNew ''multiple :: in address'')
               else let s3 = drop 1 s2 in
                 if s3 = [] then Inr (ip', Some (length ip'), [])
                 else v6Loop s3 ip' (Some (length ip')))
            else v6Loop s2 ip' ell)"
  by pat_completeness auto
termination
  by (relation "measure (\<lambda>(s, ip, ell). 16 - length ip)") auto

declare v6Loop.simps [simp del]

definition parseIPv6 :: "string \<Rightarrow> Addr res" where
  "parseIPv6 inp =
     (let (s, zone, hasZone) = (case IndexByte inp (CHR ''%'') of
         None \<Rightarrow> (inp, [], False)
       | Some i \<Rightarrow> (take i inp, drop (i + 1) inp, True))
      in if hasZone \<and> zone = [] then Inl (ErrNew ''zone must be a non-empty string'')
         else
           let lead = HasPrefix s ''::''; s1 = (if lead then drop 2 s else s) in
           if lead \<and> s1 = [] then Inr (V6 0 zone)
           else case v6Loop s1 [] (if lead then Some 0 else None) of
             Inl e \<Rightarrow> Inl e
           | Inr (ip, ell, rest) \<Rightarrow>
               if rest \<noteq> [] then Inl (ErrNew ''trailing garbage after address'')
               else if length ip < 16 then
                 (case ell of
                    None \<Rightarrow> Inl (ErrNew ''address string too short'')
                  | Some e \<Rightarrow> Inr (V6 (word_of_int (bytesToInt
                      (take e ip @ replicate (16 - length ip) 0 @ drop e ip))) zone))
               else if ell \<noteq> None then Inl (ErrNew ''the :: must expand to at least one field of zeros'')
               else Inr (V6 (word_of_int (bytesToInt ip)) zone))"

fun scanAddr :: "string \<Rightarrow> char option" where
  "scanAddr [] = None"
| "scanAddr (c # s) = (if c \<in> set ''.:%'' then Some c else scanAddr s)"

definition ParseAddr :: "string \<Rightarrow> Addr res" where
  "ParseAddr s = (case scanAddr s of
       None \<Rightarrow> Inl (ErrNew ''unable to parse IP'')
     | Some c \<Rightarrow> if c = CHR ''.'' then parseIPv4 s
                 else if c = CHR '':'' then parseIPv6 s
                 else Inl (ErrNew ''missing IPv6 address''))"

section \<open>Printing\<close>

definition string4 :: "32 word \<Rightarrow> string" where
  "string4 a = JoinStr (map digitsOf (bytes4 a)) ''.''"

definition hexDigit :: "nat \<Rightarrow> char" where
  "hexDigit n = (if n < 10 then char_of (48 + n) else char_of (87 + n))"

fun hexOf :: "nat \<Rightarrow> string" where
  "hexOf n = (if n < 16 then [hexDigit n] else hexOf (n div 16) @ [hexDigit (n mod 16)])"

declare hexOf.simps [simp del]

definition groups :: "128 word \<Rightarrow> nat list" where
  "groups a = map (\<lambda>i. unat (drop_bit (112 - 16 * i) a) mod 65536) [0..<8]"

text \<open>The first longest run of at least two zero groups, as its bounds.\<close>

definition zeroRun :: "nat list \<Rightarrow> (nat \<times> nat) option" where
  "zeroRun gs = foldl (\<lambda>best i.
     let l = length (takeWhile (\<lambda>g. g = 0) (drop i gs)) in
     if 2 \<le> l \<and> (case best of None \<Rightarrow> True | Some (s, e) \<Rightarrow> e - s < l) then Some (i, i + l) else best)
     None [0..<length gs]"

definition string6 :: "128 word \<Rightarrow> string" where
  "string6 a = (let gs = groups a in case zeroRun gs of
       None \<Rightarrow> JoinStr (map hexOf gs) '':''
     | Some (s, e) \<Rightarrow> JoinStr (map hexOf (take s gs)) '':'' @ ''::'' @ JoinStr (map hexOf (drop e gs)) '':'')"

fun AddrString :: "Addr \<Rightarrow> string" where
  "AddrString AddrInvalid = ''invalid IP''"
| "AddrString (V4 a) = string4 a"
| "AddrString (V6 a z) =
     (if isMapped a then ''::ffff:'' @ string4 (ucast a) else string6 a) @ (if z = [] then [] else ''%'' @ z)"

section \<open>Prefixes\<close>

record Prefix =
  pAddr :: Addr
  pBits :: nat

definition ParsePrefix :: "string \<Rightarrow> Prefix res" where
  "ParsePrefix s = (case LastIndexByte s (CHR ''/'') of
       None \<Rightarrow> Inl (ErrNew ''no slash'')
     | Some i \<Rightarrow> (case ParseAddr (take i s) of
         Inl e \<Rightarrow> Inl e
       | Inr ip \<Rightarrow>
           if Is6 ip \<and> Zone ip \<noteq> [] then Inl (ErrNew ''IPv6 zones cannot be present in a prefix'')
           else
             let bitsStr = drop (i + 1) s in
             if length bitsStr > 1 \<and> (code (hd bitsStr) < 49 \<or> 57 < code (hd bitsStr))
             then Inl (ErrNew ''bad bits after slash'')
             else case Atoi bitsStr of
               None \<Rightarrow> Inl (ErrNew ''bad bits after slash'')
             | Some bits \<Rightarrow>
                 if bits < 0 \<or> bits > (if Is6 ip then 128 else 32) then Inl (ErrNew ''prefix length out of range'')
                 else Inr \<lparr>pAddr = ip, pBits = nat bits\<rparr>))"

definition Contains :: "Prefix \<Rightarrow> Addr \<Rightarrow> bool" where
  "Contains p ip = (case (pAddr p, ip) of
       (V4 a, V4 x) \<Rightarrow> drop_bit (32 - pBits p) (a XOR x) = 0
     | (V6 a _, V6 x z) \<Rightarrow> z = [] \<and> drop_bit (128 - pBits p) (a XOR x) = 0
     | _ \<Rightarrow> False)"

definition Masked :: "Prefix \<Rightarrow> Addr" where
  "Masked p = (case pAddr p of
       V4 a \<Rightarrow> V4 (push_bit (32 - pBits p) (drop_bit (32 - pBits p) a))
     | V6 a _ \<Rightarrow> V6 (push_bit (128 - pBits p) (drop_bit (128 - pBits p) a)) []
     | AddrInvalid \<Rightarrow> AddrInvalid)"

section \<open>Package net\<close>

text \<open>A \<^verbatim>\<open>net.IP\<close> in its sixteen-byte form.\<close>

definition ParseIP :: "string \<Rightarrow> 128 word option" where
  "ParseIP s = (case ParseAddr s of
       Inl _ \<Rightarrow> None
     | Inr ip \<Rightarrow> if Zone ip \<noteq> [] then None else Some (As16 ip))"

definition To4 :: "128 word \<Rightarrow> 32 word option" where
  "To4 a = (if isMapped a then Some (ucast a) else None)"

definition IPString :: "128 word \<Rightarrow> string" where
  "IPString a = (case To4 a of Some x \<Rightarrow> string4 x | None \<Rightarrow> string6 a)"

definition addrErr :: "string \<Rightarrow> string \<Rightarrow> err" where
  "addrErr a why = ErrNew (''address '' @ a @ '': '' @ why)"

definition missingPort :: string where "missingPort = ''missing port in address''"
definition tooManyColons :: string where "tooManyColons = ''too many colons in address''"

definition SplitHostPort :: "string \<Rightarrow> (string \<times> string) res" where
  "SplitHostPort hp = (case LastIndexByte hp (CHR '':'') of
       None \<Rightarrow> Inl (addrErr hp missingPort)
     | Some i \<Rightarrow>
         bind_res
           (if HasPrefix hp ''['' then
              (case IndexByte hp (CHR '']'') of
                 None \<Rightarrow> Inl (addrErr hp ''missing ']' in address'')
               | Some ende \<Rightarrow>
                   if ende + 1 = length hp then Inl (addrErr hp missingPort)
                   else if ende + 1 = i then Inr (take (ende - 1) (drop 1 hp), 1, ende + 1)
                   else if hp ! (ende + 1) = CHR '':'' then Inl (addrErr hp tooManyColons)
                   else Inl (addrErr hp missingPort))
            else
              (if CHR '':'' \<in> set (take i hp) then Inl (addrErr hp tooManyColons)
               else Inr (take i hp, 0, 0)))
           (\<lambda>(host, j, k).
              if CHR ''['' \<in> set (drop j hp) then Inl (addrErr hp ''unexpected '[' in address'')
              else if CHR '']'' \<in> set (drop k hp) then Inl (addrErr hp ''unexpected ']' in address'')
              else Inr (host, drop (i + 1) hp)))"

definition JoinHostPort :: "string \<Rightarrow> string \<Rightarrow> string" where
  "JoinHostPort host port =
     (if CHR '':'' \<in> set host then ''['' @ host @ '']:'' @ port else host @ '':'' @ port)"

text \<open>\<^verbatim>\<open>net.ParseCIDR\<close>: the network address, in four or in sixteen bytes.\<close>

datatype netIP = IP4 "32 word" | IP16 "128 word"

definition dtoi :: "string \<Rightarrow> nat option" where
  "dtoi s = (case decimal s of None \<Rightarrow> None | Some n \<Rightarrow> if n < 0xFFFFFF then Some n else None)"

definition ParseCIDR :: "string \<Rightarrow> netIP option" where
  "ParseCIDR s = (case IndexByte s (CHR ''/'') of
       None \<Rightarrow> None
     | Some i \<Rightarrow> (case (ParseAddr (take i s), dtoi (drop (i + 1) s)) of
         (Inr ip, Some n) \<Rightarrow>
           if Zone ip \<noteq> [] \<or> n > BitLen ip then None
           else (case ip of
               V4 a \<Rightarrow> Some (IP4 (push_bit (32 - n) (drop_bit (32 - n) a)))
             | V6 a _ \<Rightarrow> Some (IP16 (push_bit (128 - n) (drop_bit (128 - n) a)))
             | AddrInvalid \<Rightarrow> None)
       | _ \<Rightarrow> None))"

text \<open>\<^verbatim>\<open>netip.ParseAddrPort\<close>.\<close>

definition ParseAddrPort :: "string \<Rightarrow> (Addr \<times> nat) res" where
  "ParseAddrPort s = (case LastIndexByte s (CHR '':'') of
       None \<Rightarrow> Inl (ErrNew ''not an ip:port'')
     | Some i \<Rightarrow>
         let ip = take i s; port = drop (i + 1) s; v6 = HasPrefix ip ''['' in
         if ip = [] then Inl (ErrNew ''no IP'')
         else if port = [] then Inl (ErrNew ''no port'')
         else if v6 \<and> (length ip < 2 \<or> last ip \<noteq> CHR '']'') then Inl (ErrNew ''missing ]'')
         else case ParseUint port 16 of
           None \<Rightarrow> Inl (ErrNew ''invalid port'')
         | Some n \<Rightarrow> (case ParseAddr (if v6 then butlast (drop 1 ip) else ip) of
             Inl e \<Rightarrow> Inl e
           | Inr a \<Rightarrow>
               if v6 \<and> Is4 a then Inl (ErrNew ''square brackets can only be used with IPv6 addresses'')
               else if \<not> v6 \<and> Is6 a then Inl (ErrNew ''IPv6 addresses must be surrounded by square brackets'')
               else Inr (a, n)))"

section \<open>Round trips\<close>

lemma digit_not_sep:
  "isDigit c \<Longrightarrow> c \<noteq> CHR ''.'' \<and> c \<noteq> CHR '':'' \<and> c \<noteq> CHR ''%'' \<and> c \<noteq> CHR ''/''"
  by (auto simp: isDigit_def code_def)

lemma v4Fields_digits:
  assumes "n < 256"
  shows "\<exists>c d. isDigit c \<and> v4Fields prev 0 0 fs (digitsOf n @ rest) = v4Fields (Some c) n d fs rest"
proof -
  note dg = isDigit_digit
  consider "n < 10" | "10 \<le> n" "n < 100" | "100 \<le> n" by linarith
  then show ?thesis
  proof cases
    case 1
    then have "digitsOf n = [char_of (48 + n)]" by (subst digitsOf.simps) simp
    then show ?thesis using dg [OF 1] assms by auto
  next
    case 2
    then have "n div 10 < 10" by auto
    with 2 have d: "digitsOf n = [char_of (48 + n div 10), char_of (48 + n mod 10)]"
      by (subst digitsOf.simps, subst digitsOf.simps) simp
    have "n div 10 < 10" "n div 10 \<noteq> 0" using 2 by auto
    then show ?thesis using dg [of "n div 10"] dg [of "n mod 10"] assms unfolding d by auto
  next
    case 3
    have e: "n div 10 div 10 = n div 100" by (simp add: div_mult2_eq [symmetric])
    have l: "\<not> n div 10 < 10" "n div 100 < 10" using 3 assms by auto
    have "digitsOf (n div 100) = [char_of (48 + n div 100)]" using l by (subst digitsOf.simps) simp
    moreover have "digitsOf (n div 10) = digitsOf (n div 100) @ [char_of (48 + n div 10 mod 10)]"
      using l e by (subst digitsOf.simps) simp
    moreover have "digitsOf n = digitsOf (n div 10) @ [char_of (48 + n mod 10)]"
      using 3 by (subst digitsOf.simps) simp
    ultimately have d: "digitsOf n = [char_of (48 + n div 100), char_of (48 + n div 10 mod 10), char_of (48 + n mod 10)]"
      by simp
    have "n div 100 < 10" "n div 100 \<noteq> 0" using 3 assms by auto
    moreover have "n div 100 * 10 + n div 10 mod 10 = n div 10" using div_mult_mod_eq [of "n div 10" 10] e by simp
    moreover have "n div 10 * 10 + n mod 10 = n" "n div 10 \<le> 255" "n div 10 \<noteq> 0" using assms 3 by auto
    ultimately show ?thesis
      using dg [of "n div 100"] dg [of "n div 10 mod 10"] dg [of "n mod 10"] assms unfolding d by auto
  qed
qed

lemma v4Fields_dot: "isDigit c \<Longrightarrow> rest \<noteq> [] \<Longrightarrow> length fs < 3 \<Longrightarrow>
    v4Fields (Some c) v d fs (CHR ''.'' # rest) = v4Fields (Some (CHR ''.'')) 0 0 (fs @ [v]) rest"
  by (auto simp: isDigit_def code_def)

lemma digitsOf_ne [simp]: "digitsOf n \<noteq> []"
  by (subst digitsOf.simps) simp

lemma v4Fields_string:
  assumes "w < 256" "x < 256" "y < 256" "z < 256"
  shows "v4Fields None 0 0 [] (digitsOf w @ ''.'' @ digitsOf x @ ''.'' @ digitsOf y @ ''.'' @ digitsOf z) =
    Inr [w, x, y, z]"
proof -
  let ?r3 = "''.'' @ digitsOf z" let ?r2 = "''.'' @ digitsOf y @ ?r3" let ?r1 = "''.'' @ digitsOf x @ ?r2"
  obtain c1 d1 where 1: "isDigit c1" "v4Fields None 0 0 [] (digitsOf w @ ?r1) = v4Fields (Some c1) w d1 [] ?r1"
    using v4Fields_digits [OF assms(1), of None "[]" ?r1] by blast
  obtain c2 d2 where 2: "isDigit c2"
    "v4Fields (Some (CHR ''.'')) 0 0 [w] (digitsOf x @ ?r2) = v4Fields (Some c2) x d2 [w] ?r2"
    using v4Fields_digits [OF assms(2), of "Some (CHR ''.'')" "[w]" ?r2] by blast
  obtain c3 d3 where 3: "isDigit c3"
    "v4Fields (Some (CHR ''.'')) 0 0 [w, x] (digitsOf y @ ?r3) = v4Fields (Some c3) y d3 [w, x] ?r3"
    using v4Fields_digits [OF assms(3), of "Some (CHR ''.'')" "[w, x]" ?r3] by blast
  obtain c4 d4 where 4: "v4Fields (Some (CHR ''.'')) 0 0 [w, x, y] (digitsOf z @ []) = v4Fields (Some c4) z d4 [w, x, y] []"
    using v4Fields_digits [OF assms(4), of "Some (CHR ''.'')" "[w, x, y]" "[]"] by blast
  have dot: "v4Fields (Some c) v d fs (''.'' @ rest) = v4Fields (Some (CHR ''.'')) 0 0 (fs @ [v]) rest"
    if "isDigit c" "rest \<noteq> []" "length fs < 3" for c v d fs rest
    using v4Fields_dot [OF that] by simp
  have "v4Fields None 0 0 [] (digitsOf w @ ?r1) = v4Fields (Some c1) w d1 [] ?r1" by (rule 1)
  also have "\<dots> = v4Fields (Some c2) x d2 [w] ?r2" using 2(2) by (subst dot [OF 1(1)]) simp_all
  also have "\<dots> = v4Fields (Some c3) y d3 [w, x] ?r3" using 3(2) by (subst dot [OF 2(1)]) simp_all
  also have "\<dots> = v4Fields (Some c4) z d4 [w, x, y] []" using 4 by (subst dot [OF 3(1)]) simp_all
  finally show ?thesis by simp
qed

lemma scanAddr_digits: "list_all isDigit s \<Longrightarrow> scanAddr (s @ CHR ''.'' # rest) = Some (CHR ''.'')"
  by (induction s) (auto dest: digit_not_sep)

lemma bytes4_eq: "bytes4 a = [unat a div 16777216 mod 256, unat a div 65536 mod 256, unat a div 256 mod 256, unat a mod 256]"
proof -
  have "unat (drop_bit k a) = unat a div 2 ^ k" for k
    by (simp only: unat_drop_bit_eq) (simp only: drop_bit_eq_div)
  then show ?thesis by (simp add: bytes4_def upt_rec)
qed

lemma bytesToInt_nat: "bytesToInt bs = int (foldl (\<lambda>a x. a * 256 + x) 0 bs)"
  by (induction bs rule: rev_induct) (simp_all add: bytesToInt_def)

lemma word_bytes4: "word_of_int (bytesToInt (bytes4 a)) = a"
proof -
  let ?n = "unat a"
  have lt: "?n < 4294967296" using unsigned_less [of a, where 'a = nat] by simp
  have "((?n div 16777216 mod 256 * 256 + ?n div 65536 mod 256) * 256 + ?n div 256 mod 256) * 256 + ?n mod 256 = ?n"
  proof -
    have d: "?n div 65536 = ?n div 256 div 256" "?n div 16777216 = ?n div 256 div 256 div 256"
      by (simp_all add: div_mult2_eq [symmetric])
    have "?n div 256 div 256 div 256 mod 256 = ?n div 256 div 256 div 256"
      using lt by (simp add: div_mult2_eq [symmetric])
    then show ?thesis unfolding d
      using div_mult_mod_eq [of ?n 256] div_mult_mod_eq [of "?n div 256" 256] div_mult_mod_eq [of "?n div 256 div 256" 256]
      by presburger
  qed
  then have "foldl (\<lambda>a x. a * 256 + x) 0 (bytes4 a) = ?n" by (simp only: bytes4_eq foldl.simps mult_zero_left add_0)
  then show ?thesis by (simp add: bytesToInt_nat)
qed

lemma ParseAddr_string4: "ParseAddr (string4 a) = Inr (V4 a)"
proof -
  have s: "string4 a = digitsOf (bytes4 a ! 0) @ ''.'' @ digitsOf (bytes4 a ! 1) @ ''.'' @
      digitsOf (bytes4 a ! 2) @ ''.'' @ digitsOf (bytes4 a ! 3)"
    by (simp add: string4_def JoinStr_def bytes4_eq)
  have b: "bytes4 a = [bytes4 a ! 0, bytes4 a ! 1, bytes4 a ! 2, bytes4 a ! 3]" by (simp add: bytes4_eq)
  have "v4Fields None 0 0 [] (string4 a) = Inr (bytes4 a)"
    unfolding s by (subst (5) b, rule v4Fields_string) (simp_all add: bytes4_eq)
  then have "parseIPv4 (string4 a) = Inr (V4 a)" by (simp add: parseIPv4_def word_bytes4)
  moreover have "scanAddr (string4 a) = Some (CHR ''.'')"
    using scanAddr_digits [OF digitsOf_digits] by (simp add: s)
  ultimately show ?thesis by (simp add: ParseAddr_def)
qed

lemma string4_inj: "string4 a = string4 b \<longleftrightarrow> a = b"
  by (metis ParseAddr_string4 Addr.inject(1) sum.inject(2))

lemma LastIndexByte_last: "c \<notin> set zs \<Longrightarrow> LastIndexByte (ys @ c # zs) c = Some (length ys)"
proof -
  assume c: "c \<notin> set zs"
  obtain i where i: "LastIndexByte (ys @ c # zs) c = Some i" by (cases "LastIndexByte (ys @ c # zs) c") auto
  note s = LastIndexByte_Some [OF i]
  have "i = length ys"
  proof (rule ccontr)
    assume "i \<noteq> length ys"
    then consider "i < length ys" | "length ys < i" by linarith
    then show False
    proof cases
      case 1
      then show False using s(3) by simp
    next
      case 2
      then obtain j where "i = length ys + Suc j" by (metis add_Suc_right less_iff_Suc_add)
      then show False using s(1,2) c by (simp add: nth_append) (metis nth_mem)
    qed
  qed
  with i show ?thesis by simp
qed

lemma IndexByte_first: "c \<notin> set ys \<Longrightarrow> IndexByte (ys @ c # zs) c = Some (length ys)"
  by (induction ys) auto

lemma SplitHostPort_JoinHostPort:
  assumes "CHR '':'' \<notin> set port" "CHR ''['' \<notin> set (host @ port)" "CHR '']'' \<notin> set (host @ port)"
  shows "SplitHostPort (JoinHostPort host port) = Inr (host, port)"
proof (cases "CHR '':'' \<in> set host")
  case False
  then have j: "JoinHostPort host port = host @ CHR '':'' # port" by (simp add: JoinHostPort_def)
  have "\<not> HasPrefix (host @ CHR '':'' # port) ''[''" using assms(2) by (cases host) (auto simp: HasPrefix_def)
  then show ?thesis unfolding j
    using assms False by (simp add: SplitHostPort_def LastIndexByte_last)
next
  case True
  then have j: "JoinHostPort host port = (''['' @ host @ '']'') @ CHR '':'' # port" by (simp add: JoinHostPort_def)
  have "IndexByte ((''['' @ host @ '']'') @ CHR '':'' # port) (CHR '']'') = Some (length (''['' @ host))"
    using IndexByte_first [of "CHR '']''" "''['' @ host" "CHR '':'' # port"] assms(3) by simp
  moreover have "LastIndexByte ((''['' @ host @ '']'') @ CHR '':'' # port) (CHR '':'') = Some (length (''['' @ host @ '']''))"
    by (rule LastIndexByte_last) (rule assms(1))
  ultimately show ?thesis unfolding j using assms by (simp add: SplitHostPort_def HasPrefix_def)
qed

end
