(* ===== verification/Addr_Trie.thy ===== *)
theory Addr_Trie
  imports Go_Net
begin

text \<open>
  The package \<^verbatim>\<open>addrtrie\<close>: the domain matcher (\<^verbatim>\<open>domain.go\<close>) and the two address tries
  (\<^verbatim>\<open>ipv4.go\<close>, \<^verbatim>\<open>ipv6.go\<close>).

  A node owns its children, so the pointer structures are trees and the models are
  datatypes; a value and its \<^verbatim>\<open>has\<close> flag are an option. The walk over a domain from its
  last label to its first is recursion on the part of the domain not yet consumed
  (\<^verbatim>\<open>pattern[:i+1]\<close> of the code).

  What the nodes of both tries have in common is the locale \<open>trie_node\<close>: reading and
  writing a child and a value. Inside it, paths of labels are looked up and updated, and
  the search for the longest prefix that holds a value is specified. It is interpreted on
  the nodes of both tries. The properties compare each matcher, built by any sequence of
  insertions, with its rules as a list.
\<close>

section \<open>The domain matcher\<close>

datatype 'a labelNode = LabelNode
  (lchildren: "string \<Rightarrow> 'a labelNode option") (exactValue: "'a option") (wildcardValue: "'a option")

definition newLabelNode :: "'a labelNode" where
  "newLabelNode = LabelNode (\<lambda>_. None) None None"

record 'a DomainMatcher = dmRoot :: "'a labelNode"

definition NewDomainMatcher :: "'a DomainMatcher" where
  "NewDomainMatcher = \<lparr>dmRoot = newLabelNode\<rparr>"

definition setLabelChild :: "'a labelNode \<Rightarrow> string \<Rightarrow> 'a labelNode \<Rightarrow> 'a labelNode" where
  "setLabelChild n l c = LabelNode ((lchildren n)(l \<mapsto> c)) (exactValue n) (wildcardValue n)"

text \<open>The last step of \<^verbatim>\<open>insertPattern\<close>: the node reached takes the value.\<close>

definition setLabelValue :: "'a \<Rightarrow> bool \<Rightarrow> bool \<Rightarrow> 'a labelNode \<Rightarrow> 'a labelNode" where
  "setLabelValue v isWildcard isExact n =
     LabelNode (lchildren n) (if isExact then Some v else exactValue n)
       (if isWildcard then Some v else wildcardValue n)"

lemma LastIndexByte_less: "LastIndexByte xs c = Some i \<Longrightarrow> i < length xs"
  by (rule LastIndexByte_Some)

function insertLoop :: "'a \<Rightarrow> bool \<Rightarrow> bool \<Rightarrow> 'a labelNode \<Rightarrow> string \<Rightarrow> 'a labelNode" where
  "insertLoop v isWildcard isExact node p =
     (if p = [] then setLabelValue v isWildcard isExact node
      else let (label, rest) = (case LastIndexByte p (CHR ''.'') of
               None \<Rightarrow> (p, [])
             | Some j \<Rightarrow> (drop (j + 1) p, take j p));
               child = (case lchildren node label of None \<Rightarrow> newLabelNode | Some c \<Rightarrow> c)
           in setLabelChild node label (insertLoop v isWildcard isExact child rest))"
  by pat_completeness auto
termination
  by (relation "measure (\<lambda>(_, _, _, _, p). length p)") (auto split: option.splits dest: LastIndexByte_less)

declare insertLoop.simps [simp del]

definition insertPattern :: "'a DomainMatcher \<Rightarrow> string \<Rightarrow> 'a \<Rightarrow> bool \<Rightarrow> bool \<Rightarrow> 'a DomainMatcher" where
  "insertPattern m pattern v isWildcard isExact =
     m\<lparr>dmRoot := insertLoop v isWildcard isExact (dmRoot m) pattern\<rparr>"

definition Add :: "'a DomainMatcher \<Rightarrow> string \<Rightarrow> 'a \<Rightarrow> 'a DomainMatcher res" where
  "Add m pattern v =
     (if pattern = ''*'' then Inr (m\<lparr>dmRoot := setLabelValue v True False (dmRoot m)\<rparr>)
      else if \<not> ContainsStr pattern ''.'' then Inl (ErrNew (''invalid pattern: '' @ pattern))
      else if HasPrefix pattern ''*.'' then Inr (insertPattern m (drop 2 pattern) v True False)
      else if HasPrefix pattern ''*'' then Inr (insertPattern m (drop 1 pattern) v True True)
      else Inr (insertPattern m pattern v False True))"

text \<open>The loop of \<^verbatim>\<open>Find\<close> returns \<^verbatim>\<open>fullyMatched\<close>, the last node and the candidate.\<close>

function findLoop :: "'a labelNode \<Rightarrow> 'a option \<Rightarrow> string \<Rightarrow> bool \<times> 'a labelNode \<times> 'a option" where
  "findLoop node cand p =
     (if p = [] then (True, node, cand)
      else let j = LastIndexByte p (CHR ''.'');
               label = (case j of None \<Rightarrow> p | Some j \<Rightarrow> drop (j + 1) p)
           in case lchildren node label of
                None \<Rightarrow> (False, node, cand)
              | Some child \<Rightarrow>
                  let cand' = (if j \<noteq> None \<and> wildcardValue child \<noteq> None then wildcardValue child else cand)
                  in case j of None \<Rightarrow> findLoop child cand' [] | Some j \<Rightarrow> findLoop child cand' (take j p))"
  by pat_completeness auto
termination
  by (relation "measure (\<lambda>(_, _, p). length p)") (auto dest!: LastIndexByte_less [OF sym])

declare findLoop.simps [simp del]

definition FindDomain :: "'a DomainMatcher \<Rightarrow> string \<Rightarrow> 'a option" where
  "FindDomain m domain =
     (let (fullyMatched, node, cand) = findLoop (dmRoot m) None domain in
      if fullyMatched \<and> exactValue node \<noteq> None then exactValue node
      else if cand \<noteq> None then cand
      else wildcardValue (dmRoot m))"

section \<open>The address tries\<close>

datatype 'a bitNode = BitNode (bchildren: "bool \<Rightarrow> 'a bitNode option") (bvalue: "'a option")

definition newBitNode :: "'a bitNode" where
  "newBitNode = BitNode (\<lambda>_. None) None"

definition setBitChild :: "'a bitNode \<Rightarrow> bool \<Rightarrow> 'a bitNode \<Rightarrow> 'a bitNode" where
  "setBitChild n b c = BitNode ((bchildren n)(b \<mapsto> c)) (bvalue n)"

definition setBitValue :: "'a \<Rightarrow> 'a bitNode \<Rightarrow> 'a bitNode" where
  "setBitValue v n = BitNode (bchildren n) (Some v)"

definition getBit32 :: "32 word \<Rightarrow> nat \<Rightarrow> bool" where
  "getBit32 v i = (drop_bit (31 - i) v AND 1 = 1)"

record uint128 = hi :: "64 word"  lo :: "64 word"

definition getBit128 :: "uint128 \<Rightarrow> nat \<Rightarrow> bool" where
  "getBit128 v i = (if i < 64 then drop_bit (63 - i) (hi v) AND 1 = 1
                    else drop_bit (63 - (i - 64)) (lo v) AND 1 = 1)"

definition parseIPv4OrCIDR :: "string \<Rightarrow> (32 word \<times> nat) res" where
  "parseIPv4OrCIDR s = (case ParsePrefix s of
       Inr p \<Rightarrow> (case pAddr p of
           V4 a \<Rightarrow> if pBits p > 32 then Inl (ErrNew ''non-canonical mask'') else Inr (a, pBits p)
         | _ \<Rightarrow> Inl (ErrNew ''non-IPv4 mask''))
     | Inl _ \<Rightarrow> (case ParseAddr s of
           Inr a \<Rightarrow> (case Unmap a of
               V4 ip \<Rightarrow> Inr (ip, 32)
             | _ \<Rightarrow> Inl (ErrNew ''invalid IPv4 address''))
         | Inl _ \<Rightarrow> Inl (ErrNew ''invalid IPv4 address or CIDR'')))"

definition toUint128 :: "128 word \<Rightarrow> uint128" where
  "toUint128 a = \<lparr>hi = ucast (drop_bit 64 a), lo = ucast a\<rparr>"

definition parseIPv6OrCIDR :: "string \<Rightarrow> (uint128 \<times> nat) res" where
  "parseIPv6OrCIDR s = (case ParsePrefix s of
       Inr p \<Rightarrow> (let addr = Unmap (pAddr p) in
           if Is4 addr then Inl (ErrNew ''non-IPv6 mask'')
           else if pBits p > 128 then Inl (ErrNew ''non-canonical mask'')
           else Inr (toUint128 (As16 addr), pBits p))
     | Inl _ \<Rightarrow> (case ParseAddr s of
           Inr a \<Rightarrow> (let addr = Unmap a in
               if Is4 addr then Inl (ErrNew ''invalid IPv6 address'')
               else Inr (toUint128 (As16 addr), 128))
         | Inl _ \<Rightarrow> Inl (ErrNew ''invalid IPv6 address or CIDR'')))"

text \<open>The loop \<^verbatim>\<open>for i := range bitLen\<close> of \<^verbatim>\<open>Insert\<close>, the bit of step \<open>i\<close> given by \<open>gb\<close>.\<close>

fun insertBits :: "(nat \<Rightarrow> bool) \<Rightarrow> 'a \<Rightarrow> 'a bitNode \<Rightarrow> nat \<Rightarrow> nat \<Rightarrow> 'a bitNode" where
  "insertBits gb v cur i 0 = setBitValue v cur"
| "insertBits gb v cur i (Suc left) =
     (let child = (case bchildren cur (gb i) of None \<Rightarrow> newBitNode | Some c \<Rightarrow> c)
      in setBitChild cur (gb i) (insertBits gb v child (i + 1) left))"

text \<open>The loop of \<^verbatim>\<open>Find\<close> and the check after it; the accumulator is \<^verbatim>\<open>matched, exists\<close>.\<close>

fun findBits :: "(nat \<Rightarrow> bool) \<Rightarrow> 'a bitNode \<Rightarrow> 'a option \<Rightarrow> nat \<Rightarrow> nat \<Rightarrow> 'a option" where
  "findBits gb cur acc i 0 = (if bvalue cur \<noteq> None then bvalue cur else acc)"
| "findBits gb cur acc i (Suc left) =
     (let acc' = (if bvalue cur \<noteq> None then bvalue cur else acc) in
      case bchildren cur (gb i) of
        None \<Rightarrow> (if bvalue cur \<noteq> None then bvalue cur else acc')
      | Some c \<Rightarrow> findBits gb c acc' (i + 1) left)"

record 'a IPv4Trie = root4 :: "'a bitNode"

definition NewIPv4Trie :: "'a IPv4Trie" where
  "NewIPv4Trie = \<lparr>root4 = newBitNode\<rparr>"

definition InsertIPv4 :: "'a IPv4Trie \<Rightarrow> string \<Rightarrow> 'a \<Rightarrow> 'a IPv4Trie res" where
  "InsertIPv4 t prefix v =
     (if prefix = ''*'' then Inr (t\<lparr>root4 := setBitValue v (root4 t)\<rparr>)
      else bind_res (parseIPv4OrCIDR prefix) (\<lambda>(ip, bitLen).
        Inr (t\<lparr>root4 := insertBits (getBit32 ip) v (root4 t) 0 bitLen\<rparr>)))"

definition FindIPv4 :: "'a IPv4Trie \<Rightarrow> string \<Rightarrow> 'a option" where
  "FindIPv4 t ipStr = (case ParseAddr ipStr of
       Inl _ \<Rightarrow> None
     | Inr a \<Rightarrow> (case Unmap a of
           V4 ip \<Rightarrow> (let r = findBits (getBit32 ip) (root4 t) None 0 32 in
             if r = None \<and> bvalue (root4 t) \<noteq> None then bvalue (root4 t) else r)
         | _ \<Rightarrow> None))"

record 'a IPv6Trie = root6 :: "'a bitNode"

definition NewIPv6Trie :: "'a IPv6Trie" where
  "NewIPv6Trie = \<lparr>root6 = newBitNode\<rparr>"

definition InsertIPv6 :: "'a IPv6Trie \<Rightarrow> string \<Rightarrow> 'a \<Rightarrow> 'a IPv6Trie res" where
  "InsertIPv6 t prefix v =
     (if prefix = ''*'' then Inr (t\<lparr>root6 := setBitValue v (root6 t)\<rparr>)
      else bind_res (parseIPv6OrCIDR prefix) (\<lambda>(ip, bitLen).
        Inr (t\<lparr>root6 := insertBits (getBit128 ip) v (root6 t) 0 bitLen\<rparr>)))"

definition FindIPv6 :: "'a IPv6Trie \<Rightarrow> string \<Rightarrow> 'a option" where
  "FindIPv6 t ipStr = (case ParseAddr ipStr of
       Inl _ \<Rightarrow> None
     | Inr a \<Rightarrow> (let addr = Unmap a in
         if Is4 addr then None
         else let r = findBits (getBit128 (toUint128 (As16 addr))) (root6 t) None 0 128 in
              if r = None \<and> bvalue (root6 t) \<noteq> None then bvalue (root6 t) else r))"

section \<open>Paths in a trie\<close>

text \<open>The value at the longest prefix of a path that has one.\<close>

fun best :: "('l list \<Rightarrow> 'v option) \<Rightarrow> 'l list \<Rightarrow> 'v option" where
  "best g [] = g []"
| "best g (l # p) = (case best (\<lambda>q. g (l # q)) p of Some v \<Rightarrow> Some v | None \<Rightarrow> g [])"

lemma best_None: "best g p = None \<longleftrightarrow> (\<forall>n \<le> length p. g (take n p) = None)"
proof (induction p arbitrary: g)
  case (Cons l p)
  have "(\<forall>n \<le> length (l # p). g (take n (l # p)) = None) \<longleftrightarrow> g [] = None \<and> (\<forall>n \<le> length p. g (l # take n p) = None)"
    by (auto simp: take_Cons split: nat.splits)
  moreover have "best (\<lambda>q. g (l # q)) p = None \<longleftrightarrow> (\<forall>n \<le> length p. g (l # take n p) = None)" by (rule Cons)
  ultimately show ?case by (cases "best (\<lambda>q. g (l # q)) p") simp_all
qed simp

lemma best_Some:
  "best g p = Some v \<longleftrightarrow>
     (\<exists>n \<le> length p. g (take n p) = Some v \<and> (\<forall>m \<le> length p. n < m \<longrightarrow> g (take m p) = None))"
proof (induction p arbitrary: g v)
  case (Cons l p)
  show ?case (is "_ \<longleftrightarrow> ?R")
  proof (cases "best (\<lambda>q. g (l # q)) p")
    case None
    then have n: "g (take m (l # p)) = None" if "m \<le> length (l # p)" "0 < m" for m
      using that by (cases m) (simp_all add: best_None)
    have "?R \<longleftrightarrow> g [] = Some v"
    proof
      assume ?R
      then obtain k where k: "k \<le> length (l # p)" "g (take k (l # p)) = Some v" by blast
      then have "k = 0" using n [of k] by (cases k) auto
      with k(2) show "g [] = Some v" by simp
    qed (use n in \<open>auto intro: exI [of _ 0]\<close>)
    with None show ?thesis by simp
  next
    case (Some w)
    obtain n where n: "n \<le> length p" "g (l # take n p) = Some w" "\<forall>m \<le> length p. n < m \<longrightarrow> g (l # take m p) = None"
      using Some [unfolded Cons] by auto
    have "?R \<longleftrightarrow> w = v"
    proof
      assume ?R
      then obtain k where k: "k \<le> Suc (length p)" "g (take k (l # p)) = Some v"
        "\<forall>m \<le> Suc (length p). k < m \<longrightarrow> g (take m (l # p)) = None" by auto
      have "k = Suc n"
      proof (rule ccontr)
        assume "k \<noteq> Suc n"
        then consider "k < Suc n" | "Suc n < k" by linarith
        then show False
        proof cases
          case 1
          then show False using k(3) n(1,2) by (metis Suc_le_mono option.distinct(1) take_Suc_Cons)
        next
          case 2
          then obtain j where "k = Suc j" "n < j" by (cases k) auto
          then show False using n(3) k(1,2) by simp
        qed
      qed
      with k(2) n(2) show "w = v" by simp
    next
      assume "w = v"
      moreover have "\<forall>m \<le> length (l # p). Suc n < m \<longrightarrow> g (take m (l # p)) = None"
        using n(3) by (auto simp: take_Cons split: nat.splits)
      ultimately show ?R using n(1,2) by (intro exI [of _ "Suc n"]) simp
    qed
    with Some show ?thesis by simp
  qed
qed simp

lemma best_cong: "(\<And>n. n \<le> length p \<Longrightarrow> g (take n p) = h (take n p)) \<Longrightarrow> best g p = best h p"
proof (induction p arbitrary: g h)
  case (Cons l p)
  have "best (\<lambda>q. g (l # q)) p = best (\<lambda>q. h (l # q)) p"
    by (rule Cons.IH) (use Cons.prems [of "Suc _"] in simp)
  with Cons.prems [of 0] show ?case by (simp split: option.split)
qed simp

locale trie_node =
  fixes fresh :: 't
    and child :: "'t \<Rightarrow> 'l \<Rightarrow> 't option"
    and setChild :: "'t \<Rightarrow> 'l \<Rightarrow> 't \<Rightarrow> 't"
    and val :: "'t \<Rightarrow> 'v"
  assumes child_fresh: "child fresh l = None"
    and child_set: "child (setChild t l c) = (child t)(l \<mapsto> c)"
    and val_set: "val (setChild t l c) = val t"
begin

fun cell :: "'t \<Rightarrow> 'l list \<Rightarrow> 'v" where
  "cell t [] = val t"
| "cell t (l # p) = (case child t l of None \<Rightarrow> val fresh | Some c \<Rightarrow> cell c p)"

fun put :: "('t \<Rightarrow> 't) \<Rightarrow> 't \<Rightarrow> 'l list \<Rightarrow> 't" where
  "put f t [] = f t"
| "put f t (l # p) = setChild t l (put f (case child t l of None \<Rightarrow> fresh | Some c \<Rightarrow> c) p)"

lemma cell_fresh [simp]: "cell fresh p = val fresh"
  by (cases p) (simp_all add: child_fresh)

lemma cell_put:
  assumes c: "\<And>t. child (f t) = child t" and v: "\<And>t. val (f t) = g (val t)"
  shows "cell (put f t p) q = (if q = p then g (cell t p) else cell t q)"
proof (induction p arbitrary: t q)
  case Nil
  show ?case by (cases q) (simp_all add: c v)
next
  case (Cons l p)
  show ?case by (cases q) (auto simp: Cons child_set val_set split: option.split)
qed

text \<open>The search down a path that remembers the last value met.\<close>

fun walk :: "('v \<Rightarrow> 'a option) \<Rightarrow> 't \<Rightarrow> 'a option \<Rightarrow> 'l list \<Rightarrow> 'a option" where
  "walk sel t acc [] = (if sel (val t) \<noteq> None then sel (val t) else acc)"
| "walk sel t acc (l # p) =
     (let acc' = (if sel (val t) \<noteq> None then sel (val t) else acc) in
      case child t l of None \<Rightarrow> acc' | Some c \<Rightarrow> walk sel c acc' p)"

lemma walk_best:
  assumes "sel (val fresh) = None"
  shows "walk sel t acc p = (case best (\<lambda>q. sel (cell t q)) p of Some v \<Rightarrow> Some v | None \<Rightarrow> acc)"
proof (induction p arbitrary: t acc)
  case (Cons l p)
  have "best (\<lambda>q. None) p = (None :: 'a option)" for p :: "'l list" by (induction p) simp_all
  then show ?case using assms by (auto simp: Cons Let_def split: option.split)
qed (auto split: option.split)

end

interpretation label: trie_node newLabelNode lchildren setLabelChild "\<lambda>n. (exactValue n, wildcardValue n)"
  by unfold_locales (simp_all add: newLabelNode_def setLabelChild_def)

interpretation bits: trie_node newBitNode bchildren setBitChild bvalue
  by unfold_locales (simp_all add: newBitNode_def setBitChild_def)

section \<open>Longest prefix match of the address tries\<close>

lemma map_upt_Suc: "map f [i..<i + Suc n] = f i # map f [i + 1..<i + 1 + n]"
  using upt_conv_Cons [of i "i + Suc n"] by simp

lemma insertBits_put: "insertBits gb v t i n = bits.put (setBitValue v) t (map gb [i..<i + n])"
proof (induction n arbitrary: t i)
  case (Suc n)
  show ?case unfolding map_upt_Suc by (simp add: Suc)
qed simp

lemma findBits_walk: "findBits gb t acc i n = bits.walk id t acc (map gb [i..<i + n])"
proof (induction n arbitrary: t acc i)
  case (Suc n)
  show ?case unfolding map_upt_Suc by (auto simp: Suc Let_def split: option.split)
qed simp

lemma bvalue_new [simp]: "bvalue newBitNode = None"
  by (simp add: newBitNode_def)

lemma findBits_best: "findBits gb t None 0 n = best (bits.cell t) (map gb [0..<n])"
  by (simp add: findBits_walk bits.walk_best split: option.split)

section \<open>Rules in a trie\<close>

text \<open>Rules are inserted one after another, each at a path (or nowhere). A lookup then sees at a
  path the last rule inserted there, and the search for the longest prefix finds the rule
  that decides: it applies, no rule that applies has a longer path, and none with a path of
  this length is later.\<close>

definition lastAt :: "('r \<Rightarrow> 'l list option) \<Rightarrow> ('r \<Rightarrow> 'v) \<Rightarrow> 'r list \<Rightarrow> 'l list \<Rightarrow> 'v option" where
  "lastAt pathOf valOf rs q = fold (\<lambda>r w. if pathOf r = Some q then Some (valOf r) else w) rs None"

definition applies :: "('r \<Rightarrow> 'l list option) \<Rightarrow> 'l list \<Rightarrow> 'r \<Rightarrow> bool" where
  "applies pathOf p r \<longleftrightarrow> (case pathOf r of Some q \<Rightarrow> take (length q) p = q | None \<Rightarrow> False)"

definition pathLen :: "('r \<Rightarrow> 'l list option) \<Rightarrow> 'r \<Rightarrow> nat" where
  "pathLen pathOf r = (case pathOf r of Some q \<Rightarrow> length q | None \<Rightarrow> 0)"

definition decides :: "('r \<Rightarrow> bool) \<Rightarrow> ('r \<Rightarrow> nat) \<Rightarrow> 'r list \<Rightarrow> nat \<Rightarrow> bool" where
  "decides appl len rs i \<longleftrightarrow> i < length rs \<and> appl (rs ! i) \<and>
     (\<forall>j < length rs. appl (rs ! j) \<longrightarrow> len (rs ! j) < len (rs ! i) \<or> len (rs ! j) = len (rs ! i) \<and> j \<le> i)"

lemma decides_less: "decides appl len rs i \<Longrightarrow> i < length rs"
  by (simp add: decides_def)

lemma decides_cong:
  "(\<And>r. r \<in> set rs \<Longrightarrow> appl r = appl' r) \<Longrightarrow> (\<And>r. r \<in> set rs \<Longrightarrow> len r = len' r) \<Longrightarrow>
   decides appl len rs i = decides appl' len' rs i"
  unfolding decides_def by (auto cong: conj_cong)

lemma decides_map: "decides appl len (map f rs) i = decides (\<lambda>r. appl (f r)) (\<lambda>r. len (f r)) rs i"
  unfolding decides_def by (auto cong: conj_cong)

lemma lastAt_Nil [simp]: "lastAt pathOf valOf [] q = None"
  by (simp add: lastAt_def)

lemma lastAt_snoc [simp]:
  "lastAt pathOf valOf (rs @ [r]) q = (if pathOf r = Some q then Some (valOf r) else lastAt pathOf valOf rs q)"
  by (simp add: lastAt_def)

lemma lastAt_Some:
  "lastAt pathOf valOf rs q = Some v \<longleftrightarrow>
     (\<exists>i < length rs. pathOf (rs ! i) = Some q \<and> valOf (rs ! i) = v \<and> (\<forall>j < length rs. pathOf (rs ! j) = Some q \<longrightarrow> j \<le> i))"
    (is "?L rs \<longleftrightarrow> ?R rs")
proof (induction rs rule: rev_induct)
  case (snoc r rs)
  have ub: "(\<forall>j < length (rs @ [r]). pathOf ((rs @ [r]) ! j) = Some q \<longrightarrow> j \<le> i) \<longleftrightarrow>
      (\<forall>j < length rs. pathOf (rs ! j) = Some q \<longrightarrow> j \<le> i) \<and> (pathOf r = Some q \<longrightarrow> length rs \<le> i)" for i
    by (auto simp: nth_append less_Suc_eq)
  show ?case
  proof (cases "pathOf r = Some q")
    case True
    have "?R (rs @ [r]) \<longleftrightarrow> valOf r = v"
      unfolding ub using True by (auto simp: nth_append less_Suc_eq intro!: exI [of _ "length rs"])
    then show ?thesis by (simp add: True)
  next
    case False
    have "?R (rs @ [r]) \<longleftrightarrow> ?R rs"
      unfolding ub using False by (auto simp: nth_append less_Suc_eq)
    then show ?thesis using snoc False by simp
  qed
qed simp

lemma lastAt_None: "lastAt pathOf valOf rs q = None \<longleftrightarrow> (\<forall>r \<in> set rs. pathOf r \<noteq> Some q)"
  by (induction rs rule: rev_induct) auto

lemma applies_len: "applies pathOf p r \<Longrightarrow> pathOf r = Some (take (pathLen pathOf r) p) \<and> pathLen pathOf r \<le> length p"
  by (auto simp: applies_def pathLen_def split: option.splits) (metis length_take min.cobounded1)

lemma applies_take: "n \<le> length p \<Longrightarrow> pathOf r = Some (take n p) \<longleftrightarrow> applies pathOf p r \<and> pathLen pathOf r = n"
  by (auto simp: applies_def pathLen_def split: option.splits)

lemma best_lastAt:
  "best (lastAt pathOf valOf rs) p = Some v \<longleftrightarrow>
     (\<exists>i. decides (applies pathOf p) (pathLen pathOf) rs i \<and> valOf (rs ! i) = v)" (is "?L \<longleftrightarrow> ?R")
proof
  assume ?L
  then obtain n where n: "n \<le> length p" "lastAt pathOf valOf rs (take n p) = Some v"
    "\<forall>m \<le> length p. n < m \<longrightarrow> lastAt pathOf valOf rs (take m p) = None" unfolding best_Some by blast
  obtain i where i: "i < length rs" "applies pathOf p (rs ! i)" "pathLen pathOf (rs ! i) = n" "valOf (rs ! i) = v"
    "\<forall>j < length rs. applies pathOf p (rs ! j) \<and> pathLen pathOf (rs ! j) = n \<longrightarrow> j \<le> i"
    using n(2) unfolding lastAt_Some applies_take [OF n(1)] by blast
  have "pathLen pathOf (rs ! j) < n \<or> pathLen pathOf (rs ! j) = n \<and> j \<le> i"
    if j: "j < length rs" "applies pathOf p (rs ! j)" for j
  proof -
    note l = applies_len [OF j(2)]
    have "lastAt pathOf valOf rs (take (pathLen pathOf (rs ! j)) p) \<noteq> None"
      unfolding lastAt_None using l j(1) by (metis nth_mem)
    then have "\<not> n < pathLen pathOf (rs ! j)" using n(3) l by auto
    moreover have "pathLen pathOf (rs ! j) = n \<Longrightarrow> j \<le> i" using i(5) j by simp
    ultimately show ?thesis by linarith
  qed
  then have "decides (applies pathOf p) (pathLen pathOf) rs i" using i by (simp add: decides_def)
  with i(4) show ?R by blast
next
  assume ?R
  then obtain i where i: "decides (applies pathOf p) (pathLen pathOf) rs i" "valOf (rs ! i) = v" by blast
  let ?n = "pathLen pathOf (rs ! i)"
  have "applies pathOf p (rs ! i)" using i(1) by (simp add: decides_def)
  then have l: "?n \<le> length p" by (simp add: applies_len)
  have "lastAt pathOf valOf rs (take ?n p) = Some v"
    unfolding lastAt_Some applies_take [OF l]
  proof (intro exI [of _ i] conjI allI impI)
    show "j \<le> i" if "j < length rs" "applies pathOf p (rs ! j) \<and> pathLen pathOf (rs ! j) = ?n" for j
      using that i(1) by (auto simp: decides_def)
  qed (use i in \<open>simp_all add: decides_def\<close>)
  moreover have "lastAt pathOf valOf rs (take m p) = None" if "m \<le> length p" "?n < m" for m
    unfolding lastAt_None applies_take [OF that(1)]
  proof
    fix r assume "r \<in> set rs"
    then obtain j where "j < length rs" "r = rs ! j" by (auto simp: in_set_conv_nth)
    then show "\<not> (applies pathOf p r \<and> pathLen pathOf r = m)" using i(1) that(2) by (auto simp: decides_def)
  qed
  ultimately show ?L unfolding best_Some using l by blast
qed

text \<open>Rules of an address trie: the bits of a prefix, its length, the value.\<close>

type_synonym 'v rule = "(nat \<Rightarrow> bool) \<times> nat \<times> 'v"

definition covers :: "(nat \<Rightarrow> bool) \<Rightarrow> 'v rule \<Rightarrow> bool" where
  "covers gb r \<longleftrightarrow> (\<forall>k < fst (snd r). fst r k = gb k)"

definition insertRules :: "'v rule list \<Rightarrow> 'v bitNode \<Rightarrow> 'v bitNode" where
  "insertRules = fold (\<lambda>(gb, n, v) t. insertBits gb v t 0 n)"

definition bitPath :: "'v rule \<Rightarrow> bool list option" where
  "bitPath r = Some (map (fst r) [0..<fst (snd r)])"

lemma cell_insertRules:
  "bits.cell (insertRules rs newBitNode) q = lastAt bitPath (\<lambda>r. snd (snd r)) rs q"
proof (induction rs rule: rev_induct)
  case (snoc r rs)
  obtain g n v where r: "r = (g, n, v)" by (cases r) auto
  have "bits.cell (bits.put (setBitValue v) (insertRules rs newBitNode) (map g [0..<n])) q =
      (if q = map g [0..<n] then Some v else bits.cell (insertRules rs newBitNode) q)"
    by (rule bits.cell_put) (simp_all add: setBitValue_def)
  then show ?case using snoc by (auto simp: r insertRules_def insertBits_put bitPath_def)
qed (simp add: insertRules_def)

lemma applies_bitPath: "fst (snd r) \<le> w \<Longrightarrow> applies bitPath (map gb [0..<w]) r = covers gb r"
  by (auto simp: applies_def bitPath_def covers_def list_eq_iff_nth_eq)

lemma findBits_decides:
  assumes w: "\<And>r. r \<in> set rs \<Longrightarrow> fst (snd r) \<le> w"
  shows "findBits gb (insertRules rs newBitNode) None 0 w = Some v \<longleftrightarrow>
    (\<exists>i. decides (covers gb) (\<lambda>r. fst (snd r)) rs i \<and> snd (snd (rs ! i)) = v)"
proof -
  have "decides (applies bitPath (map gb [0..<w])) (pathLen bitPath) rs i = decides (covers gb) (\<lambda>r. fst (snd r)) rs i" for i
    by (rule decides_cong) (simp_all add: applies_bitPath w pathLen_def bitPath_def)
  moreover have "bits.cell (insertRules rs newBitNode) = lastAt bitPath (\<lambda>r. snd (snd r)) rs"
    by (rule ext) (rule cell_insertRules)
  ultimately show ?thesis by (simp only: findBits_best best_lastAt)
qed

section \<open>The tries as longest-prefix matchers\<close>

lemma bit_test: "drop_bit k v AND 1 = (1 :: 'w::len word) \<longleftrightarrow> bit v k"
  by (simp add: and_one_eq bit_iff_odd_drop_bit odd_iff_mod_2_eq_one)

lemma getBit32_bit: "getBit32 v i = bit v (31 - i)"
  by (simp add: getBit32_def bit_test)

lemma getBit128_bit: "i < 128 \<Longrightarrow> getBit128 (toUint128 a) i = bit a (127 - i)"
  by (auto simp: getBit128_def bit_test toUint128_def bit_ucast_iff bit_drop_bit_eq)

lemma same_prefix:
  fixes p q :: "'w::len word"
  assumes "n \<le> LENGTH('w)"
  shows "(\<forall>k < n. bit p (LENGTH('w) - 1 - k) = bit q (LENGTH('w) - 1 - k)) \<longleftrightarrow>
    drop_bit (LENGTH('w) - n) p = drop_bit (LENGTH('w) - n) q" (is "?L \<longleftrightarrow> ?R")
proof
  assume ?L
  then have l: "\<And>k. k < n \<Longrightarrow> bit p (LENGTH('w) - 1 - k) = bit q (LENGTH('w) - 1 - k)" by blast
  show ?R
  proof (rule bit_eqI)
    fix i
    show "bit (drop_bit (LENGTH('w) - n) p) i = bit (drop_bit (LENGTH('w) - n) q) i"
    proof (cases "i < n")
      case True
      have "LENGTH('w) - 1 - (n - 1 - i) = LENGTH('w) - n + i" using True assms by simp
      with l [of "n - 1 - i"] True show ?thesis by (simp add: bit_drop_bit_eq)
    next
      case False
      then have "LENGTH('w) \<le> LENGTH('w) - n + i" using assms by simp
      then show ?thesis by (auto simp: bit_drop_bit_eq dest: bit_imp_le_length)
    qed
  qed
next
  assume r: ?R
  show ?L
  proof (intro allI impI)
    fix k assume k: "k < n"
    have "LENGTH('w) - 1 - k = LENGTH('w) - n + (n - 1 - k)" using k assms by simp
    then show "bit p (LENGTH('w) - 1 - k) = bit q (LENGTH('w) - 1 - k)"
      using arg_cong [OF r, of "\<lambda>x. bit x (n - 1 - k)"] by (simp add: bit_drop_bit_eq)
  qed
qed

lemma findBits_root: "findBits gb t None 0 n = None \<Longrightarrow> bvalue t = None"
  unfolding findBits_best best_None by (auto dest: spec [of _ 0])

text \<open>What both tables offer a client: an insertion that adds one prefix to the trie and a lookup
  that searches the bits of an address.\<close>

locale prefix_table =
  fixes new :: 't
    and insert :: "'t \<Rightarrow> string \<Rightarrow> 'v \<Rightarrow> 't res"
    and lookup :: "'t \<Rightarrow> string \<Rightarrow> 'v option"
    and root :: "'t \<Rightarrow> 'v bitNode"
    and prefixOf :: "string \<Rightarrow> ((nat \<Rightarrow> bool) \<times> nat) option"
    and addrOf :: "string \<Rightarrow> (nat \<Rightarrow> bool) option"
    and width :: nat
  assumes root_new: "root new = newBitNode"
    and insert_root: "insert t s v = Inr t' \<Longrightarrow>
      \<exists>gb n. prefixOf s = Some (gb, n) \<and> n \<le> width \<and> root t' = insertBits gb v (root t) 0 n"
    and lookup_find: "addrOf q = Some gb \<Longrightarrow> lookup t q = findBits gb (root t) None 0 width"
begin

definition ruleOf :: "string \<times> 'v \<Rightarrow> 'v rule" where
  "ruleOf r = (case prefixOf (fst r) of Some (gb, n) \<Rightarrow> (gb, n, snd r) | None \<Rightarrow> (\<lambda>_. False, 0, snd r))"

lemma insert_all:
  assumes "foldRes (\<lambda>(s, v) t. insert t s v) rules t = Inr t'"
  shows "root t' = insertRules (map ruleOf rules) (root t)"
    "r \<in> set rules \<Longrightarrow> \<exists>gb n. prefixOf (fst r) = Some (gb, n) \<and> n \<le> width"
proof -
  have "root t' = insertRules (map ruleOf rules) (root t) \<and>
    (\<forall>r \<in> set rules. \<exists>gb n. prefixOf (fst r) = Some (gb, n) \<and> n \<le> width)"
    using assms
  proof (induction rules arbitrary: t)
    case (Cons r rules)
    obtain s v where r: "r = (s, v)" by force
    obtain t1 where t1: "insert t s v = Inr t1" "foldRes (\<lambda>(s, v) t. insert t s v) rules t1 = Inr t'"
      using Cons.prems by (auto simp: r res_iff)
    from Cons.IH [OF t1(2)] insert_root [OF t1(1)] show ?case
      by (auto simp: r insertRules_def ruleOf_def)
  qed (simp add: insertRules_def)
  then show "root t' = insertRules (map ruleOf rules) (root t)"
    "r \<in> set rules \<Longrightarrow> \<exists>gb n. prefixOf (fst r) = Some (gb, n) \<and> n \<le> width" by blast+
qed

lemma lookup_decides:
  assumes "foldRes (\<lambda>(s, v) t. insert t s v) rules new = Inr t" "addrOf q = Some gb"
  shows "lookup t q = Some v \<longleftrightarrow> 
    (\<exists>i. decides (\<lambda>r. covers gb (ruleOf r)) (\<lambda>r. fst (snd (ruleOf r))) rules i \<and> snd (rules ! i) = v)"
proof -
  have w: "fst (snd r) \<le> width" if "r \<in> set (map ruleOf rules)" for r
  proof -
    obtain x where x: "x \<in> set rules" "r = ruleOf x" using \<open>r \<in> set (map ruleOf rules)\<close> by auto
    obtain gb n where "prefixOf (fst x) = Some (gb, n)" "n \<le> width" using insert_all(2) [OF assms(1) x(1)] by blast
    then show ?thesis by (simp add: x ruleOf_def)
  qed
  have v: "snd (snd (ruleOf r)) = snd r" for r by (simp add: ruleOf_def split: option.split prod.split)
  have "lookup t q = Some v \<longleftrightarrow>
      (\<exists>i. decides (covers gb) (\<lambda>r. fst (snd r)) (map ruleOf rules) i \<and> snd (snd (map ruleOf rules ! i)) = v)"
    using findBits_decides [of "map ruleOf rules" width gb v, OF w]
    by (simp add: lookup_find [OF assms(2)] insert_all(1) [OF assms(1)] root_new)
  moreover have "snd (snd (map ruleOf rules ! i)) = snd (rules ! i)" if "i < length rules" for i
    using that by (simp add: v)
  ultimately show ?thesis unfolding decides_map using decides_less by metis
qed

end

text \<open>The prefix a pattern stands for (\<open>*\<close> is the empty prefix), and whether it covers an address.\<close>

definition prefix4 :: "string \<Rightarrow> (32 word \<times> nat) res" where
  "prefix4 s = (if s = ''*'' then Inr (0, 0) else parseIPv4OrCIDR s)"

definition prefix6 :: "string \<Rightarrow> (uint128 \<times> nat) res" where
  "prefix6 s = (if s = ''*'' then Inr (toUint128 0, 0) else parseIPv6OrCIDR s)"

definition covers4 :: "string \<Rightarrow> 32 word \<Rightarrow> bool" where
  "covers4 s ip \<longleftrightarrow> (case prefix4 s of
       Inr (p, n) \<Rightarrow> drop_bit (32 - n) p = drop_bit (32 - n) ip
     | Inl _ \<Rightarrow> False)"

definition covers6 :: "string \<Rightarrow> 128 word \<Rightarrow> bool" where
  "covers6 s ip \<longleftrightarrow> (case prefix6 s of
       Inr (p, n) \<Rightarrow> (\<exists>a. p = toUint128 a \<and> drop_bit (128 - n) a = drop_bit (128 - n) ip)
     | Inl _ \<Rightarrow> False)"

definition len4 :: "string \<Rightarrow> nat" where
  "len4 s = (case prefix4 s of Inr (p, n) \<Rightarrow> n | Inl _ \<Rightarrow> 0)"

definition len6 :: "string \<Rightarrow> nat" where
  "len6 s = (case prefix6 s of Inr (p, n) \<Rightarrow> n | Inl _ \<Rightarrow> 0)"

definition bits4 :: "string \<Rightarrow> ((nat \<Rightarrow> bool) \<times> nat) option" where
  "bits4 s = (case prefix4 s of Inr (p, n) \<Rightarrow> Some (getBit32 p, n) | Inl _ \<Rightarrow> None)"

definition bits6 :: "string \<Rightarrow> ((nat \<Rightarrow> bool) \<times> nat) option" where
  "bits6 s = (case prefix6 s of Inr (p, n) \<Rightarrow> Some (getBit128 p, n) | Inl _ \<Rightarrow> None)"

definition addr4 :: "string \<Rightarrow> 32 word option" where
  "addr4 q = (case ParseAddr q of Inr a \<Rightarrow> (case Unmap a of V4 ip \<Rightarrow> Some ip | _ \<Rightarrow> None) | Inl _ \<Rightarrow> None)"

definition addr6 :: "string \<Rightarrow> 128 word option" where
  "addr6 q = (case ParseAddr q of
       Inr a \<Rightarrow> if Is4 (Unmap a) then None else Some (As16 (Unmap a))
     | Inl _ \<Rightarrow> None)"

lemma parseIPv4OrCIDR_len: "parseIPv4OrCIDR s = Inr (p, n) \<Longrightarrow> n \<le> 32"
  by (auto simp: parseIPv4OrCIDR_def split: sum.splits Addr.splits if_splits)

lemma parseIPv6OrCIDR_len: "parseIPv6OrCIDR s = Inr (p, n) \<Longrightarrow> n \<le> 128 \<and> (\<exists>a. p = toUint128 a)"
  by (auto simp: parseIPv6OrCIDR_def Let_def split: sum.splits if_splits)

interpretation table4: prefix_table NewIPv4Trie InsertIPv4 FindIPv4 root4 bits4
  "\<lambda>q. map_option getBit32 (addr4 q)" 32
proof unfold_locales
  fix t :: "'v IPv4Trie" and t' s v
  show "InsertIPv4 t s v = Inr t' \<Longrightarrow>
      \<exists>gb n. bits4 s = Some (gb, n) \<and> n \<le> 32 \<and> root4 t' = insertBits gb v (root4 t) 0 n"
    by (auto simp: InsertIPv4_def bits4_def prefix4_def res_iff split: if_splits intro: parseIPv4OrCIDR_len)
next
  fix t :: "'v IPv4Trie" and q gb
  assume "map_option getBit32 (addr4 q) = Some gb"
  then show "FindIPv4 t q = findBits gb (root4 t) None 0 32"
    using findBits_root [of gb "root4 t" 32]
    by (auto simp: FindIPv4_def addr4_def Let_def split: sum.splits Addr.splits)
qed (simp add: NewIPv4Trie_def)

interpretation table6: prefix_table NewIPv6Trie InsertIPv6 FindIPv6 root6 bits6
  "\<lambda>q. map_option (\<lambda>a. getBit128 (toUint128 a)) (addr6 q)" 128
proof unfold_locales
  fix t :: "'v IPv6Trie" and t' s v
  show "InsertIPv6 t s v = Inr t' \<Longrightarrow>
      \<exists>gb n. bits6 s = Some (gb, n) \<and> n \<le> 128 \<and> root6 t' = insertBits gb v (root6 t) 0 n"
    by (auto simp: InsertIPv6_def bits6_def prefix6_def res_iff split: if_splits dest: parseIPv6OrCIDR_len)
next
  fix t :: "'v IPv6Trie" and q gb
  assume "map_option (\<lambda>a. getBit128 (toUint128 a)) (addr6 q) = Some gb"
  then show "FindIPv6 t q = findBits gb (root6 t) None 0 128"
    using findBits_root [of gb "root6 t" 128]
    by (auto simp: FindIPv6_def addr6_def Let_def split: sum.splits if_splits)
qed (simp add: NewIPv6Trie_def)

lemma covers_table4:
  assumes "bits4 (fst r) = Some (gb, n)" "n \<le> 32"
  shows "covers (getBit32 ip) (table4.ruleOf r) = covers4 (fst r) ip" "fst (snd (table4.ruleOf r)) = len4 (fst r)"
proof -
  obtain p where p: "prefix4 (fst r) = Inr (p, n)" "gb = getBit32 p"
    using assms(1) by (auto simp: bits4_def split: sum.splits)
  show "covers (getBit32 ip) (table4.ruleOf r) = covers4 (fst r) ip" "fst (snd (table4.ruleOf r)) = len4 (fst r)"
    using assms p same_prefix [of n p ip]
    by (simp_all add: covers_def table4.ruleOf_def covers4_def len4_def getBit32_bit)
qed

lemma toUint128_inj: "toUint128 a = toUint128 b \<longleftrightarrow> a = b"
proof
  assume "toUint128 a = toUint128 b"
  then have "bit a (127 - i) = bit b (127 - i)" if "i < 128" for i
    using getBit128_bit [OF that] by metis
  then have b: "bit a (127 - i) = bit b (127 - i)" if "i < 128" for i using that by blast
  have "bit a n = bit b n" if "n < 128" for n using b [of "127 - n"] that by simp
  then show "a = b" by (intro bit_word_eqI) simp
qed simp

lemma covers_table6:
  assumes "bits6 (fst r) = Some (gb, n)" "n \<le> 128"
  shows "covers (getBit128 (toUint128 ip)) (table6.ruleOf r) = covers6 (fst r) ip"
    "fst (snd (table6.ruleOf r)) = len6 (fst r)"
proof -
  obtain u where u: "prefix6 (fst r) = Inr (u, n)" "gb = getBit128 u"
    using assms(1) by (auto simp: bits6_def split: sum.splits)
  then obtain p where p: "u = toUint128 p"
    using parseIPv6OrCIDR_len by (auto simp: prefix6_def split: if_splits)
  show "covers (getBit128 (toUint128 ip)) (table6.ruleOf r) = covers6 (fst r) ip"
    "fst (snd (table6.ruleOf r)) = len6 (fst r)"
    using assms u p same_prefix [of n p ip]
    by (simp_all add: covers_def table6.ruleOf_def covers6_def len6_def getBit128_bit toUint128_inj)
qed

text \<open>C10. The IPv4 table is a longest-prefix matcher. After any sequence of successful
  insertions (patterns are addresses, CIDR prefixes or \<open>*\<close>) a lookup of an IPv4 address, also
  one written in IPv4-mapped form, returns \<open>v\<close> exactly if some rule with value \<open>v\<close> covers the
  address, is at least as long as every other rule that does, and is the last inserted among
  those of its length.\<close>

theorem FindIPv4_longest_prefix:
  assumes "foldRes (\<lambda>(s, v) t. InsertIPv4 t s v) rules NewIPv4Trie = Inr t"
    and "ParseAddr q = Inr a" "Unmap a = V4 ip"
  shows "FindIPv4 t q = Some v \<longleftrightarrow>
    (\<exists>i. decides (\<lambda>r. covers4 (fst r) ip) (\<lambda>r. len4 (fst r)) rules i \<and> snd (rules ! i) = v)"
proof -
  have q: "map_option getBit32 (addr4 q) = Some (getBit32 ip)" using assms(2,3) by (simp add: addr4_def)
  have r: "covers (getBit32 ip) (table4.ruleOf r) = covers4 (fst r) ip"
    "fst (snd (table4.ruleOf r)) = len4 (fst r)" if r: "r \<in> set rules" for r
  proof -
    obtain gb n where "bits4 (fst r) = Some (gb, n)" "n \<le> 32"
      using table4.insert_all(2) [OF assms(1) r] by blast
    from covers_table4 [OF this] show "covers (getBit32 ip) (table4.ruleOf r) = covers4 (fst r) ip"
      "fst (snd (table4.ruleOf r)) = len4 (fst r)" by simp_all
  qed
  have "decides (\<lambda>r. covers (getBit32 ip) (table4.ruleOf r)) (\<lambda>r. fst (snd (table4.ruleOf r))) rules i =
      decides (\<lambda>r. covers4 (fst r) ip) (\<lambda>r. len4 (fst r)) rules i" for i
    by (rule decides_cong) (rule r, assumption)+
  then show ?thesis unfolding table4.lookup_decides [OF assms(1) q] by simp
qed

theorem FindIPv4_longest_prefix_witness:
  "\<exists>t. FindIPv4 t ''::ffff:10.1.2.3'' = Some (2 :: nat) \<and>
     foldRes (\<lambda>(s, v) t. InsertIPv4 t s v) [(''*'', 1), (''10.1.0.0/16'', 2), (''10.0.0.0/8'', 3)] NewIPv4Trie = Inr t"
proof -
  let ?rules = "[(''*'', 1), (''10.1.0.0/16'', 2), (''10.0.0.0/8'', 3)] :: (string \<times> nat) list"
  have p: "prefix4 ''*'' = Inr (0, 0)" "prefix4 ''10.1.0.0/16'' = Inr (0x0A010000, 16)"
    "prefix4 ''10.0.0.0/8'' = Inr (0x0A000000, 8)"
    by code_simp+
  have a: "ParseAddr ''::ffff:10.1.2.3'' = Inr (V6 0xFFFF0A010203 '''')" by code_simp
  have u: "Unmap (V6 0xFFFF0A010203 '''') = V4 0x0A010203" by code_simp
  obtain t where t: "foldRes (\<lambda>(s, v) t. InsertIPv4 t s v) ?rules NewIPv4Trie = Inr t"
    using p by (auto simp: InsertIPv4_def prefix4_def)
  have "FindIPv4 t ''::ffff:10.1.2.3'' = Some 2"
    unfolding FindIPv4_longest_prefix [OF t a u]
    by (intro exI [of _ 1]) (simp add: decides_def covers4_def len4_def p less_Suc_eq numeral_3_eq_3)
  with t show ?thesis by blast
qed

text \<open>C11. The IPv6 table is a longest-prefix matcher in the same sense.\<close>

theorem FindIPv6_longest_prefix:
  assumes "foldRes (\<lambda>(s, v) t. InsertIPv6 t s v) rules NewIPv6Trie = Inr t"
    and "ParseAddr q = Inr a" "\<not> Is4 (Unmap a)"
  shows "FindIPv6 t q = Some v \<longleftrightarrow>
    (\<exists>i. decides (\<lambda>r. covers6 (fst r) (As16 (Unmap a))) (\<lambda>r. len6 (fst r)) rules i \<and> snd (rules ! i) = v)"
proof -
  have q: "map_option (\<lambda>a. getBit128 (toUint128 a)) (addr6 q) = Some (getBit128 (toUint128 (As16 (Unmap a))))"
    using assms(2,3) by (simp add: addr6_def)
  have r: "covers (getBit128 (toUint128 (As16 (Unmap a)))) (table6.ruleOf r) = covers6 (fst r) (As16 (Unmap a))"
    "fst (snd (table6.ruleOf r)) = len6 (fst r)" if r: "r \<in> set rules" for r
  proof -
    obtain gb n where "bits6 (fst r) = Some (gb, n)" "n \<le> 128"
      using table6.insert_all(2) [OF assms(1) r] by blast
    from covers_table6 [OF this] show "covers (getBit128 (toUint128 (As16 (Unmap a)))) (table6.ruleOf r) = covers6 (fst r) (As16 (Unmap a))"
      "fst (snd (table6.ruleOf r)) = len6 (fst r)" by simp_all
  qed
  have "decides (\<lambda>r. covers (getBit128 (toUint128 (As16 (Unmap a)))) (table6.ruleOf r)) (\<lambda>r. fst (snd (table6.ruleOf r))) rules i =
      decides (\<lambda>r. covers6 (fst r) (As16 (Unmap a))) (\<lambda>r. len6 (fst r)) rules i" for i
    by (rule decides_cong) (rule r, assumption)+
  then show ?thesis unfolding table6.lookup_decides [OF assms(1) q] by simp
qed

theorem FindIPv6_longest_prefix_witness:
  "\<exists>t. FindIPv6 t ''2001:db8::1'' = Some (3 :: nat) \<and>
     foldRes (\<lambda>(s, v) t. InsertIPv6 t s v) [(''*'', 1), (''2001:db8::/32'', 2), (''2001:db8::/32'', 3)] NewIPv6Trie = Inr t"
proof -
  let ?rules = "[(''*'', 1), (''2001:db8::/32'', 2), (''2001:db8::/32'', 3)] :: (string \<times> nat) list"
  have p: "prefix6 ''*'' = Inr (toUint128 0, 0)"
    "prefix6 ''2001:db8::/32'' = Inr (toUint128 0x20010DB8000000000000000000000000, 32)"
    by code_simp+
  have a: "ParseAddr ''2001:db8::1'' = Inr (V6 0x20010DB8000000000000000000000001 '''')" by code_simp
  have u: "\<not> isMapped 0x20010DB8000000000000000000000001" by code_simp
  then have n: "\<not> Is4 (Unmap (V6 0x20010DB8000000000000000000000001 ''''))" by simp
  obtain t where t: "foldRes (\<lambda>(s, v) t. InsertIPv6 t s v) ?rules NewIPv6Trie = Inr t"
    using p by (auto simp: InsertIPv6_def prefix6_def)
  have "FindIPv6 t ''2001:db8::1'' = Some 3"
    unfolding FindIPv6_longest_prefix [OF t a n]
    by (intro exI [of _ 2]) (simp add: decides_def covers6_def len6_def p toUint128_inj u less_Suc_eq numeral_3_eq_3)
  with t show ?thesis by blast
qed

section \<open>The domain matcher against its rules\<close>

text \<open>The labels of a name from the last to the first, with and without an empty first label
  (the walks of the code stop before it).\<close>

definition allLabels :: "string \<Rightarrow> string list" where
  "allLabels d = rev (SplitByte d (CHR ''.''))"

definition labels :: "string \<Rightarrow> string list" where
  "labels d = (if last (allLabels d) = [] then butlast (allLabels d) else allLabels d)"

lemma SplitByte_append: "c \<notin> set ys \<Longrightarrow> SplitByte (xs @ c # ys) c = SplitByte xs c @ [ys]"
proof (induction xs)
  case Nil
  have "SplitByte ys c = [ys]" using Nil by (induction ys) auto
  then show ?case by simp
next
  case (Cons x xs)
  then show ?case by (auto split: list.split simp: Cons_eq_append_conv)
qed

lemma allLabels_ne [simp]: "allLabels d \<noteq> []"
  by (simp add: allLabels_def)

lemma allLabels_None: "LastIndexByte p (CHR ''.'') = None \<Longrightarrow> allLabels p = [p]"
  by (induction p) (auto simp: allLabels_def)

lemma allLabels_Some:
  assumes "LastIndexByte p (CHR ''.'') = Some j"
  shows "allLabels p = drop (j + 1) p # allLabels (take j p)"
proof -
  note j = LastIndexByte_Some [OF assms]
  have "p = take j p @ CHR ''.'' # drop (Suc j) p" using j(1,2) by (metis id_take_nth_drop)
  then have "SplitByte p (CHR ''.'') = SplitByte (take j p) (CHR ''.'') @ [drop (Suc j) p]"
    using SplitByte_append [OF j(3)] by metis
  then show ?thesis by (simp add: allLabels_def)
qed

lemma labels_simps:
  "labels [] = []"
  "p \<noteq> [] \<Longrightarrow> LastIndexByte p (CHR ''.'') = None \<Longrightarrow> labels p = [p]"
  "LastIndexByte p (CHR ''.'') = Some j \<Longrightarrow> labels p = drop (j + 1) p # labels (take j p)"
  by (simp_all add: labels_def allLabels_None allLabels_Some)

lemma insertLoop_put: "insertLoop v w e t p = label.put (setLabelValue v w e) t (labels p)"
proof (induction v w e t p rule: insertLoop.induct)
  case (1 v w e t p)
  show ?case
  proof (cases "p = []")
    case True
    then show ?thesis by (simp add: insertLoop.simps labels_simps)
  next
    case False
    show ?thesis
    proof (cases "LastIndexByte p (CHR ''.'')")
      case None
      from 1 [OF False refl, of p "[]"] None False show ?thesis
        by (simp del: LastIndexByte_None add: insertLoop.simps [of v w e t p] labels_simps)
    next
      case (Some j)
      from 1 [OF False refl, of "drop (j + 1) p" "take j p"] Some False show ?thesis
        by (simp add: insertLoop.simps [of v w e t p] labels_simps)
    qed
  qed
qed

text \<open>The candidate of \<^verbatim>\<open>Find\<close>: the wildcard at the longest non-empty proper prefix.\<close>

definition wildTail :: "'a labelNode \<Rightarrow> string list \<Rightarrow> 'a option" where
  "wildTail t ls = (case ls of
       l # r \<Rightarrow> if r = [] then None else best (\<lambda>q. snd (label.cell t (l # q))) (butlast r)
     | [] \<Rightarrow> None)"

lemma new_values [simp]: "exactValue newLabelNode = None" "wildcardValue newLabelNode = None"
  by (simp_all add: newLabelNode_def)

lemma best_const_None [simp]: "best (\<lambda>q. None) p = None"
  by (simp add: best_None)

lemma wildTail_Cons:
  assumes "r \<noteq> []"
  shows "wildTail t (l # r) = (case lchildren t l of
      None \<Rightarrow> None
    | Some c \<Rightarrow> (case wildTail c r of Some v \<Rightarrow> Some v | None \<Rightarrow> wildcardValue c))"
proof -
  obtain l' r' where r: "r = l' # r'" using assms by (cases r) auto
  show ?thesis by (cases "lchildren t l") (auto simp: wildTail_def r split: option.split)
qed

lemma findLoop_spec:
  assumes "findLoop t cand p = (full, n, cand')"
  shows "(if full then exactValue n else None) = fst (label.cell t (labels p)) \<and>
    cand' = (case wildTail t (allLabels p) of Some v \<Rightarrow> Some v | None \<Rightarrow> cand)"
  using assms
proof (induction t cand p rule: findLoop.induct)
  case (1 t cand p)
  show ?case
  proof (cases "p = []")
    case True
    then show ?thesis using "1.prems" by (simp add: findLoop.simps labels_simps allLabels_def wildTail_def)
  next
    case False
    show ?thesis
    proof (cases "LastIndexByte p (CHR ''.'')")
      case None
      then show ?thesis using "1.prems" False
        by (auto simp del: LastIndexByte_None simp: findLoop.simps labels_simps allLabels_None wildTail_def split: option.splits)
    next
      case (Some j)
      show ?thesis
      proof (cases "lchildren t (drop (j + 1) p)")
        case None
        then show ?thesis using "1.prems" False Some
          by (simp add: findLoop.simps [of t] labels_simps allLabels_Some wildTail_Cons)
      next
        case (Some c)
        note j = \<open>LastIndexByte p (CHR ''.'') = Some j\<close>
        let ?cand = "if wildcardValue c \<noteq> None then wildcardValue c else cand"
        have f: "findLoop c ?cand (take j p) = (full, n, cand')"
          using "1.prems" False j Some by (simp add: findLoop.simps [of t])
        have ih: "(if full then exactValue n else None) = fst (label.cell c (labels (take j p))) \<and>
            cand' = (case wildTail c (allLabels (take j p)) of Some v \<Rightarrow> Some v | None \<Rightarrow> ?cand)"
          by (rule "1.IH"(2) [of _ _ c ?cand j]) (use False j Some f in simp_all)
        show ?thesis using ih j Some
          by (auto simp: labels_simps allLabels_Some wildTail_Cons split: option.split)
      qed
    qed
  qed
qed

lemma FindDomain_cells:
  "FindDomain m d = (case fst (label.cell (dmRoot m) (labels d)) of
      Some v \<Rightarrow> Some v
    | None \<Rightarrow> best (\<lambda>q. snd (label.cell (dmRoot m) q)) (butlast (allLabels d)))"
proof -
  obtain full n cand where f: "findLoop (dmRoot m) None d = (full, n, cand)" by (metis prod_cases3)
  note s = findLoop_spec [OF f]
  obtain l r where ls: "allLabels d = l # r" by (cases "allLabels d") (auto simp: allLabels_def)
  have "best (\<lambda>q. snd (label.cell (dmRoot m) q)) (butlast (allLabels d)) =
      (case cand of Some v \<Rightarrow> Some v | None \<Rightarrow> wildcardValue (dmRoot m))"
    using s by (auto simp: ls wildTail_def split: option.split)
  then show ?thesis using s f by (auto simp: FindDomain_def split: option.split if_splits)
qed

text \<open>What a pattern says: the path of its name if it matches the name itself, and the path of
  its name if it matches every name below.\<close>

definition exactPath :: "string \<Rightarrow> string list option" where
  "exactPath p =
     (if p = ''*'' \<or> HasPrefix p ''*.'' then None
      else if HasPrefix p ''*'' then Some (labels (drop 1 p))
      else Some (labels p))"

definition wildPath :: "string \<Rightarrow> string list option" where
  "wildPath p =
     (if p = ''*'' then Some []
      else if HasPrefix p ''*.'' then Some (labels (drop 2 p))
      else if HasPrefix p ''*'' then Some (labels (drop 1 p))
      else None)"

lemma cell_setLabelValue:
  "label.cell (label.put (setLabelValue v w e) t p) q =
     (if q = p then (if e then Some v else fst (label.cell t p), if w then Some v else snd (label.cell t p))
      else label.cell t q)"
  using label.cell_put [of "setLabelValue v w e" "\<lambda>(a, b). (if e then Some v else a, if w then Some v else b)" t p q]
  by (simp add: setLabelValue_def split: prod.split)

lemma Add_cell:
  assumes "Add m p v = Inr m'"
  shows "fst (label.cell (dmRoot m') q) = (if exactPath p = Some q then Some v else fst (label.cell (dmRoot m) q))"
    "snd (label.cell (dmRoot m') q) = (if wildPath p = Some q then Some v else snd (label.cell (dmRoot m) q))"
proof -
  have star: "setLabelValue v True False t = label.put (setLabelValue v True False) t []" for t by simp
  have "fst (label.cell (dmRoot m') q) = (if exactPath p = Some q then Some v else fst (label.cell (dmRoot m) q)) \<and>
    snd (label.cell (dmRoot m') q) = (if wildPath p = Some q then Some v else snd (label.cell (dmRoot m) q))"
    using assms unfolding Add_def insertPattern_def exactPath_def wildPath_def insertLoop_put
    by (auto simp del: label.put.simps label.cell.simps simp: star cell_setLabelValue split: if_splits)
  then show "fst (label.cell (dmRoot m') q) = (if exactPath p = Some q then Some v else fst (label.cell (dmRoot m) q))"
    "snd (label.cell (dmRoot m') q) = (if wildPath p = Some q then Some v else snd (label.cell (dmRoot m) q))" by simp_all
qed

lemma Add_all:
  assumes "foldRes (\<lambda>(p, v) m. Add m p v) rules NewDomainMatcher = Inr m"
  shows "fst (label.cell (dmRoot m) q) = lastAt (\<lambda>r. exactPath (fst r)) snd rules q"
    "snd (label.cell (dmRoot m) q) = lastAt (\<lambda>r. wildPath (fst r)) snd rules q"
proof -
  have "fst (label.cell (dmRoot m) q) = lastAt (\<lambda>r. exactPath (fst r)) snd rules q \<and>
    snd (label.cell (dmRoot m) q) = lastAt (\<lambda>r. wildPath (fst r)) snd rules q"
    using assms
  proof (induction rules arbitrary: m rule: rev_induct)
    case (snoc r rules)
    obtain p v where r: "r = (p, v)" by force
    obtain m1 where m1: "foldRes (\<lambda>(p, v) m. Add m p v) rules NewDomainMatcher = Inr m1" "Add m1 p v = Inr m"
      using snoc.prems by (auto simp: r foldRes_append res_iff)
    from snoc.IH [OF m1(1)] Add_cell [OF m1(2)] show ?case by (simp add: r)
  qed (simp add: NewDomainMatcher_def)
  then show "fst (label.cell (dmRoot m) q) = lastAt (\<lambda>r. exactPath (fst r)) snd rules q"
    "snd (label.cell (dmRoot m) q) = lastAt (\<lambda>r. wildPath (fst r)) snd rules q" by simp_all
qed

text \<open>C12. The domain matcher against its rules. After any sequence of successful additions, a
  lookup of a name returns the value of the last rule whose pattern matches the name itself;
  without such a rule, the value of the rule that decides among the wildcard patterns
  of the proper ancestors of the name, the longest first and the last added among equals; and
  nothing if there is none.\<close>

theorem FindDomain_rules:
  assumes "foldRes (\<lambda>(p, v) m. Add m p v) rules NewDomainMatcher = Inr m"
  shows "FindDomain m d = Some v \<longleftrightarrow>
    (\<exists>i. decides (\<lambda>r. exactPath (fst r) = Some (labels d)) (\<lambda>_. 0) rules i \<and> snd (rules ! i) = v) \<or>
    (\<forall>r \<in> set rules. exactPath (fst r) \<noteq> Some (labels d)) \<and>
    (\<exists>i. decides (applies (\<lambda>r. wildPath (fst r)) (butlast (allLabels d))) (pathLen (\<lambda>r. wildPath (fst r))) rules i \<and>
      snd (rules ! i) = v)"
proof -
  let ?ex = "lastAt (\<lambda>r. exactPath (fst r)) snd rules (labels d)"
  have ex: "?ex = Some v \<longleftrightarrow> (\<exists>i. decides (\<lambda>r. exactPath (fst r) = Some (labels d)) (\<lambda>_. 0) rules i \<and> snd (rules ! i) = v)"
    unfolding lastAt_Some decides_def by auto
  have "FindDomain m d = (case ?ex of Some v \<Rightarrow> Some v
      | None \<Rightarrow> best (lastAt (\<lambda>r. wildPath (fst r)) snd rules) (butlast (allLabels d)))"
    by (simp only: FindDomain_cells Add_all [OF assms])
  then have "FindDomain m d = Some v \<longleftrightarrow> ?ex = Some v \<or>
      ?ex = None \<and> best (lastAt (\<lambda>r. wildPath (fst r)) snd rules) (butlast (allLabels d)) = Some v"
    by (simp split: option.split)
  then show ?thesis unfolding ex lastAt_None best_lastAt .
qed

theorem FindDomain_rules_witness:
  "\<exists>m. foldRes (\<lambda>(p, v) m. Add m p v) [(''*'', 1), (''*.google.com'', 2), (''*google.com'', 3), (''mail.google.com'', 4)]
      NewDomainMatcher = Inr m \<and>
    FindDomain m ''mail.google.com'' = Some (4 :: nat) \<and> FindDomain m ''www.google.com'' = Some 3"
proof -
  let ?rules = "[(''*'', 1), (''*.google.com'', 2), (''*google.com'', 3), (''mail.google.com'', 4)] :: (string \<times> nat) list"
  obtain m where m: "foldRes (\<lambda>(p, v) m. Add m p v) ?rules NewDomainMatcher = Inr m"
    by (simp add: Add_def HasPrefix_def)
  have "FindDomain m ''mail.google.com'' = Some 4"
    unfolding FindDomain_rules [OF m]
    by (intro disjI1 exI [of _ 3]) code_simp
  moreover have "FindDomain m ''www.google.com'' = Some 3"
    unfolding FindDomain_rules [OF m]
    by (intro disjI2 conjI exI [of _ 2]) code_simp+
  ultimately show ?thesis using m by blast
qed

end
