(* ===== verification/Config.thy ===== *)
theory Config
  imports Policy Addr_Trie
begin

text \<open>
  Loading of a configuration (\<^verbatim>\<open>core/config.go\<close>): the expansion of patterns and the
  construction of the matchers for hosts, domain policies and address policies. A Go map is
  given as the list of its entries in the order in which the loop visits them, which the
  language leaves open.
\<close>

section \<open>Runes\<close>

text \<open>\<^verbatim>\<open>for i := range s\<close> visits the starts of the runes of a string. The width of the first
  rune follows the table of \<^verbatim>\<open>unicode/utf8\<close>; an invalid sequence has width one.\<close>

definition cont :: "char list \<Rightarrow> nat \<Rightarrow> nat \<Rightarrow> nat \<Rightarrow> bool" where
  "cont s i lower upper \<longleftrightarrow> i < length s \<and> lower \<le> code (s ! i) \<and> code (s ! i) \<le> upper"

definition runeWidth :: "string \<Rightarrow> nat" where
  "runeWidth s =
     (let b = code (hd s);
          lower = (if b = 0xE0 then 0xA0 else if b = 0xF0 then 0x90 else 0x80);
          upper = (if b = 0xED then 0x9F else if b = 0xF4 then 0x8F else 0xBF)
      in if b < 0xC2 \<or> b > 0xF4 then 1
         else if b < 0xE0 then (if cont s 1 0x80 0xBF then 2 else 1)
         else if b < 0xF0 then (if cont s 1 lower upper \<and> cont s 2 0x80 0xBF then 3 else 1)
         else (if cont s 1 lower upper \<and> cont s 2 0x80 0xBF \<and> cont s 3 0x80 0xBF then 4 else 1))"

lemma runeWidth_pos: "0 < runeWidth s"
  by (simp add: runeWidth_def Let_def)

text \<open>The conversion \<^verbatim>\<open>string(b)\<close> of a byte yields the UTF-8 encoding of that code point.\<close>

definition byteString :: "char \<Rightarrow> string" where
  "byteString c = (if code c < 128 then [c] else [char_of (0xC0 + code c div 64), char_of (0x80 + code c mod 64)])"

section \<open>Pattern expansion\<close>

function pipeLoop :: "string list \<Rightarrow> string \<Rightarrow> string \<Rightarrow> string list" where
  "pipeLoop result cur s =
     (if s = [] then result @ [cur]
      else if hd s = CHR ''|'' then pipeLoop (result @ [cur]) [] (drop (runeWidth s) s)
      else pipeLoop result (cur @ byteString (hd s)) (drop (runeWidth s) s))"
  by pat_completeness auto
termination
  by (relation "measure (\<lambda>(_, _, s). length s)") (auto simp: runeWidth_pos)

declare pipeLoop.simps [simp del]

definition splitByPipe :: "string \<Rightarrow> string list" where
  "splitByPipe s = (if s = [] then [[]] else pipeLoop [] [] s)"

text \<open>The search for the closing parenthesis from the position after the opening one.\<close>

fun closing :: "nat \<Rightarrow> nat \<Rightarrow> string \<Rightarrow> nat option" where
  "closing i depth [] = None"
| "closing i depth (c # s) =
     (if c = CHR ''('' then closing (i + 1) (depth + 1) s
      else if c = CHR '')'' then (if depth - 1 = 0 then Some i else closing (i + 1) (depth - 1) s)
      else closing (i + 1) depth s)"

lemma closing_bound: "closing i depth s = Some r \<Longrightarrow> i \<le> r \<and> r < i + length s"
  by (induction i depth s rule: closing.induct) (force split: if_splits)+

lemma IndexByte_bound: "IndexByte s c = Some i \<Longrightarrow> i < length s"
  by (induction s arbitrary: i) (auto split: if_splits)

function expandPattern :: "string \<Rightarrow> string list" where
  "expandPattern s = (case IndexByte s (CHR ''('') of
       None \<Rightarrow> splitByPipe s
     | Some left \<Rightarrow> (case closing (left + 1) 1 (drop (left + 1) s) of
         None \<Rightarrow> splitByPipe s
       | Some right \<Rightarrow>
           let prefix = take left s;
               inner = take (right - (left + 1)) (drop (left + 1) s);
               suffix = drop (right + 1) s;
               parts = splitByPipe inner;
               suffixResults = expandPattern suffix
           in concat (map (\<lambda>part. map (\<lambda>suff. prefix @ part @ suff) suffixResults) parts)))"
  by pat_completeness auto
termination
  by (relation "measure length") (auto dest!: closing_bound IndexByte_bound)

declare expandPattern.simps [simp del]

section \<open>The matchers\<close>

text \<open>The patterns of one entry: separated by semicolons and expanded.\<close>

definition patternsOf :: "string \<Rightarrow> string list" where
  "patternsOf patterns = concat (map expandPattern (SplitByte patterns (CHR '';'')))"

definition keepOnError :: "'m \<Rightarrow> 'm res \<Rightarrow> 'm" where
  "keepOnError m r = (case r of Inl _ \<Rightarrow> m | Inr m' \<Rightarrow> m')"

definition addPatterns :: "(string \<times> 'a) \<Rightarrow> 'a DomainMatcher \<Rightarrow> 'a DomainMatcher" where
  "addPatterns e m = fold (\<lambda>pattern m. keepOnError m (Add m pattern (snd e))) (patternsOf (fst e)) m"

definition loadDomainMatcher :: "(string \<times> 'a) list \<Rightarrow> 'a DomainMatcher" where
  "loadDomainMatcher entries = fold addPatterns entries NewDomainMatcher"

definition isIPv6 :: "string \<Rightarrow> bool" where
  "isIPv6 ip = ContainsStr ip '':''"

definition addNets :: "(string \<times> 'a) \<Rightarrow> 'a IPv4Trie \<times> 'a IPv6Trie \<Rightarrow> 'a IPv4Trie \<times> 'a IPv6Trie" where
  "addNets e ts = fold (\<lambda>ipOrNet (t4, t6).
       if isIPv6 ipOrNet then (t4, keepOnError t6 (InsertIPv6 t6 ipOrNet (snd e)))
       else (keepOnError t4 (InsertIPv4 t4 ipOrNet (snd e)), t6)) (patternsOf (fst e)) ts"

definition loadIPMatchers :: "(string \<times> 'a) list \<Rightarrow> 'a IPv4Trie \<times> 'a IPv6Trie" where
  "loadIPMatchers entries = fold addNets entries (NewIPv4Trie, NewIPv6Trie)"

text \<open>The tables a configuration defines, and \<^verbatim>\<open>getIPPolicy\<close> on them.\<close>

record Tables =
  defaultPolicy :: Policy
  domainMatcher :: "Policy DomainMatcher"
  ipMatcher :: "Policy IPv4Trie"
  ipv6Matcher :: "Policy IPv6Trie"
  hostsMatcher :: "string DomainMatcher"

definition loadTables :: "Policy \<Rightarrow> (string \<times> string) list \<Rightarrow> (string \<times> Policy) list \<Rightarrow> (string \<times> Policy) list \<Rightarrow> Tables" where
  "loadTables dflt hosts domainPolicies ipPolicies =
     \<lparr>defaultPolicy = dflt, domainMatcher = loadDomainMatcher domainPolicies,
      ipMatcher = fst (loadIPMatchers ipPolicies), ipv6Matcher = snd (loadIPMatchers ipPolicies),
      hostsMatcher = loadDomainMatcher hosts\<rparr>"

definition getIPPolicy :: "Tables \<Rightarrow> string \<Rightarrow> Policy option" where
  "getIPPolicy t ip = (if isIPv6 ip then FindIPv6 (ipv6Matcher t) ip else FindIPv4 (ipMatcher t) ip)"

section \<open>Expansion of alternatives\<close>

definition ascii :: "string \<Rightarrow> bool" where
  "ascii s \<longleftrightarrow> (\<forall>c \<in> set s. code c < 128)"

lemma pipeLoop_ascii: "ascii s \<Longrightarrow> pipeLoop result cur s =
    result @ (case SplitByte s (CHR ''|'') of [] \<Rightarrow> [cur] | x # xs \<Rightarrow> (cur @ x) # xs)"
proof (induction s arbitrary: result cur)
  case (Cons c s)
  have c: "runeWidth (c # s) = 1" "byteString c = [c]" "ascii s"
    using Cons.prems by (auto simp: ascii_def runeWidth_def byteString_def Let_def)
  obtain x xs where s: "SplitByte s (CHR ''|'') = x # xs" by (cases "SplitByte s (CHR ''|'')") auto
  show ?case using Cons.IH [OF c(3)] c s by (subst pipeLoop.simps) auto
qed (simp add: pipeLoop.simps)

lemma splitByPipe_ascii: "ascii s \<Longrightarrow> splitByPipe s = SplitByte s (CHR ''|'')"
  by (cases "SplitByte s (CHR ''|'')") (auto simp: splitByPipe_def pipeLoop_ascii)

lemma SplitByte_JoinStr: "ps \<noteq> [] \<Longrightarrow> (\<And>p. p \<in> set ps \<Longrightarrow> c \<notin> set p) \<Longrightarrow> SplitByte (JoinStr ps [c]) c = ps"
proof (induction ps rule: rev_induct)
  case (snoc p ps)
  show ?case
  proof (cases "ps = []")
    case True
    have "c \<notin> set p \<Longrightarrow> SplitByte p c = [p]" by (induction p) auto
    with snoc.prems True show ?thesis by (simp add: JoinStr_def)
  next
    case False
    then have "JoinStr (ps @ [p]) [c] = JoinStr ps [c] @ c # p" by (cases ps) (simp_all add: JoinStr_def)
    moreover have "SplitByte (JoinStr ps [c]) c = ps" using snoc.IH [OF False] snoc.prems(2) by simp
    ultimately show ?thesis using SplitByte_append [of c p "JoinStr ps [c]"] snoc.prems(2) by simp
  qed
qed simp

lemma closing_flat: "CHR ''('' \<notin> set s \<Longrightarrow> CHR '')'' \<notin> set s \<Longrightarrow> closing i 1 (s @ CHR '')'' # r) = Some (i + length s)"
  by (induction s arbitrary: i) auto

text \<open>A pattern of groups of alternatives: a literal before each group, and a tail.\<close>

fun renderGroups :: "(string \<times> string list) list \<Rightarrow> string \<Rightarrow> string" where
  "renderGroups [] t = t"
| "renderGroups ((lit, alts) # gs) t = lit @ ''('' @ JoinStr alts ''|'' @ '')'' @ renderGroups gs t"

fun expansions :: "(string \<times> string list) list \<Rightarrow> string list \<Rightarrow> string list" where
  "expansions [] ts = ts"
| "expansions ((lit, alts) # gs) ts = concat (map (\<lambda>a. map (\<lambda>t. lit @ a @ t) (expansions gs ts)) alts)"

definition flat :: "string \<Rightarrow> bool" where
  "flat s \<longleftrightarrow> ascii s \<and> CHR ''('' \<notin> set s \<and> CHR '')'' \<notin> set s"

lemma flat_join: "(\<And>a. a \<in> set alts \<Longrightarrow> flat a) \<Longrightarrow> flat (JoinStr alts ''|'')"
  by (cases alts) (force simp: flat_def ascii_def JoinStr_def code_def)+

lemma IndexByte_None: "c \<notin> set s \<Longrightarrow> IndexByte s c = None"
  by (induction s) auto

text \<open>C15. Pattern expansion is the product of the alternatives. A pattern of literals and
  (unnested) groups of alternatives in ASCII expands to every choice of one alternative per
  group and of one of the alternatives of the tail, in lexical order of the choices.\<close>

theorem expandPattern_groups:
  assumes "\<forall>(lit, alts) \<in> set gs. flat lit \<and> alts \<noteq> [] \<and> (\<forall>a \<in> set alts. flat a \<and> CHR ''|'' \<notin> set a)"
    and "flat t"
  shows "expandPattern (renderGroups gs t) = expansions gs (SplitByte t (CHR ''|''))"
  using assms(1)
proof (induction gs)
  case Nil
  then show ?case using assms(2) by (subst expandPattern.simps) (simp add: flat_def IndexByte_None splitByPipe_ascii)
next
  case (Cons g gs)
  obtain lit alts where g: "g = (lit, alts)" by force
  have f: "flat lit" "alts \<noteq> []" "\<And>a. a \<in> set alts \<Longrightarrow> flat a" "\<And>a. a \<in> set alts \<Longrightarrow> CHR ''|'' \<notin> set a"
    using Cons.prems by (auto simp: g)
  let ?in = "JoinStr alts ''|''" and ?rest = "renderGroups gs t"
  let ?s = "lit @ ''('' @ ?in @ '')'' @ ?rest"
  have inner: "flat ?in" by (rule flat_join) (rule f)
  have "IndexByte ?s (CHR ''('') = Some (length lit)"
    using IndexByte_first [of "CHR ''(''" lit] f(1) by (simp add: flat_def)
  moreover have "closing (length lit + 1) 1 (drop (length lit + 1) ?s) = Some (length lit + 1 + length ?in)"
    using closing_flat [of ?in "length lit + 1" ?rest] inner by (simp add: flat_def)
  moreover have "splitByPipe ?in = alts"
    using splitByPipe_ascii [of ?in] inner SplitByte_JoinStr [OF f(2,4)] by (simp add: flat_def)
  moreover have "expandPattern ?rest = expansions gs (SplitByte t (CHR ''|''))"
    using Cons by simp
  ultimately show ?case by (subst expandPattern.simps) (simp add: g)
qed

theorem expandPattern_groups_witness:
  "expandPattern ''*.(a|b)x(1|2).com'' = [''*.ax1.com'', ''*.ax2.com'', ''*.bx1.com'', ''*.bx2.com'']"
proof -
  have "expandPattern (renderGroups [(''*.'', [''a'', ''b'']), (''x'', [''1'', ''2''])] ''.com'') =
      expansions [(''*.'', [''a'', ''b'']), (''x'', [''1'', ''2''])] (SplitByte ''.com'' (CHR ''|''))"
    by (rule expandPattern_groups) (simp_all add: flat_def ascii_def code_def)
  then show ?thesis by (simp add: JoinStr_def)
qed

text \<open>Nested groups are not expanded. The search for the closing parenthesis counts the
  nesting depth, but the text between the parentheses is split at every bar, also inside an
  inner group.\<close>

lemma expandPattern_nested:
  "expandPattern ''a(b(c|d)|e)'' = [''ab(c'', ''ad)'', ''ae'']"
  by code_simp

section \<open>The order of the entries\<close>

lemma option_eqI: "(\<And>v. x = Some v \<longleftrightarrow> y = Some v) \<Longrightarrow> x = y"
  by (cases x; cases y) auto

lemma lastAt_consistent:
  assumes "\<And>r r'. r \<in> set rs \<Longrightarrow> r' \<in> set rs \<Longrightarrow> pathOf r = Some q \<Longrightarrow> pathOf r' = Some q \<Longrightarrow> valOf r = valOf r'"
  shows "lastAt pathOf valOf rs q = Some v \<longleftrightarrow> (\<exists>r \<in> set rs. pathOf r = Some q \<and> valOf r = v)"
proof
  show "\<exists>r \<in> set rs. pathOf r = Some q \<and> valOf r = v" if "lastAt pathOf valOf rs q = Some v"
    using that unfolding lastAt_Some by auto
  assume r: "\<exists>r \<in> set rs. pathOf r = Some q \<and> valOf r = v"
  then have "lastAt pathOf valOf rs q \<noteq> None" unfolding lastAt_None by blast
  then obtain w where w: "lastAt pathOf valOf rs q = Some w" by blast
  then obtain i where i: "i < length rs" "pathOf (rs ! i) = Some q" "valOf (rs ! i) = w" unfolding lastAt_Some by blast
  obtain r where "r \<in> set rs" "pathOf r = Some q" "valOf r = v" using r by blast
  with assms [OF _ nth_mem [OF i(1)], of r] i(2,3) w show "lastAt pathOf valOf rs q = Some v" by simp
qed

text \<open>The rules of a list of entries: those of their patterns that the matcher accepts.\<close>

definition accepted :: "string \<Rightarrow> bool" where
  "accepted p \<longleftrightarrow> p = ''*'' \<or> ContainsStr p ''.''"

definition rulesOf :: "(string \<times> 'a) list \<Rightarrow> (string \<times> 'a) list" where
  "rulesOf entries = concat (map (\<lambda>(patterns, v). map (\<lambda>p. (p, v)) (filter accepted (patternsOf patterns))) entries)"

lemma Add_accepted: "isl (Add m p v) \<longleftrightarrow> \<not> accepted p"
  by (simp add: Add_def accepted_def)

lemma addPatterns_rules: "foldRes (\<lambda>(p, v) m. Add m p v) (rulesOf [e]) m = Inr (addPatterns e m)"
proof -
  obtain ps v where e: "e = (ps, v)" by force
  have "foldRes (\<lambda>(p, v) m. Add m p v) (map (\<lambda>p. (p, v)) (filter accepted xs)) m =
      Inr (fold (\<lambda>p m. keepOnError m (Add m p v)) xs m)" for xs and m
  proof (induction xs arbitrary: m)
    case (Cons p xs)
    show ?case using Cons Add_accepted [of m p v] by (cases "Add m p v") (simp_all add: keepOnError_def)
  qed simp
  then show ?thesis by (simp add: e rulesOf_def addPatterns_def)
qed

lemma loadDomainMatcher_rules:
  "foldRes (\<lambda>(p, v) m. Add m p v) (rulesOf entries) NewDomainMatcher = Inr (loadDomainMatcher entries)"
proof -
  have "foldRes (\<lambda>(p, v) m. Add m p v) (rulesOf es) m = Inr (fold addPatterns es m)" for es :: "(string \<times> 'a) list" and m
  proof (induction es arbitrary: m)
    case (Cons e es)
    have "rulesOf (e # es) = rulesOf [e] @ rulesOf es" by (simp add: rulesOf_def)
    then show ?case using Cons by (simp add: foldRes_append addPatterns_rules)
  qed (simp add: rulesOf_def)
  then show ?thesis by (simp add: loadDomainMatcher_def)
qed

text \<open>Entries are consistent if patterns with the same meaning carry the same value.\<close>

definition consistent :: "(string \<times> 'a) list \<Rightarrow> bool" where
  "consistent entries \<longleftrightarrow> (\<forall>(p, v) \<in> set (rulesOf entries). \<forall>(p', v') \<in> set (rulesOf entries).
     (exactPath p \<noteq> None \<and> exactPath p = exactPath p' \<longrightarrow> v = v') \<and>
     (wildPath p \<noteq> None \<and> wildPath p = wildPath p' \<longrightarrow> v = v'))"

lemma consistent_lastAt:
  assumes "consistent entries"
  shows "lastAt (\<lambda>r. exactPath (fst r)) snd (rulesOf entries) q = Some v \<longleftrightarrow>
      (\<exists>r \<in> set (rulesOf entries). exactPath (fst r) = Some q \<and> snd r = v)"
    "lastAt (\<lambda>r. wildPath (fst r)) snd (rulesOf entries) q = Some v \<longleftrightarrow>
      (\<exists>r \<in> set (rulesOf entries). wildPath (fst r) = Some q \<and> snd r = v)"
  by (rule lastAt_consistent; use assms in \<open>fastforce simp: consistent_def\<close>)+



end
