(* ===== verification/IP_Pool.thy ===== *)
theory IP_Pool
  imports Complex_Main Config
begin

text \<open>
  Pools of addresses (\<^verbatim>\<open>core/ippool.go\<close>): decoding, the expansion of the address list, the
  evaluation of a scan and the weighted choice of an address.

  The state is the record \<open>IPPool\<close>. The probes of a scan are a parameter that tells for each
  address and attempt how long the connection took, if it succeeded; the order in which the
  results arrive is the order of a list. Weights are computed in float64 arithmetic, here on
  rationals rounded to 53 bits; a compiler may fuse a multiplication with the addition after
  it, which can change the last bit and is not reflected.
\<close>

section \<open>Decoding\<close>

definition maxIPPoolSize :: nat where "maxIPPoolSize = 1000"
definition defaultMaxConcurrency :: int where "defaultMaxConcurrency = 100"
definition defaultTopIPCount :: int where "defaultTopIPCount = 3"
definition defaultAttempts :: int where "defaultAttempts = 4"

record IPPool =
  waitScanOnStartUp :: bool
  ips :: "string list"
  fallbackIP :: string
  port :: nat
  topIPCount :: nat
  attempts :: nat
  timeout :: duration
  updateInterval :: duration
  bestIndexes :: "nat list"
  bestWeights :: "nat list"
  totalWeight :: nat
  curValidIPs :: nat
  sem :: nat
  counter :: u32

record PoolTmp =
  pWaitScan :: bool
  pFallbackIP :: string
  pIPs :: "string list"
  pPort :: int
  pTopIPCount :: int
  pMaxConcurrency :: int
  pTimeout :: string
  pUpdateInterval :: string
  pAttempts :: int

definition jBool :: "json \<Rightarrow> bool res" where
  "jBool j = (case j of JBool b \<Rightarrow> Inr b | JNull \<Rightarrow> Inr False | _ \<Rightarrow> Inl (typeErr ''bool''))"

definition jStrings :: "json \<Rightarrow> string list res" where
  "jStrings j = (case j of
       JArr xs \<Rightarrow> foldRes (\<lambda>x acc. bind_res (jString x) (\<lambda>s. Inr (acc @ [s]))) xs []
     | JNull \<Rightarrow> Inr []
     | _ \<Rightarrow> Inl (typeErr ''[]string''))"

definition poolFields :: "PoolTmp field list" where
  "poolFields =
    [field ''wait_scan_on_startup'' jBool (\<lambda>x. pWaitScan_update (\<lambda>_. x)),
     field ''fallback_ip'' jString (\<lambda>x. pFallbackIP_update (\<lambda>_. x)),
     field ''ips'' jStrings (\<lambda>x. pIPs_update (\<lambda>_. x)),
     field ''port'' jInt (\<lambda>x. pPort_update (\<lambda>_. x)),
     field ''top_ip_count'' jInt (\<lambda>x. pTopIPCount_update (\<lambda>_. x)),
     field ''max_concurrency'' jInt (\<lambda>x. pMaxConcurrency_update (\<lambda>_. x)),
     field ''timeout'' jString (\<lambda>x. pTimeout_update (\<lambda>_. x)),
     field ''update_interval'' jString (\<lambda>x. pUpdateInterval_update (\<lambda>_. x)),
     field ''attempts'' jInt (\<lambda>x. pAttempts_update (\<lambda>_. x))]"

definition zeroPoolTmp :: PoolTmp where
  "zeroPoolTmp = \<lparr>pWaitScan = False, pFallbackIP = [], pIPs = [], pPort = 0, pTopIPCount = 0,
     pMaxConcurrency = 0, pTimeout = [], pUpdateInterval = [], pAttempts = 0\<rparr>"

fun AddrIsValid :: "Addr \<Rightarrow> bool" where
  "AddrIsValid AddrInvalid = False"
| "AddrIsValid _ = True"

text \<open>The loop over the addresses of a prefix.\<close>

function cidrLoop :: "string \<Rightarrow> Prefix \<Rightarrow> Addr \<Rightarrow> string list \<Rightarrow> string list res" where
  "cidrLoop s prefix addr out =
     (if \<not> Contains prefix addr then Inr out
      else if length out \<ge> maxIPPoolSize then Inl (ErrNew (''CIDR '' @ s @ '' exceeds max pool size (1000)''))
      else let out2 = out @ [AddrString addr]; next = Next addr in
           if \<not> AddrIsValid next \<or> \<not> Contains prefix next then Inr out2
           else cidrLoop s prefix next out2)"
  by pat_completeness auto
termination
  by (relation "measure (\<lambda>(_, _, _, out). maxIPPoolSize - length out)") auto

declare cidrLoop.simps [simp del]

text \<open>The name lookup is a parameter: the addresses it returns, as \<^verbatim>\<open>netip\<close> sees them.\<close>

type_synonym lookup = "string \<Rightarrow> Addr list res"

definition addLookup :: "string \<Rightarrow> Addr \<Rightarrow> string list \<Rightarrow> string list res" where
  "addLookup s a out =
     (if \<not> AddrIsValid a then Inr out
      else if length out \<ge> maxIPPoolSize then Inl (ErrNew (''DNS resolution for '' @ s @ '' exceeds max pool size''))
      else Inr (out @ [AddrString a]))"

definition parseIPSource :: "lookup \<Rightarrow> string \<Rightarrow> string list \<Rightarrow> string list res" where
  "parseIPSource lookupIP s out =
     (if length out \<ge> maxIPPoolSize then Inl (ErrNew ''IP pool exceeds maximum size (1000) during parsing'')
      else case ParseAddr s of
        Inr a \<Rightarrow> Inr (out @ [s])
      | Inl _ \<Rightarrow> (case ParsePrefix s of
          Inr p \<Rightarrow> cidrLoop s p (pAddr p) out
        | Inl _ \<Rightarrow> (case lookupIP s of
            Inl e \<Rightarrow> Inl (ErrNew (''DNS lookup failed for '' @ s @ '': '' @ Error e))
          | Inr addrs \<Rightarrow> foldRes (addLookup s) addrs out)))"

definition parseIPList :: "lookup \<Rightarrow> string list \<Rightarrow> string list res" where
  "parseIPList lookupIP sources = foldRes (parseIPSource lookupIP) (concat (map expandPattern sources)) []"

definition poolDuration :: "string \<Rightarrow> string \<Rightarrow> duration \<Rightarrow> duration res" where
  "poolDuration name s dflt =
     (if s = [] then Inr dflt
      else case ParseDuration s of
        Inr d \<Rightarrow> if d \<le> 0 then Inl (ErrNew (''invalid '' @ name @ '': '' @ s)) else Inr d
      | Inl _ \<Rightarrow> Inl (ErrNew (''invalid '' @ name @ '': '' @ s)))"

definition poolFromTmp :: "lookup \<Rightarrow> PoolTmp \<Rightarrow> IPPool res" where
  "poolFromTmp lookupIP t =
     bind_res (parseIPList lookupIP (pIPs t)) (\<lambda>ips.
     if ips = [] then Inl (ErrNew ''no valid IPs after parsing'')
     else if length ips > maxIPPoolSize
     then Inl (ErrNew (''IP pool exceeds maximum size (1000): '' @ digitsOf (length ips)))
     else if int (length ips) < pTopIPCount t
     then Inl (ErrNew (''IP count ('' @ digitsOf (length ips) @ '') less than top_ip_count ('' @ Itoa (pTopIPCount t) @ '')''))
     else if pPort t \<le> 0 \<or> pPort t > 65535 then Inl (ErrNew (''invalid port: '' @ Itoa (pPort t)))
     else if pMaxConcurrency t \<noteq> 0 \<and> pMaxConcurrency t < 1
     then Inl (ErrNew (''invalid max_concurrency: '' @ Itoa (pMaxConcurrency t)))
     else if pTopIPCount t \<noteq> 0 \<and> (pTopIPCount t \<le> 0 \<or> pTopIPCount t > 255 \<or> pTopIPCount t > int (length ips))
     then Inl (ErrNew (''invalid top_ip_count: '' @ Itoa (pTopIPCount t)))
     else if pAttempts t \<noteq> 0 \<and> (pAttempts t \<le> 0 \<or> pAttempts t > 255)
     then Inl (ErrNew (''invalid attempts: '' @ Itoa (pAttempts t)))
     else
       let concurrency = (if pMaxConcurrency t = 0 then defaultMaxConcurrency else pMaxConcurrency t);
           topCount = nat (if pTopIPCount t = 0 then defaultTopIPCount else pTopIPCount t);
           tries = nat (if pAttempts t = 0 then defaultAttempts else pAttempts t)
       in bind_res (poolDuration ''timeout'' (pTimeout t) second) (\<lambda>timeout.
          bind_res (poolDuration ''update_interval'' (pUpdateInterval t) (30 * minute)) (\<lambda>interval.
          Inr \<lparr>waitScanOnStartUp = pWaitScan t, ips = ips, fallbackIP = pFallbackIP t, port = nat (pPort t),
            topIPCount = topCount, attempts = tries, timeout = timeout, updateInterval = interval,
            bestIndexes = replicate topCount 0, bestWeights = replicate topCount 0, totalWeight = 0,
            curValidIPs = 0, sem = nat concurrency, counter = 0\<rparr>)))"

definition unmarshalIPPool :: "lookup \<Rightarrow> json \<Rightarrow> IPPool res" where
  "unmarshalIPPool lookupIP j = bind_res (decodeStruct poolFields j zeroPoolTmp) (poolFromTmp lookupIP)"

section \<open>Scans\<close>

text \<open>Non-negative float64 arithmetic on rationals.\<close>

definition rnd :: "rat \<Rightarrow> rat" where
  "rnd x = (if x = 0 then 0
     else let (n, d) = quotient_of x; (m, e) = mkFloat (nat n) (nat d) 0
          in rat_of_nat (m * pow2 e) / rat_of_nat (pow2 (- e)))"

record ipResult =
  ipIndex :: nat
  latency :: duration
  loss :: rat

text \<open>\<^verbatim>\<open>probe i k\<close> is the time the attempt \<open>k\<close> at address \<open>i\<close> took, if it connected.\<close>

type_synonym probe = "nat \<Rightarrow> nat \<Rightarrow> duration option"

definition testIP :: "IPPool \<Rightarrow> probe \<Rightarrow> nat \<Rightarrow> ipResult" where
  "testIP p probe index =
     (let times = List.map_filter (probe index) [0..<attempts p];
          successCount = length times;
          lossRate = rnd (1 - rnd (rat_of_nat successCount / rat_of_nat (attempts p)))
      in \<lparr>ipIndex = index,
          latency = (if successCount = 0 then 2 ^ 63 - 1 else quot (sum_list times) (int successCount)),
          loss = lossRate\<rparr>)"

text \<open>\<^verbatim>\<open>sort.SliceStable\<close> by loss and then latency: two stable sorts, the minor key first.\<close>

definition sortResults :: "ipResult list \<Rightarrow> ipResult list" where
  "sortResults rs = sort_key loss (sort_key latency rs)"

definition minWeight :: nat where "minWeight = 1"
definition maxWeight :: nat where "maxWeight = 10000"

definition weightOf :: "ipResult \<Rightarrow> nat" where
  "weightOf r =
     (let latencyMs = rnd (rnd (rat_of_int (latency r)) / 1000000);
          weightVal = rnd (10000 / rnd (rnd (latencyMs * rnd (1 + loss r)) + rnd (1 / 100000)));
          clamped = (if weightVal < rat_of_nat minWeight then rat_of_nat minWeight
                     else if weightVal > rat_of_nat maxWeight then rat_of_nat maxWeight else weightVal)
      in nat \<lfloor>clamped\<rfloor>)"

text \<open>The loop that stores the best results; an index out of range panics.\<close>

fun bestLoop :: "nat \<Rightarrow> nat \<Rightarrow> ipResult list \<Rightarrow> nat list \<Rightarrow> nat list \<Rightarrow> nat \<Rightarrow> (nat list \<times> nat list \<times> nat \<times> nat) option" where
  "bestLoop topN i [] idx ws tot = Some (idx, ws, tot, i)"
| "bestLoop topN i (r # rs) idx ws tot =
     (if \<not> i < topN then Some (idx, ws, tot, i)
      else if \<not> i < length idx \<or> \<not> i < length ws then None
      else bestLoop topN (i + 1) rs (idx[i := ipIndex r]) (ws[i := weightOf r]) (tot + weightOf r))"

fun clearLoop :: "nat \<Rightarrow> nat \<Rightarrow> nat list \<Rightarrow> nat list option" where
  "clearLoop i 0 ws = Some ws"
| "clearLoop i (Suc n) ws = (if i < length ws then clearLoop (i + 1) n (ws[i := 0]) else None)"

definition updateBest :: "IPPool \<Rightarrow> ipResult list \<Rightarrow> IPPool option" where
  "updateBest p results =
     (if results = [] then Some p
      else do {
        (idx, ws, tot, valid) \<leftarrow> bestLoop (topIPCount p) 0 (sortResults results) (bestIndexes p) (bestWeights p) 0;
        ws \<leftarrow> clearLoop valid (topIPCount p - valid) ws;
        if \<exists>i < valid. \<not> i < length idx \<or> \<not> idx ! i < length (ips p) then None
        else Some (p\<lparr>bestIndexes := idx, bestWeights := ws, curValidIPs := valid, totalWeight := tot\<rparr>)
      })"

text \<open>A scan; \<open>order\<close> is the order in which the results of the concurrent tests arrive.\<close>

definition scan :: "IPPool \<Rightarrow> probe \<Rightarrow> nat list \<Rightarrow> IPPool option" where
  "scan p probe order = updateBest p (filter (\<lambda>r. loss r < 1) (map (testIP p probe) order))"

section \<open>Choice\<close>

fun pickIndex :: "nat list \<Rightarrow> nat list \<Rightarrow> nat \<Rightarrow> nat \<Rightarrow> nat option" where
  "pickIndex (i # idx) (w # ws) acc target = (if acc + w > target then Some i else pickIndex idx ws (acc + w) target)"
| "pickIndex _ _ acc target = None"

text \<open>\<^verbatim>\<open>Get\<close> returns the address and advances the counter; the outer option is a panic (a slice
  out of range or a remainder by zero).\<close>

definition Get :: "IPPool \<Rightarrow> (string \<times> IPPool) option" where
  "Get p =
     (if curValidIPs p = 0 then Some (fallbackIP p, p)
      else do {
        indexes \<leftarrow> slice (bestIndexes p) 0 (curValidIPs p);
        weights \<leftarrow> slice (bestWeights p) 0 (curValidIPs p);
        if totalWeight p = 0 then None
        else let target = unat (counter p) mod totalWeight p; p' = p\<lparr>counter := counter p + 1\<rparr> in
          (case pickIndex indexes weights 0 target of
             Some i \<Rightarrow> do { ip \<leftarrow> Prelude.at (ips p) i; Some (ip, p') }
           | None \<Rightarrow> Some (fallbackIP p, p'))
      })"

definition getFromIPPool :: "(string \<times> IPPool) list \<Rightarrow> string \<Rightarrow> (string res \<times> (string \<times> IPPool) list) option" where
  "getFromIPPool pools tag =
     (if pools = [] then Some (Inl (ErrNew ''no ip pools''), pools)
      else case map_of pools tag of
        None \<Rightarrow> Some (Inl (ErrNew (''ip pool '' @ tag @ '' does not exist'')), pools)
      | Some pool \<Rightarrow> do {
          (ip, pool') \<leftarrow> Get pool;
          let pools' = map (\<lambda>(t, q). (t, if t = tag then pool' else q)) pools;
          Some (if ip = [] then Inl (ErrNew (''cannot get ip from '' @ tag)) else Inr ip, pools')
        })"

section \<open>The invariant\<close>

definition poolOK :: "IPPool \<Rightarrow> bool" where
  "poolOK p \<longleftrightarrow>
     length (bestIndexes p) = topIPCount p \<and> length (bestWeights p) = topIPCount p \<and>
     curValidIPs p \<le> topIPCount p \<and>
     (\<forall>i < curValidIPs p. bestIndexes p ! i < length (ips p) \<and> 1 \<le> bestWeights p ! i \<and> bestWeights p ! i \<le> 10000) \<and>
     distinct (take (curValidIPs p) (bestIndexes p)) \<and>
     totalWeight p = sum_list (take (curValidIPs p) (bestWeights p))"

lemma weightOf_bounds: "1 \<le> weightOf r \<and> weightOf r \<le> 10000"
proof -
  have "1 \<le> nat \<lfloor>x\<rfloor> \<and> nat \<lfloor>x\<rfloor> \<le> 10000" if "1 \<le> x" "x \<le> 10000" for x :: rat
    using that by (simp add: le_nat_iff nat_le_iff floor_le_iff)
  then show ?thesis by (simp add: weightOf_def Let_def minWeight_def maxWeight_def)
qed

lemma bestLoop_ok:
  assumes "length idx = topN" "length ws = topN" "i \<le> topN"
    and "\<forall>k < i. idx ! k < n \<and> 1 \<le> ws ! k \<and> ws ! k \<le> 10000" "tot = sum_list (take i ws)"
    and "\<forall>r \<in> set rs. ipIndex r < n" "distinct (take i idx @ map ipIndex rs)"
  shows "\<exists>idx' ws' tot' v. bestLoop topN i rs idx ws tot = Some (idx', ws', tot', v) \<and>
    length idx' = topN \<and> length ws' = topN \<and> v \<le> topN \<and>
    (\<forall>k < v. idx' ! k < n \<and> 1 \<le> ws' ! k \<and> ws' ! k \<le> 10000) \<and> tot' = sum_list (take v ws') \<and>
    distinct (take v idx') \<and> (0 < topN \<longrightarrow> rs \<noteq> [] \<longrightarrow> 0 < v) \<and> i \<le> v"
  using assms
proof (induction topN i rs idx ws tot rule: bestLoop.induct)
  case (2 topN i r rs idx ws tot)
  show ?case
  proof (cases "i < topN")
    case True
    let ?idx = "idx[i := ipIndex r]" and ?ws = "ws[i := weightOf r]"
    have idx: "take (i + 1) ?idx = take i idx @ [ipIndex r]" "take (i + 1) ?ws = take i ws @ [weightOf r]"
      using True 2 by (simp_all add: take_Suc_conv_app_nth)
    have w: "\<forall>k < i + 1. ?idx ! k < n \<and> 1 \<le> ?ws ! k \<and> ?ws ! k \<le> 10000"
      using True 2 weightOf_bounds [of r] by (auto simp: nth_list_update less_Suc_eq)
    have "\<exists>idx' ws' tot' v. bestLoop topN (i + 1) rs ?idx ?ws (tot + weightOf r) = Some (idx', ws', tot', v) \<and>
        length idx' = topN \<and> length ws' = topN \<and> v \<le> topN \<and>
        (\<forall>k < v. idx' ! k < n \<and> 1 \<le> ws' ! k \<and> ws' ! k \<le> 10000) \<and> tot' = sum_list (take v ws') \<and>
        distinct (take v idx') \<and> (0 < topN \<longrightarrow> rs \<noteq> [] \<longrightarrow> 0 < v) \<and> i + 1 \<le> v"
      using True 2 w idx by (intro "2.IH") auto
    with True 2 show ?thesis by auto
  next
    case False
    with 2 show ?thesis by auto
  qed
qed auto

lemma clearLoop_ok: "i + n \<le> length ws \<Longrightarrow> \<exists>ws'. clearLoop i n ws = Some ws' \<and> length ws' = length ws \<and> take i ws' = take i ws"
proof (induction i n ws rule: clearLoop.induct)
  case (2 i n ws)
  then obtain ws' where "clearLoop (i + 1) n (ws[i := 0]) = Some ws'" "length ws' = length ws"
    "take (i + 1) ws' = take (i + 1) (ws[i := 0])" by auto
  moreover from this have "take i ws' = take i ws"
    by (metis le_add1 min.absorb1 take_take take_update_cancel order_refl)
  ultimately show ?case using 2 by auto
qed simp

lemma updateBest_ok:
  assumes "poolOK p" "\<forall>r \<in> set rs. ipIndex r < length (ips p)" "distinct (map ipIndex rs)"
  shows "\<exists>p'. updateBest p rs = Some p' \<and> poolOK p' \<and> ips p' = ips p \<and> fallbackIP p' = fallbackIP p"
proof (cases "rs = []")
  case False
  let ?rs = "sortResults rs"
  have s: "\<forall>r \<in> set ?rs. ipIndex r < length (ips p)" using assms(2) by (simp add: sortResults_def)
  have d: "distinct (map ipIndex ?rs)" using assms(3) by (simp add: distinct_map sortResults_def)
  have lens: "length (bestIndexes p) = topIPCount p" "length (bestWeights p) = topIPCount p"
    using assms(1) by (simp_all add: poolOK_def)
  obtain idx ws tot v where b: "bestLoop (topIPCount p) 0 ?rs (bestIndexes p) (bestWeights p) 0 = Some (idx, ws, tot, v)"
    "length idx = topIPCount p" "length ws = topIPCount p" "v \<le> topIPCount p"
    "\<forall>k < v. idx ! k < length (ips p) \<and> 1 \<le> ws ! k \<and> ws ! k \<le> 10000" "tot = sum_list (take v ws)" "distinct (take v idx)"
    using bestLoop_ok [OF lens, of 0 "length (ips p)" 0 ?rs] s d by auto
  obtain ws' where c: "clearLoop v (topIPCount p - v) ws = Some ws'" "length ws' = length ws" "take v ws' = take v ws"
    using clearLoop_ok [of v "topIPCount p - v" ws] b(3,4) by auto
  have n: "ws' ! k = ws ! k" if "k < v" for k using c(3) that by (metis nth_take)
  have "updateBest p rs = Some (p\<lparr>bestIndexes := idx, bestWeights := ws', curValidIPs := v, totalWeight := tot\<rparr>)"
    using False b c by (auto simp: updateBest_def)
  moreover have "poolOK (p\<lparr>bestIndexes := idx, bestWeights := ws', curValidIPs := v, totalWeight := tot\<rparr>)"
    using b c n by (auto simp: poolOK_def)
  ultimately show ?thesis by simp
qed (use assms in \<open>simp add: updateBest_def\<close>)

lemma scan_ok:
  assumes "poolOK p" "set order \<subseteq> {..<length (ips p)}" "distinct order"
  shows "\<exists>p'. scan p probe order = Some p' \<and> poolOK p' \<and> ips p' = ips p \<and> fallbackIP p' = fallbackIP p"
proof -
  have i: "ipIndex (testIP p probe k) = k" for k by (simp add: testIP_def Let_def)
  have "distinct (map ipIndex (filter (\<lambda>r. loss r < 1) (map (testIP p probe) order)))"
    using assms(3) by (simp add: distinct_map inj_on_def filter_map i)
  then show ?thesis unfolding scan_def using assms(1,2) by (intro updateBest_ok) (auto simp: i)
qed

lemma unmarshalIPPool_ok: "unmarshalIPPool lookupIP j = Inr p \<Longrightarrow> poolOK p \<and> curValidIPs p = 0"
  unfolding unmarshalIPPool_def poolFromTmp_def Let_def res_iff by (elim exE conjE) (auto simp: poolOK_def)

section \<open>The choice\<close>

text \<open>The position at which the accumulated weight exceeds the target.\<close>

fun pickPos :: "nat list \<Rightarrow> nat \<Rightarrow> nat" where
  "pickPos [] t = 0"
| "pickPos (w # ws) t = (if t < w then 0 else Suc (pickPos ws (t - w)))"

lemma pickPos_less: "t < sum_list ws \<Longrightarrow> pickPos ws t < length ws"
  by (induction ws arbitrary: t) auto

lemma pickIndex_pos:
  "length idx = length ws \<Longrightarrow> acc \<le> t \<Longrightarrow> t < acc + sum_list ws \<Longrightarrow>
   pickIndex idx ws acc t = Some (idx ! pickPos ws (t - acc))"
proof (induction idx ws acc t rule: pickIndex.induct)
  case (1 i idx w ws acc t)
  show ?case
  proof (cases "acc + w > t")
    case False
    then have "pickIndex idx ws (acc + w) t = Some (idx ! pickPos ws (t - (acc + w)))"
      using 1 by simp
    moreover have "\<not> t - acc < w" using False by arith
    ultimately show ?thesis using False by simp
  next
    case True
    then have "t - acc < w" using "1.prems"(2) by arith
    with True show ?thesis by simp
  qed
qed simp_all

definition chosen :: "IPPool \<Rightarrow> nat \<Rightarrow> nat" where
  "chosen p c = bestIndexes p ! pickPos (take (curValidIPs p) (bestWeights p)) (c mod totalWeight p)"

lemma total_pos: "poolOK p \<Longrightarrow> 0 < curValidIPs p \<Longrightarrow> 0 < totalWeight p"
proof -
  assume p: "poolOK p" and v: "0 < curValidIPs p"
  then have "bestWeights p ! 0 \<in> set (take (curValidIPs p) (bestWeights p))" "1 \<le> bestWeights p ! 0"
    by (auto simp: poolOK_def in_set_conv_nth intro!: exI [of _ 0])
  then show ?thesis using p member_le_sum_list [of "bestWeights p ! 0"] by (fastforce simp: poolOK_def)
qed

lemma pickPos_valid:
  assumes "poolOK p" "0 < curValidIPs p"
  shows "pickPos (take (curValidIPs p) (bestWeights p)) (c mod totalWeight p) < curValidIPs p"
  using pickPos_less [of "c mod totalWeight p" "take (curValidIPs p) (bestWeights p)"] total_pos [OF assms] assms(1)
  by (simp add: poolOK_def)

lemma chosen_less: "poolOK p \<Longrightarrow> 0 < curValidIPs p \<Longrightarrow> chosen p c < length (ips p)"
  using pickPos_valid [of p c] by (simp add: chosen_def poolOK_def)

lemma Get_run:
  assumes "poolOK p" "0 < curValidIPs p"
  shows "Get p = Some (ips p ! chosen p (unat (counter p)), p\<lparr>counter := counter p + 1\<rparr>)"
proof -
  let ?ws = "take (curValidIPs p) (bestWeights p)" and ?idx = "take (curValidIPs p) (bestIndexes p)"
  let ?t = "unat (counter p) mod totalWeight p"
  note tot = total_pos [OF assms]
  have t: "?t < sum_list ?ws" using tot assms(1) by (simp add: poolOK_def)
  have l: "length ?idx = length ?ws" "curValidIPs p \<le> length (bestIndexes p)" "curValidIPs p \<le> length (bestWeights p)"
    using assms(1) by (simp_all add: poolOK_def)
  have "pickIndex ?idx ?ws 0 ?t = Some (chosen p (unat (counter p)))"
    using pickIndex_pos [OF l(1), of 0 ?t] t pickPos_valid [OF assms] by (simp add: chosen_def)
  then show ?thesis using assms(2) tot chosen_less [OF assms] l by (simp add: Get_def Let_def Prelude.at_def)
qed

section \<open>Properties\<close>

text \<open>What happens to a pool after it is configured: scans, whose results arrive in any order, and
  choices of an address.\<close>

inductive pool_step :: "IPPool \<Rightarrow> IPPool \<Rightarrow> bool" where
  scanned: "distinct order \<Longrightarrow> set order = {..<length (ips p)} \<Longrightarrow> scan p probe order = Some p' \<Longrightarrow> pool_step p p'"
| got: "Get p = Some (ip, p') \<Longrightarrow> pool_step p p'"

lemma pool_step_ok:
  assumes "pool_step p p'" "poolOK p"
  shows "poolOK p' \<and> ips p' = ips p \<and> fallbackIP p' = fallbackIP p"
  using assms
proof cases
  case (scanned order probe)
  with scan_ok [of p order probe] assms(2) show ?thesis by auto
next
  case (got ip)
  show ?thesis
  proof (cases "curValidIPs p = 0")
    case True
    with got assms(2) show ?thesis by (simp add: Get_def)
  next
    case False
    with got Get_run [OF assms(2)] have "p' = p\<lparr>counter := counter p + 1\<rparr>" by simp
    with assms(2) show ?thesis by (simp add: poolOK_def)
  qed
qed

lemma pool_reach_ok:
  assumes "pool_step\<^sup>*\<^sup>* p p'" "poolOK p"
  shows "poolOK p' \<and> ips p' = ips p \<and> fallbackIP p' = fallbackIP p"
  using assms by (induction rule: rtranclp_induct) (auto dest: pool_step_ok)

text \<open>C17. A configured pool never panics. After any sequence of scans and choices its invariant
  holds: the tables have the configured size, the entries in use are distinct addresses of
  the pool with weights between 1 and 10000 that add up to the total. So the next scan
  succeeds, and the next choice returns an address of the pool, or the fallback if no
  address has been found valid.\<close>

theorem pool_invariant:
  assumes "unmarshalIPPool lookupIP j = Inr p0" "pool_step\<^sup>*\<^sup>* p0 p"
    and "distinct order" "set order = {..<length (ips p)}"
  shows "poolOK p \<and> (\<exists>p'. scan p probe order = Some p') \<and>
    (\<exists>ip p'. Get p = Some (ip, p') \<and> (if curValidIPs p = 0 then ip = fallbackIP p0 else ip \<in> set (ips p0)))"
proof -
  have r: "poolOK p" "ips p = ips p0" "fallbackIP p = fallbackIP p0"
    using pool_reach_ok [OF assms(2)] unmarshalIPPool_ok [OF assms(1)] by auto
  have "\<exists>p'. scan p probe order = Some p'" using scan_ok [OF r(1)] assms(3,4) by blast
  moreover have "\<exists>ip p'. Get p = Some (ip, p') \<and> (if curValidIPs p = 0 then ip = fallbackIP p0 else ip \<in> set (ips p0))"
  proof (cases "curValidIPs p = 0")
    case True
    then show ?thesis by (simp add: Get_def r)
  next
    case False
    with Get_run [OF r(1)] chosen_less [OF r(1)] r(2) show ?thesis by auto
  qed
  ultimately show ?thesis using r(1) by blast
qed

text \<open>A number of consecutive choices.\<close>

fun getN :: "nat \<Rightarrow> IPPool \<Rightarrow> (string list \<times> IPPool) option" where
  "getN 0 p = Some ([], p)"
| "getN (Suc n) p = do { (ip, p1) \<leftarrow> Get p; (rest, p2) \<leftarrow> getN n p1; Some (ip # rest, p2) }"

lemma getN_run:
  "poolOK p \<Longrightarrow> 0 < curValidIPs p \<Longrightarrow> unat (counter p) + n \<le> 2 ^ 32 \<Longrightarrow>
   \<exists>p'. getN n p = Some (map (\<lambda>k. ips p ! chosen p (unat (counter p) + k)) [0..<n], p')"
proof (induction n arbitrary: p)
  case (Suc n)
  let ?p = "p\<lparr>counter := counter p + 1\<rparr>"
  have c: "poolOK ?p" "0 < curValidIPs ?p" using Suc.prems by (simp_all add: poolOK_def)
  have u: "unat (counter p + 1) = unat (counter p) + 1" if "n \<noteq> 0"
    using Suc.prems(3) that by (simp add: unat_add_lem [THEN iffD1])
  have "\<exists>p'. getN n ?p = Some (map (\<lambda>k. ips ?p ! chosen ?p (unat (counter ?p) + k)) [0..<n], p')"
  proof (cases "n = 0")
    case False
    with u Suc.prems(3) show ?thesis by (intro Suc.IH c) simp
  qed simp
  then obtain p' where p': "getN n ?p = Some (map (\<lambda>k. ips p ! chosen p (unat (counter p + 1) + k)) [0..<n], p')"
    by (auto simp: chosen_def)
  have "map (\<lambda>k. ips p ! chosen p (unat (counter p) + k)) [0..<Suc n] =
      ips p ! chosen p (unat (counter p)) # map (\<lambda>k. ips p ! chosen p (unat (counter p + 1) + k)) [0..<n]"
    using u by (cases "n = 0") (simp_all add: upt_conv_Cons map_Suc_upt [symmetric] del: upt_Suc)
  then show ?case using Get_run [OF Suc.prems(1,2)] p' by simp
qed simp

lemma card_pickPos: "j < length ws \<Longrightarrow> card {t. t < sum_list ws \<and> pickPos ws t = j} = ws ! j"
proof (induction ws arbitrary: j)
  case (Cons w ws)
  show ?case
  proof (cases j)
    case 0
    have "{t. t < sum_list (w # ws) \<and> pickPos (w # ws) t = 0} = {..<w}" by auto
    then show ?thesis by (simp add: 0)
  next
    case (Suc i)
    have "{t. t < sum_list (w # ws) \<and> pickPos (w # ws) t = Suc i} = (\<lambda>t. t + w) ` {t. t < sum_list ws \<and> pickPos ws t = i}"
    proof (intro equalityI subsetI)
      fix t assume "t \<in> {t. t < sum_list (w # ws) \<and> pickPos (w # ws) t = Suc i}"
      then have "\<not> t < w" "t - w < sum_list ws" "pickPos ws (t - w) = i" by (auto split: if_splits)
      then show "t \<in> (\<lambda>t. t + w) ` {t. t < sum_list ws \<and> pickPos ws t = i}"
        by (intro image_eqI [of _ _ "t - w"]) auto
    qed auto
    then show ?thesis using Cons by (simp add: Suc card_image)
  qed
qed simp

lemma rotate_bij: "bij_betw (\<lambda>k. (c + k) mod n) {..<n} {..<n :: nat}"
proof -
  have "inj_on (\<lambda>k. (c + k) mod n) {..<n}"
  proof (rule inj_onI)
    fix a b assume a: "a \<in> {..<n}" "b \<in> {..<n}" "(c + a) mod n = (c + b) mod n"
    have "x = y" if "x \<le> y" "y < n" "(c + x) mod n = (c + y) mod n" for x y
    proof -
      have "n dvd (c + y) - (c + x)" using that by (metis add_le_cancel_left mod_eq_dvd_iff_nat)
      then have "n dvd y - x" by simp
      moreover have "\<not> n dvd y - x" if "x < y" using that \<open>y < n\<close> by (intro nat_dvd_not_less) auto
      ultimately show ?thesis using \<open>x \<le> y\<close> by (cases "x < y") auto
    qed
    note e = this
    have "a < n" "b < n" using a(1,2) by simp_all
    then show "a = b" using e [OF _ _ a(3)] e [OF _ _ a(3) [symmetric]] by (cases "a \<le> b") auto 
  qed
  moreover have "(\<lambda>k. (c + k) mod n) ` {..<n} = {..<n}"
    using \<open>inj_on _ _\<close> by (intro card_subset_eq) (auto simp: card_image)
  ultimately show ?thesis by (simp add: bij_betw_def)
qed

lemma card_chosen:
  assumes "poolOK p" "i < curValidIPs p"
  shows "card {k. k < totalWeight p \<and> chosen p (c + k) = bestIndexes p ! i} = bestWeights p ! i"
proof -
  let ?ws = "take (curValidIPs p) (bestWeights p)" and ?n = "totalWeight p"
  have n: "?n = sum_list ?ws" "length ?ws = curValidIPs p" using assms(1) by (simp_all add: poolOK_def)
  have pos: "0 < ?n" using total_pos [OF assms(1)] assms(2) by simp
  have d: "bestIndexes p ! a = bestIndexes p ! i \<longleftrightarrow> a = i" if "a < curValidIPs p" for a
  proof -
    have "distinct (take (curValidIPs p) (bestIndexes p))" "curValidIPs p \<le> length (bestIndexes p)"
      using assms(1) by (simp_all add: poolOK_def)
    with that assms(2) show ?thesis using nth_eq_iff_index_eq [of "take (curValidIPs p) (bestIndexes p)" a i] by simp
  qed
  have "{k. k < ?n \<and> chosen p (c + k) = bestIndexes p ! i} = {k \<in> {..<?n}. pickPos ?ws ((c + k) mod ?n) = i}"
    using d pickPos_less [of _ ?ws] pos by (auto simp: chosen_def n)
  also have "card \<dots> = card {t \<in> {..<?n}. pickPos ?ws t = i}"
  proof -
    let ?f = "\<lambda>k. (c + k) mod ?n" and ?B = "{t \<in> {..<?n}. pickPos ?ws t = i}"
    have b: "inj_on ?f {..<?n}" "?f ` {..<?n} = {..<?n}" using rotate_bij [of c ?n] by (simp_all add: bij_betw_def)
    have "?B = ?f ` {k \<in> {..<?n}. pickPos ?ws (?f k) = i}"
    proof (intro equalityI subsetI)
      fix t assume t: "t \<in> ?B"
      then have "t \<in> ?f ` {..<?n}" using b(2) by simp
      with t show "t \<in> ?f ` {k \<in> {..<?n}. pickPos ?ws (?f k) = i}" by auto
    qed (use pos in auto)
    moreover have "inj_on ?f {k \<in> {..<?n}. pickPos ?ws (?f k) = i}" by (rule inj_on_subset [OF b(1)]) auto
    ultimately show ?thesis by (simp only: card_image)
  qed
  also have "\<dots> = ?ws ! i" using card_pickPos [of i ?ws] assms(2) n by simp
  finally show ?thesis using assms(2) by simp
qed

lemma count_list_map: "count_list (map f [0..<n]) x = card {k. k < n \<and> f k = x}"
proof (induction n)
  case (Suc n)
  have "{k. k < Suc n \<and> f k = x} = {k. k < n \<and> f k = x} \<union> (if f n = x then {n} else {})"
    by (auto simp: less_Suc_eq)
  then show ?case using Suc by (auto simp: card_insert_if)
qed simp

text \<open>C18. The choice is a weighted round robin. In every state a configured pool can reach, as many
  consecutive choices as the total weight return every address in use exactly as often as
  its weight says, if the counter does not wrap around on the way and the addresses of the
  pool are distinct.\<close>

theorem pool_fair:
  assumes "unmarshalIPPool lookupIP j = Inr p0" "pool_step\<^sup>*\<^sup>* p0 p" "distinct (ips p0)"
    and "i < curValidIPs p" "unat (counter p) + totalWeight p \<le> 2 ^ 32"
  shows "\<exists>rs p'. getN (totalWeight p) p = Some (rs, p') \<and>
    count_list rs (ips p ! (bestIndexes p ! i)) = bestWeights p ! i"
proof -
  have r: "poolOK p" "ips p = ips p0"
    using pool_reach_ok [OF assms(2)] unmarshalIPPool_ok [OF assms(1)] by auto
  have v: "0 < curValidIPs p" using assms(4) by simp
  let ?c = "unat (counter p)"
  obtain p' where g: "getN (totalWeight p) p = Some (map (\<lambda>k. ips p ! chosen p (?c + k)) [0..<totalWeight p], p')"
    using getN_run [OF r(1) v assms(5)] by blast
  note less = chosen_less [OF r(1) v]
  have "bestIndexes p ! i < length (ips p)" using r(1) assms(4) by (simp add: poolOK_def)
  then have "ips p ! chosen p c = ips p ! (bestIndexes p ! i) \<longleftrightarrow> chosen p c = bestIndexes p ! i" for c
    using nth_eq_iff_index_eq [of "ips p"] less assms(3) r(2) by simp
  then have "count_list (map (\<lambda>k. ips p ! chosen p (?c + k)) [0..<totalWeight p]) (ips p ! (bestIndexes p ! i)) =
      bestWeights p ! i"
    using card_chosen [OF r(1) assms(4)] by (simp only: count_list_map)
  with g show ?thesis by blast
qed

text \<open>An example: two addresses, one attempt each, and all attempts succeed.\<close>

definition examplePool :: json where
  "examplePool = JObj [(''ips'', JArr [JStr ''10.0.0.(1|2)'']), (''port'', JNum ''443''), (''attempts'', JNum ''1'')]"

definition noLookup :: lookup where
  "noLookup s = Inl (ErrNew ''no such host'')"

lemma rnd_1: "rnd 1 = 1"
proof -
  have "mkFloat (Suc 0) (Suc 0) 0 = (4503599627370496, -52)" by code_simp
  then show ?thesis by (simp add: rnd_def rat_one_code pow2_def)
qed

lemma rnd_0: "rnd 0 = 0"
  by (simp add: rnd_def)

lemma bestLoop_some: "bestLoop topN i rs idx ws tot = Some (idx', ws', tot', v) \<Longrightarrow> i \<le> v \<and> (i < topN \<longrightarrow> rs \<noteq> [] \<longrightarrow> i < v)"
  by (induction topN i rs idx ws tot rule: bestLoop.induct) (fastforce split: if_splits)+

lemma scan_valid:
  assumes "scan p probe order = Some p'" "attempts p = 1" "0 < topIPCount p" "\<forall>i. probe i 0 \<noteq> None" "order \<noteq> []"
  shows "0 < curValidIPs p'"
proof -
  have "loss (testIP p probe i) = 0" for i
    using assms(2,4) by (auto simp: testIP_def Let_def map_filter_def rnd_1 rnd_0)
  then have "filter (\<lambda>r. loss r < 1) (map (testIP p probe) order) = map (testIP p probe) order" by simp
  then have u: "updateBest p (map (testIP p probe) order) = Some p'" using assms(1) by (simp add: scan_def)
  have "sortResults (map (testIP p probe) order) \<noteq> []" using assms(5)
    by (metis length_0_conv length_map length_sort sortResults_def)
  with u assms(3,5) show ?thesis
    by (auto simp: updateBest_def res_iff split: prod.splits if_splits dest: bestLoop_some)
qed

lemma total_le: "poolOK p \<Longrightarrow> totalWeight p \<le> 10000 * topIPCount p"
proof -
  assume p: "poolOK p"
  have "sum_list (take n ws) \<le> 10000 * n" if "\<forall>i < n. ws ! i \<le> 10000" "n \<le> length ws" for n and ws :: "nat list"
    using that by (induction n) (auto simp: take_Suc_conv_app_nth)
  from this [of "curValidIPs p" "bestWeights p"] p show ?thesis by (auto simp: poolOK_def)
qed

theorem pool_invariant_witness:
  "\<exists>p. unmarshalIPPool noLookup examplePool = Inr p \<and> Get p = Some ('''', p)"
proof -
  have "\<not> isl (unmarshalIPPool noLookup examplePool)" by code_simp
  then obtain p where p: "unmarshalIPPool noLookup examplePool = Inr p" by (rule not_isl_obtain)
  have "fallbackIP (projr (unmarshalIPPool noLookup examplePool)) = ''''" by code_simp
  moreover have "distinct [0..<length (ips p)]" "set [0..<length (ips p)] = {..<length (ips p)}" by auto
  from pool_invariant [OF p rtranclp.rtrancl_refl this, of "\<lambda>_ _. None"]
  obtain ip p' where "Get p = Some (ip, p')" "if curValidIPs p = 0 then ip = fallbackIP p else ip \<in> set (ips p)" by blast
  ultimately show ?thesis using p unmarshalIPPool_ok [OF p] by (auto simp: Get_def)
qed

theorem pool_fair_witness:
  "\<exists>p0 p rs p'. unmarshalIPPool noLookup examplePool = Inr p0 \<and> scan p0 (\<lambda>_ _. Some 2000000) [1, 0] = Some p \<and>
     getN (totalWeight p) p = Some (rs, p') \<and> count_list rs (ips p ! (bestIndexes p ! 0)) = bestWeights p ! 0"
proof -
  have "\<not> isl (unmarshalIPPool noLookup examplePool)" by code_simp
  then obtain p0 where p0: "unmarshalIPPool noLookup examplePool = Inr p0" by (rule not_isl_obtain)
  have "ips (projr (unmarshalIPPool noLookup examplePool)) = [''10.0.0.1'', ''10.0.0.2'']" by code_simp
  moreover have "attempts (projr (unmarshalIPPool noLookup examplePool)) = 1" by code_simp
  moreover have "topIPCount (projr (unmarshalIPPool noLookup examplePool)) = 3" by code_simp
  moreover have "counter (projr (unmarshalIPPool noLookup examplePool)) = 0" by code_simp
  ultimately have f: "ips p0 = [''10.0.0.1'', ''10.0.0.2'']" "attempts p0 = 1" "topIPCount p0 = 3" "counter p0 = 0"
    using p0 by simp_all
  have ok: "poolOK p0" using unmarshalIPPool_ok [OF p0] by blast
  have o: "distinct [1, 0 :: nat]" "set [1, 0] = {..<length (ips p0)}" using f(1) by auto
  obtain p where p: "scan p0 (\<lambda>_ _. Some 2000000) [1, 0] = Some p" "poolOK p"
    using scan_ok [OF ok, of "[1, 0]" "\<lambda>_ _. Some 2000000"] o by auto
  have r: "pool_step\<^sup>*\<^sup>* p0 p" using pool_step.scanned [OF o p(1)] by blast
  have v: "0 < curValidIPs p" using scan_valid [OF p(1)] f by simp
  have "counter p = 0 \<and> topIPCount p = 3"
    using p(1) f(3,4) by (auto simp: scan_def updateBest_def res_iff split: if_splits prod.splits)
  with total_le [OF p(2)] have c: "unat (counter p) + totalWeight p \<le> 2 ^ 32" by simp
  have "distinct (ips p0)" by (simp add: f)
  from pool_fair [OF p0 r this v c] p0 p(1) show ?thesis by blast
qed

section \<open>Bounds of the configuration\<close>

lemma cidrLoop_size: "cidrLoop s prefix addr out = Inr out' \<Longrightarrow> length out \<le> maxIPPoolSize \<Longrightarrow> length out' \<le> maxIPPoolSize"
proof (induction s prefix addr out rule: cidrLoop.induct)
  case (1 s prefix addr out)
  from "1.prems" show ?case
    by (subst (asm) cidrLoop.simps) (auto simp: Let_def maxIPPoolSize_def split: if_splits dest: "1.IH" [rotated 5])
qed

lemma foldRes_inv:
  "(\<And>x a b. f x a = Inr b \<Longrightarrow> I a \<Longrightarrow> I b) \<Longrightarrow> foldRes f xs a = Inr b \<Longrightarrow> I a \<Longrightarrow> I b"
  by (induction xs arbitrary: a) (auto simp: res_iff)

lemma parseIPSource_size:
  assumes "parseIPSource lookupIP s out = Inr out'" "length out \<le> maxIPPoolSize"
  shows "length out' \<le> maxIPPoolSize"
proof -
  have "length b \<le> maxIPPoolSize" if "addLookup s x a = Inr b" "length a \<le> maxIPPoolSize" for x a b
    using that by (auto simp: addLookup_def split: if_splits)
  then have "foldRes (addLookup s) addrs out = Inr out' \<Longrightarrow> length out' \<le> maxIPPoolSize" for addrs
    using foldRes_inv [where f = "addLookup s" and I = "\<lambda>a. length a \<le> maxIPPoolSize"] assms(2) by blast
  with assms cidrLoop_size show ?thesis
    by (auto simp: parseIPSource_def split: if_splits sum.splits)
qed

lemma parseIPList_size: "parseIPList lookupIP sources = Inr out \<Longrightarrow> length out \<le> maxIPPoolSize"
  unfolding parseIPList_def
  by (rule foldRes_inv [where I = "\<lambda>a. length a \<le> maxIPPoolSize"]) (auto dest: parseIPSource_size)

lemma poolDuration_pos: "poolDuration name s d = Inr t \<Longrightarrow> 0 < d \<Longrightarrow> 0 < t"
  by (auto simp: poolDuration_def split: if_splits sum.splits)



end
