(* ===== verification/Effects.thy ===== *)
theory Effects
  imports Prelude
begin

text \<open>
  Calls that read and change a state: a state goes in, a result and the new state come out, and
  \<^const>\<open>None\<close> is a panic. \<open>bindE\<close> is the code's \<^verbatim>\<open>if err != nil { return err }\<close> after a call. The predicate
  \<open>returns\<close> states total correctness: the call returns, and its result and final state are as
  stated.
\<close>

type_synonym ('s, 'a) eff = "'s \<Rightarrow> ('a \<times> 's) option"

definition ret :: "'a \<Rightarrow> ('s, 'a) eff" where
  "ret x s = Some (x, s)"

definition gets :: "('s \<Rightarrow> 'a) \<Rightarrow> ('s, 'a) eff" where
  "gets f s = Some (f s, s)"

definition modify :: "('s \<Rightarrow> 's) \<Rightarrow> ('s, unit) eff" where
  "modify f s = Some ((), f s)"

definition bindS :: "('s, 'a) eff \<Rightarrow> ('a \<Rightarrow> ('s, 'b) eff) \<Rightarrow> ('s, 'b) eff" where
  "bindS m f s = (case m s of None \<Rightarrow> None | Some (x, s') \<Rightarrow> f x s')"

definition bindE :: "('s, 'a res) eff \<Rightarrow> ('a \<Rightarrow> ('s, 'b res) eff) \<Rightarrow> ('s, 'b res) eff" where
  "bindE m f = bindS m (\<lambda>r. case r of Inl e \<Rightarrow> ret (Inl e) | Inr x \<Rightarrow> f x)"

text \<open>The same with the error wrapped in a message (\<^verbatim>\<open>E.WithStr\<close>).\<close>

definition wrapE :: "string \<Rightarrow> ('s, 'a res) eff \<Rightarrow> ('s, 'a res) eff" where
  "wrapE msg m = bindS m (\<lambda>r. case r of Inl e \<Rightarrow> ret (Inl (OpError msg e)) | Inr x \<Rightarrow> ret (Inr x))"

text \<open>A call on a part of the state.\<close>

definition on :: "('s \<Rightarrow> 't) \<Rightarrow> ('t \<Rightarrow> 's \<Rightarrow> 's) \<Rightarrow> ('t, 'a) eff \<Rightarrow> ('s, 'a) eff" where
  "on get put m s = (case m (get s) of None \<Rightarrow> None | Some (x, t) \<Rightarrow> Some (x, put t s))"

lemma eff_simps [simp]:
  "ret x s = Some (x, s)"
  "gets f s = Some (f s, s)"
  "modify g s = Some ((), g s)"
  by (simp_all add: ret_def gets_def modify_def)

definition returns :: "('s, 'a) eff \<Rightarrow> 's \<Rightarrow> ('a \<Rightarrow> 's \<Rightarrow> bool) \<Rightarrow> bool" where
  "returns m s Q \<longleftrightarrow> (\<exists>x s'. m s = Some (x, s') \<and> Q x s')"

lemma returnsE: "returns m s Q \<Longrightarrow> (\<And>x s'. m s = Some (x, s') \<Longrightarrow> Q x s' \<Longrightarrow> P) \<Longrightarrow> P"
  by (auto simp: returns_def)

lemma returns_mono: "returns m s Q \<Longrightarrow> (\<And>x s'. m s = Some (x, s') \<Longrightarrow> Q x s' \<Longrightarrow> R x s') \<Longrightarrow> returns m s R"
  by (auto simp: returns_def)

lemma returns_ret [intro!]: "Q x s \<Longrightarrow> returns (ret x) s Q"
  by (simp add: returns_def)

lemma returns_gets [intro!]: "Q (f s) s \<Longrightarrow> returns (gets f) s Q"
  by (simp add: returns_def)

lemma returns_modify [intro!]: "Q () (f s) \<Longrightarrow> returns (modify f) s Q"
  by (simp add: returns_def)

lemma returns_bindS: "returns m s (\<lambda>x s'. returns (f x) s' Q) \<Longrightarrow> returns (bindS m f) s Q"
  by (auto simp: returns_def bindS_def)

lemma returns_bindE:
  "returns m s (\<lambda>r s'. case r of Inl e \<Rightarrow> Q (Inl e) s' | Inr x \<Rightarrow> returns (f x) s' Q) \<Longrightarrow> returns (bindE m f) s Q"
  unfolding bindE_def by (rule returns_bindS, erule returns_mono) (auto split: sum.splits)

lemma returns_wrapE:
  "returns m s (\<lambda>r s'. case r of Inl e \<Rightarrow> Q (Inl (OpError msg e)) s' | Inr x \<Rightarrow> Q (Inr x) s') \<Longrightarrow> returns (wrapE msg m) s Q"
  unfolding wrapE_def by (rule returns_bindS, erule returns_mono) (auto split: sum.splits)

lemma returns_on: "returns m (get s) (\<lambda>x t. Q x (put t s)) \<Longrightarrow> returns (on get put m) s Q"
  by (auto simp: returns_def on_def)

text \<open>The same as equations, for running a call on known results.\<close>

lemma bindS_run: "m s = Some (x, s') \<Longrightarrow> bindS m f s = f x s'"
  by (simp add: bindS_def)

lemma bindE_run:
  "m s = Some (Inr x, s') \<Longrightarrow> bindE m f s = f x s'"
  "m s = Some (Inl e, s') \<Longrightarrow> bindE m f s = Some (Inl e, s')"
  by (simp_all add: bindE_def bindS_def)

lemma wrapE_run:
  "m s = Some (Inr x, s') \<Longrightarrow> wrapE msg m s = Some (Inr x, s')"
  "m s = Some (Inl e, s') \<Longrightarrow> wrapE msg m s = Some (Inl (OpError msg e), s')"
  by (simp_all add: wrapE_def bindS_def)

lemma bindS_Some: "bindS m f s = Some r \<longleftrightarrow> (\<exists>x s'. m s = Some (x, s') \<and> f x s' = Some r)"
  by (auto simp: bindS_def split: option.splits)

lemma bindE_Inr: "bindE m f s = Some (Inr y, t) \<longleftrightarrow> (\<exists>x s'. m s = Some (Inr x, s') \<and> f x s' = Some (Inr y, t))"
  by (auto simp: bindE_def bindS_def split: option.splits sum.splits)

end
