(* ===== verification/Redirect.thy ===== *)
theory Redirect
  imports IP_Pool Effects
begin

text \<open>
  Redirection of addresses (\<^verbatim>\<open>core/policy.go\<close>: \<^verbatim>\<open>ipRedirect\<close>, \<^verbatim>\<open>transformIP\<close>) and NAT64 synthesis
  (\<^verbatim>\<open>core/nat64.go\<close>: \<^verbatim>\<open>mapNAT64Addr\<close>, \<^verbatim>\<open>isNAT64Enabled\<close>). The byte loops of the code are kept as loops over
  bytes; the properties say what they do to the bits of an address.
\<close>

unbundle bit_operations_syntax

section \<open>Moving an address into a network\<close>

definition addrOfBytes4 :: "nat list \<Rightarrow> Addr" where
  "addrOfBytes4 bs = V4 (word_of_int (bytesToInt bs))"

definition addrOfBytes16 :: "nat list \<Rightarrow> Addr" where
  "addrOfBytes16 bs = V6 (word_of_int (bytesToInt bs)) []"

text \<open>One byte of the result. Bytes are numbers below 256; the shift is one of \<^verbatim>\<open>uint8\<close>.\<close>

definition newByte :: "nat \<Rightarrow> nat \<Rightarrow> nat \<Rightarrow> nat \<Rightarrow> nat" where
  "newByte bits i netByte ipByte =
     (let bitPos = i * 8 in
      if bits \<ge> bitPos + 8 then netByte
      else if bits \<le> bitPos then ipByte
      else let maskBits = bits - bitPos; mask = 255 * 2 ^ (8 - maskBits) mod 256 in
        (netByte AND mask) OR (ipByte AND (255 - mask)))"

definition transformIP :: "string \<Rightarrow> string \<Rightarrow> string res" where
  "transformIP ipStr targetNetStr = (case ParseAddr ipStr of
       Inl _ \<Rightarrow> Inl (ErrNew ''invalid IP'')
     | Inr ip \<Rightarrow> (case ParsePrefix targetNetStr of
         Inl e \<Rightarrow> Inl (OpError ''invalid target network'' e)
       | Inr prefix \<Rightarrow>
           if Is4 ip \<noteq> Is4 (pAddr prefix)
           then Inl (ErrNew ''IP version mismatch between source IP and target network'')
           else
             let networkAddr = Masked prefix; bits = pBits prefix in
             Inr (AddrString (case (ip, networkAddr) of
               (V4 a, V4 n) \<Rightarrow> addrOfBytes4 (map (\<lambda>i. newByte bits i (bytes4 n ! i) (bytes4 a ! i)) [0..<4])
             | _ \<Rightarrow> addrOfBytes16 (map (\<lambda>i. newByte bits i (bytes16 (As16 networkAddr) ! i) (bytes16 (As16 ip) ! i)) [0..<16])))))"

section \<open>Redirection by policy\<close>

type_synonym pools = "(string \<times> IPPool) list"

definition ipRedirect :: "Tables \<Rightarrow> string \<Rightarrow> (pools, (string \<times> Policy option) res) eff" where
  "ipRedirect t ip = (case getIPPolicy t ip of
       None \<Rightarrow> ret (Inr (ip, None))
     | Some policy \<Rightarrow>
         if MapTo policy = [] \<or> MapTo policy = unsetString then ret (Inr (ip, Some policy))
         else if HasPrefix (MapTo policy) ''$''
         then bindE (\<lambda>pools. getFromIPPool pools (drop 1 (MapTo policy))) (\<lambda>mapTo. ret (Inr (mapTo, Some policy)))
         else if LastIndexByte (MapTo policy) (CHR ''/'') \<noteq> None
         then ret (case transformIP ip (MapTo policy) of Inl e \<Rightarrow> Inl e | Inr mapTo \<Rightarrow> Inr (mapTo, Some policy))
         else ret (Inr (MapTo policy, Some policy)))"

section \<open>NAT64\<close>

definition bytesOfIP :: "netIP \<Rightarrow> nat list" where
  "bytesOfIP ip = (case ip of IP4 a \<Rightarrow> bytes4 a | IP16 a \<Rightarrow> bytes16 a)"

definition nat64PrefixIP :: "string \<Rightarrow> netIP option" where
  "nat64PrefixIP prefix = (if ContainsStr prefix ''/'' then ParseCIDR prefix else map_option IP16 (ParseIP prefix))"

definition mapNAT64Addr :: "string \<Rightarrow> string \<Rightarrow> string \<times> bool" where
  "mapNAT64Addr ipStr prefix0 =
     (let prefix = TrimSpace prefix0 in
      if prefix = [] then (ipStr, True)
      else case ParseIP ipStr of
        None \<Rightarrow> (ipStr, True)
      | Some parsedIP \<Rightarrow> (case To4 parsedIP of
          None \<Rightarrow> (ipStr, False)
        | Some ipv4 \<Rightarrow>
            (case nat64PrefixIP prefix of
               None \<Rightarrow> (ipStr, True)
             | Some prefixIP \<Rightarrow>
                 if length (bytesOfIP prefixIP) \<noteq> 16 then (ipStr, True)
                 else (IPString (word_of_int (bytesToInt (take 12 (bytesOfIP prefixIP) @ bytes4 ipv4))), True))))"

definition isNAT64Enabled :: "Policy option \<Rightarrow> bool" where
  "isNAT64Enabled p = (case p of None \<Rightarrow> False | Some q \<Rightarrow> TrimSpace (Nat64Prefix q) \<noteq> [])"

section \<open>Bits of bytes\<close>

lemma bit_shifted_add:
  assumes "b < 256"
  shows "bit (x * 256 + int b) k \<longleftrightarrow> (if k < 8 then bit b k else bit x (k - 8))"
proof (cases "k < 8")
  case True
  then have "(256 :: int) = 2 ^ (8 - k) * 2 ^ k" by (simp flip: power_add)
  then have "(x * 256 + int b) div 2 ^ k = (int b + x * 2 ^ (8 - k) * 2 ^ k) div 2 ^ k" by (simp add: mult.assoc add.commute)
  also have "\<dots> = x * 2 ^ (8 - k) + int b div 2 ^ k" by simp
  finally have "(x * 256 + int b) div 2 ^ k = x * 2 ^ (8 - k) + int b div 2 ^ k" .
  moreover have "even (x * 2 ^ (8 - k))" using True by simp
  moreover have "int b div 2 ^ k = int (b div 2 ^ k)" by (simp add: zdiv_int)
  ultimately show ?thesis using True by (simp add: bit_iff_odd)
next
  case False
  then have "(2 :: int) ^ k = 256 * 2 ^ (k - 8)" using power_add [of "2 :: int" 8 "k - 8"] by simp
  then have "(x * 256 + int b) div 2 ^ k = x div 2 ^ (k - 8)"
    using assms by (simp add: zdiv_zmult2_eq)
  then show ?thesis using False by (simp add: bit_iff_odd)
qed

lemma bytesToInt_snoc: "bytesToInt (bs @ [b]) = bytesToInt bs * 256 + int b"
  by (simp add: bytesToInt_def)

lemma bit_bytesToInt:
  assumes "\<forall>b \<in> set bs. b < 256" "k < 8 * length bs"
  shows "bit (bytesToInt bs) k \<longleftrightarrow> bit (bs ! (length bs - 1 - k div 8)) (k mod 8)"
  using assms
proof (induction bs arbitrary: k rule: rev_induct)
  case (snoc b bs)
  show ?case
  proof (cases "k < 8")
    case True
    then show ?thesis using snoc.prems by (simp add: bytesToInt_snoc bit_shifted_add)
  next
    case False
    then have "bit (bytesToInt bs) (k - 8) \<longleftrightarrow> bit (bs ! (length bs - 1 - (k - 8) div 8)) ((k - 8) mod 8)"
      using snoc by simp
    moreover obtain q where q: "k div 8 = Suc q" using False by (cases "k div 8") auto
    moreover have "(k - 8) div 8 = q" "(k - 8) mod 8 = k mod 8"
      using False q by (simp_all add: le_mod_geq le_div_geq)
    moreover have "q < length bs" using q snoc.prems(2) by (metis Suc_less_eq length_append_singleton less_mult_imp_div_less mult.commute)
    moreover from this have "length bs - Suc q < length bs" by simp
    ultimately show ?thesis using False snoc.prems by (simp add: bytesToInt_snoc bit_shifted_add nth_append)
  qed
qed simp

lemma bit_bytesToInt_map:
  assumes "\<And>i. i < n \<Longrightarrow> f i < 256" "k < 8 * n"
  shows "bit (bytesToInt (map f [0..<n])) k \<longleftrightarrow> bit (f (n - 1 - k div 8)) (k mod 8)"
proof -
  have "n - 1 - k div 8 < n" using assms(2) by (cases n) auto
  then show ?thesis using bit_bytesToInt [of "map f [0..<n]" k] assms by auto
qed

lemma bytes_less: "i < 4 \<Longrightarrow> bytes4 a ! i < 256" "i < 16 \<Longrightarrow> bytes16 c ! i < 256"
  by (simp_all add: bytes4_def bytes16_def)

lemma bit_bytes:
  "i < 4 \<Longrightarrow> j < 8 \<Longrightarrow> bit (bytes4 a ! i) j \<longleftrightarrow> bit a (24 - 8 * i + j)"
  "i < 16 \<Longrightarrow> j < 8 \<Longrightarrow> bit (bytes16 c ! i) j \<longleftrightarrow> bit c (120 - 8 * i + j)"
proof -
  have b: "bit (unat (drop_bit m w) mod 256) j \<longleftrightarrow> j < 8 \<and> bit w (m + j)" for m j and w :: "'a :: len word"
  proof -
    have "unat (drop_bit m w) mod 256 = take_bit 8 (unat (drop_bit m w))" by (simp add: take_bit_eq_mod)
    then show ?thesis by (simp only: bit_take_bit_iff bit_unsigned_iff bit_drop_bit_eq) simp
  qed
  show "i < 4 \<Longrightarrow> j < 8 \<Longrightarrow> bit (bytes4 a ! i) j \<longleftrightarrow> bit a (24 - 8 * i + j)"
    "i < 16 \<Longrightarrow> j < 8 \<Longrightarrow> bit (bytes16 c ! i) j \<longleftrightarrow> bit c (120 - 8 * i + j)"
    by (simp_all add: bytes4_def bytes16_def b)
qed

lemma mask_bits:
  assumes "0 < m" "m < 8" "j < 8"
  shows "bit (255 * 2 ^ (8 - m) mod 256 :: nat) j \<longleftrightarrow> 8 - m \<le> j"
    "bit (255 - 255 * 2 ^ (8 - m) mod 256 :: nat) j \<longleftrightarrow> j < 8 - m"
proof -
  have "list_all (\<lambda>m. list_all (\<lambda>j. (bit (255 * 2 ^ (8 - m) mod 256 :: nat) j \<longleftrightarrow> 8 - m \<le> j) \<and>
      (bit (255 - 255 * 2 ^ (8 - m) mod 256 :: nat) j \<longleftrightarrow> j < 8 - m)) [0..<8]) [1..<8]"
    by code_simp
  then show "bit (255 * 2 ^ (8 - m) mod 256 :: nat) j \<longleftrightarrow> 8 - m \<le> j"
    "bit (255 - 255 * 2 ^ (8 - m) mod 256 :: nat) j \<longleftrightarrow> j < 8 - m"
    using assms by (simp_all add: list_all_iff)
qed

lemma bit_newByte:
  assumes "j < 8"
  shows "bit (newByte bits i n a) j \<longleftrightarrow> (if 8 * i + (7 - j) < bits then bit n j else bit a j)"
  using assms mask_bits [of "bits - 8 * i" j]
  by (auto simp: newByte_def Let_def bit_or_iff bit_and_iff mult.commute)

lemma newByte_less:
  assumes "n < 256" "a < 256"
  shows "newByte bits i n a < 256"
proof -
  have less: "x < 256 \<longleftrightarrow> (\<forall>k \<ge> 8. \<not> bit x k)" for x :: nat
  proof -
    have "take_bit 8 x = x \<longleftrightarrow> (\<forall>k \<ge> 8. \<not> bit x k)"
      unfolding bit_eq_iff [of "take_bit 8 x"] bit_take_bit_iff by (simp, metis linorder_not_le)
    then show ?thesis by (simp add: take_bit_nat_eq_self_iff)
  qed
  have "(n AND c) OR (a AND d) < 256" for c d
    using assms unfolding less by (simp add: bit_or_iff bit_and_iff)
  then show ?thesis using assms by (simp add: newByte_def Let_def)
qed

section \<open>Properties\<close>

definition intoNet :: "nat \<Rightarrow> 'a :: len word \<Rightarrow> 'a word \<Rightarrow> 'a word" where
  "intoNet bits n a = push_bit (LENGTH('a) - bits) (drop_bit (LENGTH('a) - bits) n) OR take_bit (LENGTH('a) - bits) a"

lemma bit_intoNet:
  "k < LENGTH('a) \<Longrightarrow> bit (intoNet bits n a :: 'a :: len word) k \<longleftrightarrow> (if LENGTH('a) - bits \<le> k then bit n k else bit a k)"
  by (auto simp: intoNet_def bit_or_iff bit_push_bit_iff bit_drop_bit_eq bit_take_bit_iff)

lemma bit_pos:
  assumes "k < 8 * Suc m" "bits \<le> 8 * Suc m"
  shows "8 * (m - k div 8) + (7 - k mod 8) < bits \<longleftrightarrow> 8 * Suc m - bits \<le> k" "8 * m - 8 * (m - k div 8) + k mod 8 = k"
proof -
  obtain q r where qr: "k = 8 * q + r" "k div 8 = q" "k mod 8 = r" "r < 8" by (metis mod_less_divisor mult_div_mod_eq zero_less_numeral)
  then obtain d where "m = q + d" using assms(1) by (metis Suc_leI less_mult_imp_div_less mult.commute le_iff_add not_less_eq_eq not_less)
  then show "8 * (m - k div 8) + (7 - k mod 8) < bits \<longleftrightarrow> 8 * Suc m - bits \<le> k" "8 * m - 8 * (m - k div 8) + k mod 8 = k"
    using qr(4) assms(2) unfolding qr(2,3) qr(1) by auto
qed

lemma loop4:
  assumes "bits \<le> 32"
  shows "word_of_int (bytesToInt (map (\<lambda>i. newByte bits i (bytes4 n ! i) (bytes4 a ! i)) [0..<4])) = intoNet bits n (a :: 32 word)"
proof (rule bit_word_eqI)
  let ?bs = "map (\<lambda>i. newByte bits i (bytes4 n ! i) (bytes4 a ! i)) [0..<4]"
  fix k assume "k < LENGTH(32)"
  then have k: "k < 32" by simp
  have "bit (bytesToInt ?bs) k \<longleftrightarrow> bit (newByte bits (3 - k div 8) (bytes4 n ! (3 - k div 8)) (bytes4 a ! (3 - k div 8))) (k mod 8)"
    using k by (subst bit_bytesToInt_map) (simp_all add: newByte_less bytes_less)
  moreover have "8 * (3 - k div 8) + (7 - k mod 8) < bits \<longleftrightarrow> 32 - bits \<le> k" "24 - 8 * (3 - k div 8) + k mod 8 = k"
    using bit_pos [of k 3 bits] k assms by simp_all
  ultimately show "bit (word_of_int (bytesToInt ?bs) :: 32 word) k \<longleftrightarrow> bit (intoNet bits n a) k"
    using k by (simp add: bit_word_of_int_iff bit_newByte bit_bytes bit_intoNet del: upt_rec_numeral)
qed

lemma loop16:
  assumes "bits \<le> 128"
  shows "word_of_int (bytesToInt (map (\<lambda>i. newByte bits i (bytes16 n ! i) (bytes16 a ! i)) [0..<16])) = intoNet bits n (a :: 128 word)"
proof (rule bit_word_eqI)
  let ?bs = "map (\<lambda>i. newByte bits i (bytes16 n ! i) (bytes16 a ! i)) [0..<16]"
  fix k assume "k < LENGTH(128)"
  then have k: "k < 128" by simp
  have "bit (bytesToInt ?bs) k \<longleftrightarrow> bit (newByte bits (15 - k div 8) (bytes16 n ! (15 - k div 8)) (bytes16 a ! (15 - k div 8))) (k mod 8)"
    using k by (subst bit_bytesToInt_map) (simp_all add: newByte_less bytes_less)
  moreover have "8 * (15 - k div 8) + (7 - k mod 8) < bits \<longleftrightarrow> 128 - bits \<le> k" "120 - 8 * (15 - k div 8) + k mod 8 = k"
    using bit_pos [of k 15 bits] k assms by simp_all
  ultimately show "bit (word_of_int (bytesToInt ?bs) :: 128 word) k \<longleftrightarrow> bit (intoNet bits n a) k"
    using k by (simp add: bit_word_of_int_iff bit_newByte bit_bytes bit_intoNet del: upt_rec_numeral)
qed

lemma ParseAddr_valid: "ParseAddr s = Inr a \<Longrightarrow> a \<noteq> AddrInvalid"
  by (auto simp: ParseAddr_def parseIPv4_def parseIPv6_def Let_def split: option.splits if_splits sum.splits prod.splits)

lemma ParsePrefix_bits:
  assumes "ParsePrefix s = Inr p"
  shows "pAddr p \<noteq> AddrInvalid" "pBits p \<le> (if Is6 (pAddr p) then 128 else 32)"
  using assms ParseAddr_valid
  by (auto simp: ParsePrefix_def Let_def split: option.splits if_splits sum.splits)

lemma intoNet_masked: "bits \<le> LENGTH('a) \<Longrightarrow> intoNet bits (push_bit (LENGTH('a) - bits) (drop_bit (LENGTH('a) - bits) n)) a = intoNet bits n (a :: 'a :: len word)"
  by (rule bit_word_eqI) (auto simp: bit_intoNet bit_push_bit_iff bit_drop_bit_eq)

lemma intoNet_contained: "bits \<le> LENGTH('a) \<Longrightarrow> drop_bit (LENGTH('a) - bits) (n XOR intoNet bits n a :: 'a :: len word) = 0"
proof (rule bit_word_eqI)
  fix k
  have "bit (intoNet bits n a) (LENGTH('a) - bits + k) \<longleftrightarrow> bit n (LENGTH('a) - bits + k)"
    by (cases "LENGTH('a) - bits + k < LENGTH('a)") (auto simp: bit_intoNet dest: bit_imp_le_length)
  then show "bit (drop_bit (LENGTH('a) - bits) (n XOR intoNet bits n a)) k \<longleftrightarrow> bit (0 :: 'a word) k"
    by (simp add: bit_drop_bit_eq bit_xor_iff del: drop_bit_xor)
qed

text \<open>C23. Moving an address into a network (\<^verbatim>\<open>map_to\<close> with a prefix): the byte loop of \<^verbatim>\<open>transformIP\<close>
  takes the leading bits, as many as the prefix has, from the network and all others from the
  address; so the result lies in the network and keeps the host part, for every prefix length.\<close>

theorem transformIP_bits:
  assumes "ParseAddr ip = Inr a" "ParsePrefix target = Inr p" "Is4 a = Is4 (pAddr p)"
  shows "\<exists>r. transformIP ip target = Inr (AddrString r) \<and> Contains p r \<and>
    (case (a, pAddr p) of
       (V4 x, V4 n) \<Rightarrow> r = V4 (intoNet (pBits p) n x)
     | (V6 x _, V6 n _) \<Rightarrow> r = V6 (intoNet (pBits p) n x) []
     | _ \<Rightarrow> False)"
proof -
  note v = ParseAddr_valid [OF assms(1)] ParsePrefix_bits [OF assms(2)]
  consider x n where "a = V4 x" "pAddr p = V4 n" "pBits p \<le> 32"
    | x z n y where "a = V6 x z" "pAddr p = V6 n y" "pBits p \<le> 128"
    using v assms(3) by (cases a; cases "pAddr p") auto
  then show ?thesis
  proof cases
    case 1
    then show ?thesis using assms intoNet_contained [of "pBits p" n x] intoNet_masked [of "pBits p" n x]
      by (simp add: transformIP_def Masked_def addrOfBytes4_def loop4 Contains_def Let_def del: AddrString.simps drop_bit_xor upt_rec_numeral)
  next
    case 2
    then show ?thesis using assms intoNet_contained [of "pBits p" n x] intoNet_masked [of "pBits p" n x]
      by (simp add: transformIP_def Masked_def addrOfBytes16_def loop16 Contains_def Let_def del: AddrString.simps drop_bit_xor upt_rec_numeral)
  qed
qed

theorem transformIP_bits_witness:
  "\<exists>r. transformIP ''10.20.30.40'' ''192.168.0.0/18'' = Inr (AddrString r) \<and> r = V4 (intoNet 18 0xC0A80000 0x0A141E28)"
proof -
  have "ParseAddr ''10.20.30.40'' = Inr (V4 0x0A141E28)"
    "ParsePrefix ''192.168.0.0/18'' = Inr \<lparr>pAddr = V4 0xC0A80000, pBits = 18\<rparr>"
    by code_simp+
  from transformIP_bits [OF this] show ?thesis by simp
qed

lemma nat64_bytes: "word_of_int (bytesToInt (take 12 (bytes16 p) @ bytes4 v)) = (intoNet 96 p (ucast v) :: 128 word)"
proof (rule bit_word_eqI)
  let ?bs = "take 12 (bytes16 p) @ bytes4 v"
  fix k assume "k < LENGTH(128)"
  then have k: "k < 128" by simp
  have len: "length (bytes16 p) = 16" "length (bytes4 v) = 4" by (simp_all add: bytes16_def bytes4_def)
  have "\<forall>b \<in> set ?bs. b < 256"
    using len bytes_less by (auto simp: in_set_conv_nth dest!: in_set_takeD)
  then have b: "bit (bytesToInt ?bs) k \<longleftrightarrow> bit (?bs ! (15 - k div 8)) (k mod 8)"
    using bit_bytesToInt [of ?bs k] k len by simp
  have q: "120 - 8 * (15 - k div 8) + k mod 8 = k" using bit_pos(2) [of k 15 128] k by simp
  show "bit (word_of_int (bytesToInt ?bs) :: 128 word) k \<longleftrightarrow> bit (intoNet 96 p (ucast v) :: 128 word) k"
  proof (cases "32 \<le> k")
    case True
    then have "4 \<le> k div 8" by simp
    then have "15 - k div 8 < 12" "15 - k div 8 < 16" by simp_all
    then show ?thesis using True k b q len by (simp add: bit_word_of_int_iff nth_append bit_bytes bit_intoNet)
  next
    case False
    then have d: "k div 8 \<le> 3" by simp
    then have "15 - k div 8 - 12 = 3 - k div 8" "\<not> 15 - k div 8 < 12" "3 - k div 8 < 4" by simp_all
    moreover have "24 - 8 * (3 - k div 8) + k mod 8 = k" using bit_pos(2) [of k 3 32] False by simp
    ultimately show ?thesis using False k b len
      by (simp add: bit_word_of_int_iff nth_append bit_bytes bit_intoNet bit_ucast_iff)
  qed
qed

text \<open>C24. NAT64 synthesis. With a prefix of sixteen bytes configured, an IPv4 address becomes the
  IPv6 address of the first 96 bits of the prefix and the 32 bits of the address, so the IPv4 address
  is recovered as the low 32 bits; a native IPv6 address is rejected; a name is left alone.\<close>

theorem mapNAT64Addr_spec:
  assumes "TrimSpace prefix \<noteq> []" "nat64PrefixIP (TrimSpace prefix) = Some (IP16 p)"
  shows "mapNAT64Addr host prefix = (case ParseIP host of
      None \<Rightarrow> (host, True)
    | Some a \<Rightarrow> (case To4 a of
        None \<Rightarrow> (host, False)
      | Some v \<Rightarrow> (IPString (intoNet 96 p (ucast v)), True))) \<and>
    ucast (intoNet 96 p (ucast (v :: 32 word))) = v"
proof
  have "length (bytes16 p) = 16" by (simp add: bytes16_def)
  then show "mapNAT64Addr host prefix = (case ParseIP host of
      None \<Rightarrow> (host, True)
    | Some a \<Rightarrow> (case To4 a of
        None \<Rightarrow> (host, False)
      | Some v \<Rightarrow> (IPString (intoNet 96 p (ucast v)), True)))"
    using assms by (simp add: mapNAT64Addr_def Let_def bytesOfIP_def nat64_bytes split: option.split)
  show "ucast (intoNet 96 p (ucast v)) = v" by (rule bit_word_eqI) (simp add: bit_ucast_iff bit_intoNet)
qed

lemma trimStart_plain:
  assumes "\<forall>p \<in> set sps. p \<noteq> [] \<and> hd p \<noteq> code c"
  shows "trimStart sps (c # s) = c # s"
proof -
  have "spacePrefix sps (c # s) = None"
    using assms unfolding spacePrefix_def by (force simp: find_None_iff neq_Nil_conv)
  then show ?thesis by (simp add: trimStart.simps)
qed

lemma TrimSpace_plain:
  assumes "code c \<in> {33..<128}" "code d \<in> {33..<128}"
  shows "TrimSpace (c # s @ [d]) = c # s @ [d]"
proof -
  have "\<forall>p \<in> set spaces. p \<noteq> [] \<and> hd p \<notin> {33..<128} \<and> last p \<notin> {33..<128}" by (simp add: spaces_def)
  then have "trimStart spaces (c # s @ [d]) = c # s @ [d]" "trimStart (map rev spaces) (d # rev s @ [c]) = d # rev s @ [c]"
    using assms by (fastforce intro!: trimStart_plain simp: hd_rev)+
  then show ?thesis by (simp add: TrimSpace_def)
qed

theorem mapNAT64Addr_spec_witness:
  "mapNAT64Addr ''192.0.2.33'' ''64:ff9b::/96'' = (IPString 0x0064ff9b0000000000000000c0000221, True) \<and>
   mapNAT64Addr ''2001:db8::1'' ''64:ff9b::/96'' = (''2001:db8::1'', False)"
proof -
  have t: "TrimSpace ''64:ff9b::/96'' = ''64:ff9b::/96''" using TrimSpace_plain [of "CHR ''6''" "CHR ''6''" "''4:ff9b::/9''"] by (simp add: code_def)
  have p: "nat64PrefixIP ''64:ff9b::/96'' = Some (IP16 0x0064ff9b000000000000000000000000)"
  proof -
    have "ContainsStr ''64:ff9b::/96'' ''/''" "IndexByte ''64:ff9b::/96'' (CHR ''/'') = Some 9" "dtoi ''96'' = Some 96" by code_simp+
    moreover have "ParseAddr ''64:ff9b::'' = Inr (V6 0x0064ff9b000000000000000000000000 [])" by code_simp
    ultimately show ?thesis by (simp add: nat64PrefixIP_def ParseCIDR_def)
  qed
  have a: "ParseIP ''192.0.2.33'' = Some (mapped 0xC0000221)" "ParseIP ''2001:db8::1'' = Some 0x20010db8000000000000000000000001"
    "To4 (mapped 0xC0000221) = Some 0xC0000221" "To4 0x20010db8000000000000000000000001 = None"
    by code_simp+
  have i: "intoNet 96 0x0064ff9b000000000000000000000000 0xC0000221 = (0x0064ff9b0000000000000000c0000221 :: 128 word)"
    by (simp add: intoNet_def)
  show ?thesis
    using mapNAT64Addr_spec [of "''64:ff9b::/96''" "0x0064ff9b000000000000000000000000" "''192.0.2.33''" 0]
      mapNAT64Addr_spec [of "''64:ff9b::/96''" "0x0064ff9b000000000000000000000000" "''2001:db8::1''" 0]
    unfolding t p a by (simp add: a i)
qed

end
