(* ===== verification/Fake_IP.thy ===== *)
theory Fake_IP
  imports Config
begin

text \<open>
  The store of synthetic addresses (\<^verbatim>\<open>core/fake_ip.go\<close>): names are given addresses of a reserved
  prefix for a limited time, and an address leads back to its name. The clock is an argument
  of every operation; \<^verbatim>\<open>range\<close> over the map in the cleanup visits the keys in an order given
  as a list. The search for a free address is a loop without a bound in the code, so its
  model may fail to return; that it returns in every state the store can reach is a theorem.
\<close>

section \<open>The store\<close>

record fakeIPEntry =
  eDomain :: string
  eIP :: string
  expiresAt :: int

record fakeIPStore =
  fPrefix :: Prefix
  fNext :: Addr
  domainToEntry :: "string \<rightharpoonup> fakeIPEntry"
  ipToEntry :: "string \<rightharpoonup> fakeIPEntry"

definition vpnDNSIPv4Addr :: string where "vpnDNSIPv4Addr = ''172.19.0.2''"
definition vpnTunnelIPv6Addr :: string where "vpnTunnelIPv6Addr = ''fd66:6c75:6d69::1''"
definition fakeIPv4CIDR :: string where "fakeIPv4CIDR = ''198.18.0.0/15''"
definition fakeIPv6CIDR :: string where "fakeIPv6CIDR = ''fd66:6c75:6d69:100::/56''"
definition defaultFakeTTL :: nat where "defaultFakeTTL = 60"
definition fakeIPTTLFloor :: duration where "fakeIPTTLFloor = 60 * second"

definition mustNewFakeIPStore :: "string \<Rightarrow> fakeIPStore option" where
  "mustNewFakeIPStore cidr = (case ParsePrefix cidr of
       Inl _ \<Rightarrow> None
     | Inr p \<Rightarrow> Some \<lparr>fPrefix = p, fNext = Next (pAddr p), domainToEntry = Map.empty, ipToEntry = Map.empty\<rparr>)"

definition IsVPNDNSAddress :: "string \<Rightarrow> int \<Rightarrow> bool" where
  "IsVPNDNSAddress host port \<longleftrightarrow> host = vpnDNSIPv4Addr \<and> port = 53"

definition deleteEntryLocked :: "fakeIPStore \<Rightarrow> fakeIPEntry \<Rightarrow> fakeIPStore" where
  "deleteEntryLocked s e =
     (let s1 = (case domainToEntry s (eDomain e) of
                  Some cur \<Rightarrow> if eIP cur = eIP e then s\<lparr>domainToEntry := (domainToEntry s)(eDomain e := None)\<rparr> else s
                | None \<Rightarrow> s)
      in case ipToEntry s1 (eIP e) of
           Some cur \<Rightarrow> if eDomain cur = eDomain e then s1\<lparr>ipToEntry := (ipToEntry s1)(eIP e := None)\<rparr> else s1
         | None \<Rightarrow> s1)"

definition cleanupOne :: "int \<Rightarrow> string \<Rightarrow> fakeIPStore \<Rightarrow> fakeIPStore" where
  "cleanupOne now d s = (case domainToEntry s d of
       Some e \<Rightarrow> if \<not> expiresAt e > now then deleteEntryLocked s e else s
     | None \<Rightarrow> s)"

definition cleanupExpiredLocked :: "fakeIPStore \<Rightarrow> int \<Rightarrow> string list \<Rightarrow> fakeIPStore" where
  "cleanupExpiredLocked s now order = fold (cleanupOne now) order s"

definition putEntry :: "fakeIPStore \<Rightarrow> fakeIPEntry \<Rightarrow> fakeIPStore" where
  "putEntry s e = s\<lparr>domainToEntry := (domainToEntry s)(eDomain e \<mapsto> e), ipToEntry := (ipToEntry s)(eIP e \<mapsto> e)\<rparr>"

text \<open>The search from a candidate; the name and its expiry time are those of the new entry.\<close>

definition normalize :: "fakeIPStore \<Rightarrow> Addr \<Rightarrow> Addr" where
  "normalize s candidate = (if Contains (fPrefix s) candidate then candidate else Next (pAddr (fPrefix s)))"

partial_function (option) allocLoop ::
  "fakeIPStore \<Rightarrow> int \<Rightarrow> string \<Rightarrow> int \<Rightarrow> Addr \<Rightarrow> Addr \<Rightarrow> (string res \<times> fakeIPStore) option" where
  "allocLoop s now domain expires start candidate =
     (let c = normalize s candidate; ip = AddrString c;
          new = \<lparr>eDomain = domain, eIP = ip, expiresAt = expires\<rparr> in
      case ipToEntry s ip of
        Some e \<Rightarrow>
          if expiresAt e > now
          then (if Next c = start then Some (Inl (ErrNew ''fake ip pool exhausted''), s)
                else allocLoop s now domain expires start (Next c))
          else Some (Inr ip, (putEntry (deleteEntryLocked s e) new)\<lparr>fNext := Next c\<rparr>)
      | None \<Rightarrow> Some (Inr ip, (putEntry s new)\<lparr>fNext := Next c\<rparr>))"

definition Allocate :: "fakeIPStore \<Rightarrow> int \<Rightarrow> string list \<Rightarrow> string \<Rightarrow> duration \<Rightarrow> (string res \<times> fakeIPStore) option" where
  "Allocate s now order domain0 lifetime0 =
     (let domain = ToLower domain0 in
      if domain = [] then Some (Inl (ErrNew ''domain is empty''), s)
      else let lifetime = (if lifetime0 \<le> 0 then int defaultFakeTTL * second else lifetime0);
               s1 = cleanupExpiredLocked s now order in
           case domainToEntry s1 domain of
             Some e \<Rightarrow> Some (Inr (eIP e), putEntry s1 (e\<lparr>expiresAt := now + lifetime\<rparr>))
           | None \<Rightarrow> allocLoop s1 now domain (now + lifetime) (fNext s1) (fNext s1))"

definition LookupDomain :: "fakeIPStore \<Rightarrow> int \<Rightarrow> string \<Rightarrow> string option \<times> fakeIPStore" where
  "LookupDomain s now ip = (case ipToEntry s ip of
       None \<Rightarrow> (None, s)
     | Some e \<Rightarrow> if \<not> expiresAt e > now then (None, deleteEntryLocked s e) else (Some (eDomain e), s))"

definition fakeIPLifetime :: "nat \<Rightarrow> duration" where
  "fakeIPLifetime ttl0 =
     (let ttl = (if ttl0 = 0 then defaultFakeTTL else ttl0); lifetime = int ttl * second in
      if fakeIPTTLFloor > lifetime then fakeIPTTLFloor else lifetime)"

text \<open>The two stores of the program and the operations on both.\<close>

record fakeStores =
  v4Store :: fakeIPStore
  v6Store :: fakeIPStore

definition lookupFakeDomainByIP :: "fakeStores \<Rightarrow> int \<Rightarrow> string \<Rightarrow> string option \<times> fakeStores" where
  "lookupFakeDomainByIP s now ip = (case LookupDomain (v4Store s) now ip of
       (Some d, s4) \<Rightarrow> (Some d, s\<lparr>v4Store := s4\<rparr>)
     | (None, s4) \<Rightarrow> (case LookupDomain (v6Store s) now ip of
           (r, s6) \<Rightarrow> (r, s\<lparr>v4Store := s4, v6Store := s6\<rparr>)))"

definition isFakeIPAddress :: "fakeStores \<Rightarrow> string \<Rightarrow> bool" where
  "isFakeIPAddress s ip = (case ParseAddr ip of
       Inl _ \<Rightarrow> False
     | Inr a \<Rightarrow> Contains (fPrefix (v4Store s)) a \<or> Contains (fPrefix (v6Store s)) a)"

definition TypeA :: nat where "TypeA = 1"
definition TypeAAAA :: nat where "TypeAAAA = 28"

definition allocateFakeIP :: "fakeStores \<Rightarrow> int \<Rightarrow> string list \<Rightarrow> string \<Rightarrow> nat \<Rightarrow> nat \<Rightarrow> (string res \<times> fakeStores) option" where
  "allocateFakeIP s now order domain qtype ttl =
     (let lifetime = fakeIPLifetime ttl in
      if qtype = TypeA then map_option (\<lambda>(r, s4). (r, s\<lparr>v4Store := s4\<rparr>)) (Allocate (v4Store s) now order domain lifetime)
      else if qtype = TypeAAAA then map_option (\<lambda>(r, s6). (r, s\<lparr>v6Store := s6\<rparr>)) (Allocate (v6Store s) now order domain lifetime)
      else Some (Inl (ErrNew ''unsupported fake ip qtype''), s))"

section \<open>The two maps agree\<close>

definition paired :: "fakeIPStore \<Rightarrow> bool" where
  "paired s \<longleftrightarrow>
     (\<forall>d e. domainToEntry s d = Some e \<longrightarrow> eDomain e = d \<and> ipToEntry s (eIP e) = Some e) \<and>
     (\<forall>i e. ipToEntry s i = Some e \<longrightarrow> eIP e = i \<and> domainToEntry s (eDomain e) = Some e)"

lemma pairedD:
  assumes "paired s"
  shows "domainToEntry s d = Some e \<Longrightarrow> eDomain e = d \<and> ipToEntry s (eIP e) = Some e"
    "ipToEntry s i = Some e \<Longrightarrow> eIP e = i \<and> domainToEntry s (eDomain e) = Some e"
  using assms by (auto simp: paired_def)

lemma delete_run:
  assumes "paired s" "domainToEntry s (eDomain e) = Some e"
  shows "deleteEntryLocked s e =
    s\<lparr>domainToEntry := (domainToEntry s)(eDomain e := None), ipToEntry := (ipToEntry s)(eIP e := None)\<rparr>"
  using pairedD(1) [OF assms] assms(2) by (simp add: deleteEntryLocked_def)

lemma delete_paired:
  assumes "paired s" "domainToEntry s (eDomain e) = Some e"
  shows "paired (deleteEntryLocked s e)"
proof -
  have i: "ipToEntry s (eIP e) = Some e" using pairedD(1) [OF assms] by simp
  show ?thesis unfolding delete_run [OF assms] paired_def
  proof (intro conjI allI impI)
    fix d f
    assume "domainToEntry (s\<lparr>domainToEntry := (domainToEntry s)(eDomain e := None), ipToEntry := (ipToEntry s)(eIP e := None)\<rparr>) d = Some f"
    then have f: "d \<noteq> eDomain e" "domainToEntry s d = Some f" by (auto split: if_splits)
    note g = pairedD(1) [OF assms(1) f(2)]
    have "eIP f \<noteq> eIP e" using g i f(1) by auto
    with g show "eDomain f = d" "ipToEntry (s\<lparr>domainToEntry := (domainToEntry s)(eDomain e := None), ipToEntry := (ipToEntry s)(eIP e := None)\<rparr>) (eIP f) = Some f"
      by simp_all
  next
    fix j f
    assume "ipToEntry (s\<lparr>domainToEntry := (domainToEntry s)(eDomain e := None), ipToEntry := (ipToEntry s)(eIP e := None)\<rparr>) j = Some f"
    then have f: "j \<noteq> eIP e" "ipToEntry s j = Some f" by (auto split: if_splits)
    note g = pairedD(2) [OF assms(1) f(2)]
    have "eDomain f \<noteq> eDomain e" using g assms(2) f(1) by auto
    with g show "eIP f = j" "domainToEntry (s\<lparr>domainToEntry := (domainToEntry s)(eDomain e := None), ipToEntry := (ipToEntry s)(eIP e := None)\<rparr>) (eDomain f) = Some f"
      by simp_all
  qed
qed

lemma put_paired:
  assumes "paired s" "\<And>f. domainToEntry s (eDomain e) = Some f \<Longrightarrow> eIP f = eIP e"
    "\<And>f. ipToEntry s (eIP e) = Some f \<Longrightarrow> eDomain f = eDomain e"
  shows "paired (putEntry s e)"
proof -
  have 1: "eIP f \<noteq> eIP e" if "domainToEntry s d = Some f" "d \<noteq> eDomain e" for d f
    using pairedD(1) [OF assms(1) that(1)] that(2) assms(3) by metis
  have 2: "eDomain f \<noteq> eDomain e" if "ipToEntry s i = Some f" "i \<noteq> eIP e" for i f
    using pairedD(2) [OF assms(1) that(1)] that(2) assms(2) by metis
  show ?thesis
    using 1 2 pairedD [OF assms(1)] by (auto simp: putEntry_def paired_def split: if_splits)
qed

lemma putEntry_next [simp]: "paired (s\<lparr>fNext := a\<rparr>) = paired s"
  by (simp add: paired_def)

lemma cleanupOne_cases:
  assumes "paired s"
  shows "paired (cleanupOne now d s)" "fNext (cleanupOne now d s) = fNext s" "fPrefix (cleanupOne now d s) = fPrefix s"
    "domainToEntry (cleanupOne now d s) x =
       (if x = d \<and> (\<exists>e. domainToEntry s d = Some e \<and> \<not> expiresAt e > now) then None else domainToEntry s x)"
proof -
  consider "cleanupOne now d s = s" "\<not> (\<exists>e. domainToEntry s d = Some e \<and> \<not> expiresAt e > now)"
    | e where "domainToEntry s d = Some e" "\<not> expiresAt e > now" "cleanupOne now d s = deleteEntryLocked s e"
    by (cases "domainToEntry s d") (auto simp: cleanupOne_def split: if_splits)
  then have "paired (cleanupOne now d s) \<and> fNext (cleanupOne now d s) = fNext s \<and> fPrefix (cleanupOne now d s) = fPrefix s \<and>
    domainToEntry (cleanupOne now d s) x =
       (if x = d \<and> (\<exists>e. domainToEntry s d = Some e \<and> \<not> expiresAt e > now) then None else domainToEntry s x)"
  proof cases
    case (2 e)
    have d: "eDomain e = d" using pairedD(1) [OF assms 2(1)] by simp
    then have e: "domainToEntry s (eDomain e) = Some e" using 2(1) by simp
    show ?thesis using delete_paired [OF assms e] 2 d by (simp add: delete_run [OF assms e])
  qed (use assms in auto)
  then show "paired (cleanupOne now d s)" "fNext (cleanupOne now d s) = fNext s" "fPrefix (cleanupOne now d s) = fPrefix s"
    "domainToEntry (cleanupOne now d s) x =
       (if x = d \<and> (\<exists>e. domainToEntry s d = Some e \<and> \<not> expiresAt e > now) then None else domainToEntry s x)"
    by blast+
qed

lemma cleanup_ok:
  assumes "paired s"
  shows "paired (cleanupExpiredLocked s now order) \<and> fNext (cleanupExpiredLocked s now order) = fNext s \<and>
    fPrefix (cleanupExpiredLocked s now order) = fPrefix s \<and>
    (\<forall>d. domainToEntry (cleanupExpiredLocked s now order) d =
      (if d \<in> set order \<and> (\<exists>e. domainToEntry s d = Some e \<and> \<not> expiresAt e > now) then None else domainToEntry s d))"
  using assms
proof (induction order arbitrary: s)
  case (Cons x order)
  note c = cleanupOne_cases [OF Cons.prems]
  from Cons.IH [OF c(1) [of now x]] show ?case
    by (auto simp: cleanupExpiredLocked_def c(2-4))
qed (simp add: cleanupExpiredLocked_def)

section \<open>The search for a free address\<close>

definition addrAt :: "Prefix \<Rightarrow> nat \<Rightarrow> Addr" where
  "addrAt p k = (Next ^^ k) (pAddr p)"

text \<open>A prefix whose addresses are the first \<open>n\<close> from its own on, and no more.\<close>

definition block :: "Prefix \<Rightarrow> nat \<Rightarrow> bool" where
  "block p n \<longleftrightarrow> 3 \<le> n \<and> (\<forall>k < n. Contains p (addrAt p k)) \<and> \<not> Contains p (addrAt p n) \<and> inj_on (addrAt p) {..n}"

lemma Next_addrAt [simp]: "Next (addrAt p k) = addrAt p (Suc k)"
  by (simp add: addrAt_def)

definition live :: "int \<Rightarrow> fakeIPStore \<Rightarrow> string \<Rightarrow> bool" where
  "live now s ip \<longleftrightarrow> (\<exists>e. ipToEntry s ip = Some e \<and> expiresAt e > now)"

text \<open>The position the search visits in round \<open>i\<close> when it starts at position \<open>k\<close>.\<close>

definition visit :: "nat \<Rightarrow> nat \<Rightarrow> nat \<Rightarrow> nat" where
  "visit n k i = (if k = n then i + 1 else if k + i < n then k + i else k + i - n + 1)"

definition stored :: "fakeIPStore \<Rightarrow> string \<Rightarrow> int \<Rightarrow> string \<Rightarrow> Addr \<Rightarrow> fakeIPStore" where
  "stored s domain expires ip nxt =
     (putEntry (case ipToEntry s ip of Some e \<Rightarrow> deleteEntryLocked s e | None \<Rightarrow> s)
        \<lparr>eDomain = domain, eIP = ip, expiresAt = expires\<rparr>)\<lparr>fNext := nxt\<rparr>"

lemma allocLoop_step:
  "allocLoop s now domain expires start candidate =
     (let c = normalize s candidate; ip = AddrString c in
      if live now s ip
      then (if Next c = start then Some (Inl (ErrNew ''fake ip pool exhausted''), s)
            else allocLoop s now domain expires start (Next c))
      else Some (Inr ip, stored s domain expires ip (Next c)))"
  by (subst allocLoop.simps) (auto simp: Let_def live_def stored_def split: option.split)

lemma allocLoop_search:
  assumes b: "block (fPrefix s) n" and k: "2 \<le> k" "k \<le> n"
    and i: "i \<le> n - 2" "normalize s cand = addrAt (fPrefix s) (visit n k i)"
    and v: "\<forall>j < i. live now s (AddrString (addrAt (fPrefix s) (visit n k j)))"
  shows "allocLoop s now domain expires (addrAt (fPrefix s) k) cand =
      Some (Inl (ErrNew ''fake ip pool exhausted''), s) \<and>
      (\<forall>j \<le> n - 2. live now s (AddrString (addrAt (fPrefix s) (visit n k j)))) \<or>
    (\<exists>j \<le> n - 2. \<not> live now s (AddrString (addrAt (fPrefix s) (visit n k j))) \<and>
      allocLoop s now domain expires (addrAt (fPrefix s) k) cand =
        Some (Inr (AddrString (addrAt (fPrefix s) (visit n k j))),
              stored s domain expires (AddrString (addrAt (fPrefix s) (visit n k j))) (addrAt (fPrefix s) (Suc (visit n k j)))))"
  using i v
proof (induction "n - 2 - i" arbitrary: i cand)
  case (0 i cand)
  let ?p = "fPrefix s" and ?a = "\<lambda>j. addrAt (fPrefix s) (visit n k j)"
  have "i = n - 2" using 0 by simp
  moreover have "Suc (visit n k (n - 2)) = k" using k b by (auto simp: visit_def block_def)
  ultimately have nx: "Next (?a i) = addrAt ?p k" by simp
  show ?case
  proof (cases "live now s (AddrString (?a i))")
    case True
    then have "\<forall>j \<le> n - 2. live now s (AddrString (?a j))"
      using 0 \<open>i = n - 2\<close> by (metis le_neq_implies_less)
    then show ?thesis using True nx 0(3) by (subst (1) allocLoop_step) (simp add: Let_def)
  next
    case False
    then show ?thesis using 0(2,3) by (subst (2) allocLoop_step) (auto simp: Let_def)
  qed
next
  case (Suc m i cand)
  let ?p = "fPrefix s" and ?a = "\<lambda>j. addrAt (fPrefix s) (visit n k j)"
  have i: "i < n - 2" using Suc(2) by simp
  have n: "3 \<le> n" "inj_on (addrAt ?p) {..n}" using b by (simp_all add: block_def)
  have range: "Suc (visit n k i) \<le> n" "Suc (visit n k i) \<noteq> k" using i k by (auto simp: visit_def)
  then have nx: "Next (?a i) \<noteq> addrAt ?p k" using n(2) k(2) by (auto simp: inj_on_def)
  have nm: "normalize s (Next (?a i)) = ?a (Suc i)"
  proof (cases "Suc (visit n k i) = n")
    case True
    then have "visit n k (Suc i) = 1" using i k by (auto simp: visit_def split: if_splits)
    then show ?thesis using True b by (simp add: normalize_def block_def) (simp add: addrAt_def)
  next
    case False
    then have "visit n k (Suc i) = Suc (visit n k i)" using i k by (auto simp: visit_def split: if_splits)
    then show ?thesis using False range(1) b by (simp add: normalize_def block_def)
  qed
  show ?case
  proof (cases "live now s (AddrString (?a i))")
    case True
    have l: "allocLoop s now domain expires (addrAt ?p k) cand = allocLoop s now domain expires (addrAt ?p k) (Next (?a i))"
      using True nx Suc(4) by (subst allocLoop_step) (simp add: Let_def del: Next_addrAt)
    have "\<forall>j < Suc i. live now s (AddrString (?a j))" using True Suc(5) less_Suc_eq by auto
    from Suc(1) [OF _ _ nm this] i Suc(2) show ?thesis unfolding l by simp
  next
    case False
    then show ?thesis using Suc(3,4) by (subst (2) allocLoop_step) (auto simp: Let_def)
  qed
qed

lemma visit_range: "2 \<le> k \<Longrightarrow> k \<le> n \<Longrightarrow> j \<le> n - 2 \<Longrightarrow> 1 \<le> visit n k j \<and> visit n k j < n"
  by (auto simp: visit_def)

lemma visit_surj: "2 \<le> k \<Longrightarrow> k \<le> n \<Longrightarrow> 1 \<le> m \<Longrightarrow> m < n \<Longrightarrow> \<exists>j \<le> n - 2. visit n k j = m"
  by (rule exI [of _ "if k = n then m - 1 else if k \<le> m then m - k else m - 1 + n - k"]) (auto simp: visit_def)

lemma stored_run:
  assumes "paired s" "\<not> live now s ip" "domainToEntry s domain = None"
  shows "paired (stored s domain expires ip nxt)"
    "domainToEntry (stored s domain expires ip nxt) domain = Some \<lparr>eDomain = domain, eIP = ip, expiresAt = expires\<rparr>"
    "d \<noteq> domain \<Longrightarrow> domainToEntry s d = Some e \<Longrightarrow> expiresAt e > now \<Longrightarrow> domainToEntry (stored s domain expires ip nxt) d = Some e"
    "fNext (stored s domain expires ip nxt) = nxt" "fPrefix (stored s domain expires ip nxt) = fPrefix s"
proof -
  let ?s = "case ipToEntry s ip of Some e \<Rightarrow> deleteEntryLocked s e | None \<Rightarrow> s"
  let ?new = "\<lparr>eDomain = domain, eIP = ip, expiresAt = expires\<rparr>"
  have s: "paired ?s \<and> ipToEntry ?s ip = None \<and> domainToEntry ?s domain = None \<and> fPrefix ?s = fPrefix s \<and>
      (\<forall>d e. domainToEntry s d = Some e \<longrightarrow> expiresAt e > now \<longrightarrow> domainToEntry ?s d = Some e)"
  proof (cases "ipToEntry s ip")
    case (Some f)
    then have f: "eIP f = ip" "domainToEntry s (eDomain f) = Some f" using pairedD(2) [OF assms(1)] by blast+
    have "\<not> expiresAt f > now" using assms(2) Some by (auto simp: live_def)
    with Some f assms(3) delete_paired [OF assms(1) f(2)] show ?thesis by (auto simp: delete_run [OF assms(1) f(2)])
  qed (use assms in auto)
  then have "paired (putEntry ?s ?new)" by (intro put_paired) auto
  then show "paired (stored s domain expires ip nxt)" by (simp add: stored_def)
  show "domainToEntry (stored s domain expires ip nxt) domain = Some ?new"
    "fNext (stored s domain expires ip nxt) = nxt" "fPrefix (stored s domain expires ip nxt) = fPrefix s"
    "d \<noteq> domain \<Longrightarrow> domainToEntry s d = Some e \<Longrightarrow> expiresAt e > now \<Longrightarrow> domainToEntry (stored s domain expires ip nxt) d = Some e"
    using s by (simp_all add: stored_def putEntry_def)
qed

text \<open>The invariant: the maps agree, the addresses given out are addresses of the prefix, and the search
  starts after the first of them unless nothing is stored.\<close>

definition storeOK :: "nat \<Rightarrow> fakeIPStore \<Rightarrow> bool" where
  "storeOK n s \<longleftrightarrow> block (fPrefix s) n \<and> paired s \<and>
     (\<forall>d e. domainToEntry s d = Some e \<longrightarrow> (\<exists>m. 1 \<le> m \<and> m < n \<and> eIP e = AddrString (addrAt (fPrefix s) m))) \<and>
     (\<exists>k. 1 \<le> k \<and> k \<le> n \<and> fNext s = addrAt (fPrefix s) k \<and> (k = 1 \<longrightarrow> domainToEntry s = Map.empty))"

lemma paired_empty: "paired s \<Longrightarrow> domainToEntry s = Map.empty \<Longrightarrow> ipToEntry s = Map.empty"
proof (rule ext, rule ccontr)
  fix i assume a: "paired s" "domainToEntry s = Map.empty" "ipToEntry s i \<noteq> None"
  then obtain e where "ipToEntry s i = Some e" by auto
  from pairedD(2) [OF a(1) this] a(2) show False by simp
qed

lemma allocLoop_ok:
  assumes "storeOK n s" "domainToEntry s domain = None"
  shows "allocLoop s now domain expires (fNext s) (fNext s) = Some (Inl (ErrNew ''fake ip pool exhausted''), s) \<and>
      (\<forall>m. 1 \<le> m \<longrightarrow> m < n \<longrightarrow> live now s (AddrString (addrAt (fPrefix s) m))) \<or>
    (\<exists>m. 1 \<le> m \<and> m < n \<and> \<not> live now s (AddrString (addrAt (fPrefix s) m)) \<and>
      allocLoop s now domain expires (fNext s) (fNext s) =
        Some (Inr (AddrString (addrAt (fPrefix s) m)),
              stored s domain expires (AddrString (addrAt (fPrefix s) m)) (addrAt (fPrefix s) (Suc m))))"
proof -
  obtain k where k: "1 \<le> k" "k \<le> n" "fNext s = addrAt (fPrefix s) k" "k = 1 \<longrightarrow> domainToEntry s = Map.empty"
    and b: "block (fPrefix s) n" and p: "paired s"
    using assms(1) by (auto simp: storeOK_def)
  show ?thesis
  proof (cases "k = 1")
    case True
    have "\<not> live now s ip" for ip using paired_empty [OF p] k(4) True by (simp add: live_def)
    moreover have "normalize s (fNext s) = addrAt (fPrefix s) 1" using True k(3) b by (simp add: normalize_def block_def)
    moreover have "3 \<le> n" using b by (simp add: block_def)
    ultimately show ?thesis by (intro disjI2 exI [of _ 1]) (subst allocLoop_step, simp add: Let_def)
  next
    case False
    then have k2: "2 \<le> k" using k(1) by simp
    have "normalize s (addrAt (fPrefix s) k) = addrAt (fPrefix s) (visit n k 0)"
      using b k(2) k2 by (auto simp: normalize_def block_def visit_def) (simp_all add: addrAt_def)
    from allocLoop_search [OF b k2 k(2) _ this, of now domain expires] visit_surj [OF k2 k(2)] visit_range [OF k2 k(2)]
    show ?thesis unfolding k(3) by (metis less_zeroE zero_le)
  qed
qed

section \<open>The prefixes of the program\<close>

lemma drop_bit_xor_0: "drop_bit w ((a :: 'a :: len word) XOR x) = 0 \<longleftrightarrow> unat a div 2 ^ w = unat x div 2 ^ w"
proof -
  have "c XOR d = 0 \<longleftrightarrow> c = d" for c d :: "'a word"
    by (metis xor.assoc xor.left_neutral xor.right_neutral xor_self_eq)
  then have "drop_bit w (a XOR x) = 0 \<longleftrightarrow> drop_bit w a = drop_bit w x"
    by (simp add: drop_bit_xor)
  moreover have "unat (drop_bit w c) = unat c div 2 ^ w" for c :: "'a word"
    by (simp only: unat_drop_bit_eq) (simp add: drop_bit_eq_div)
  ultimately show ?thesis by (metis word_unat_eq_iff)
qed

lemma addrAt_V4:
  assumes "pAddr p = V4 a" "unat a + k < 2 ^ 32"
  shows "addrAt p k = V4 (a + of_nat k)"
  using assms(2)
proof (induction k)
  case (Suc k)
  then have ad: "addrAt p k = V4 (a + of_nat k)" by simp
  have "unat (a + of_nat k + 1) = unat a + k + 1"
    using Suc.prems by (simp add: unat_word_ariths unat_of_nat)
  then have "a + of_nat k + 1 \<noteq> 0" by (metis Suc_eq_plus1 nat.distinct(1) unat_0)
  then show ?case by (simp add: ad ac_simps flip: Next_addrAt)
qed (simp add: addrAt_def assms)

lemma addrAt_V6:
  assumes "pAddr p = V6 a z" "unat a + k < 2 ^ 128"
  shows "addrAt p k = V6 (a + of_nat k) z"
  using assms(2)
proof (induction k)
  case (Suc k)
  then have ad: "addrAt p k = V6 (a + of_nat k) z" by simp
  have "unat (a + of_nat k + 1) = unat a + k + 1"
    using Suc.prems by (simp add: unat_word_ariths unat_of_nat)
  then have "a + of_nat k + 1 \<noteq> 0" by (metis Suc_eq_plus1 nat.distinct(1) unat_0)
  then show ?case by (simp add: ad ac_simps flip: Next_addrAt)
qed (simp add: addrAt_def assms)

lemma aligned_div:
  assumes "2 ^ w dvd a" "k < 2 ^ w"
  shows "(a + k) div 2 ^ w = a div 2 ^ w" "(a + 2 ^ w) div 2 ^ w \<noteq> a div (2 ^ w :: nat)"
  using assms by (auto elim!: dvdE)

lemma block_V4:
  assumes "pAddr p = V4 a" "pBits p \<le> 30" "2 ^ (32 - pBits p) dvd unat a" "unat a + 2 ^ (32 - pBits p) < 2 ^ 32"
  shows "block p (2 ^ (32 - pBits p))"
proof -
  let ?n = "2 ^ (32 - pBits p) :: nat"
  have at: "addrAt p k = V4 (a + of_nat k)" "unat (a + of_nat k) = unat a + k" if "k \<le> ?n" for k
    using that assms(4) addrAt_V4 [OF assms(1), of k] by (simp_all add: unat_word_ariths unat_of_nat)
  have "(2::nat) ^ 2 \<le> ?n" using assms(2) by (intro power_increasing) auto
  then have "3 \<le> ?n" by simp
  moreover have "inj_on (addrAt p) {..?n}"
    by (rule inj_onI) (metis Addr.inject(1) add_left_cancel at atMost_iff)
  moreover have "Contains p (addrAt p k)" if "k < ?n" for k
    using at [of k] aligned_div(1) [OF assms(3) that] that assms(1) by (simp add: Contains_def drop_bit_xor_0 del: drop_bit_xor)
  moreover have "\<not> Contains p (addrAt p ?n)"
    using at [OF le_refl] aligned_div(2) [OF assms(3), of 0] assms(1)
    by (simp only: Contains_def drop_bit_xor_0 Addr.case prod.case) auto
  ultimately show ?thesis unfolding block_def by blast
qed

lemma block_V6:
  assumes "pAddr p = V6 a []" "pBits p \<le> 126" "2 ^ (128 - pBits p) dvd unat a" "unat a + 2 ^ (128 - pBits p) < 2 ^ 128"
  shows "block p (2 ^ (128 - pBits p))"
proof -
  let ?n = "2 ^ (128 - pBits p) :: nat"
  have at: "addrAt p k = V6 (a + of_nat k) []" "unat (a + of_nat k) = unat a + k" if "k \<le> ?n" for k
    using that assms(4) addrAt_V6 [OF assms(1), of k] by (simp_all add: unat_word_ariths unat_of_nat)
  have "(2::nat) ^ 2 \<le> ?n" using assms(2) by (intro power_increasing) auto
  then have "3 \<le> ?n" by simp
  moreover have "inj_on (addrAt p) {..?n}"
    by (rule inj_onI) (metis Addr.inject(2) add_left_cancel at atMost_iff)
  moreover have "Contains p (addrAt p k)" if "k < ?n" for k
    using at [of k] aligned_div(1) [OF assms(3) that] that assms(1) by (simp add: Contains_def drop_bit_xor_0 del: drop_bit_xor)
  moreover have "\<not> Contains p (addrAt p ?n)"
    using at [OF le_refl] aligned_div(2) [OF assms(3), of 0] assms(1)
    by (simp only: Contains_def drop_bit_xor_0 Addr.case prod.case) auto
  ultimately show ?thesis unfolding block_def by blast
qed

lemma fake_prefixes:
  "ParsePrefix fakeIPv4CIDR = Inr \<lparr>pAddr = V4 0xC6120000, pBits = 15\<rparr>"
  "ParsePrefix fakeIPv6CIDR = Inr \<lparr>pAddr = V6 0xfd666c756d6901000000000000000000 [], pBits = 56\<rparr>"
  by code_simp+

lemma fake_blocks:
  "block \<lparr>pAddr = V4 0xC6120000, pBits = 15\<rparr> (2 ^ 17)"
  "block \<lparr>pAddr = V6 0xfd666c756d6901000000000000000000 [], pBits = 56\<rparr> (2 ^ 72)"
proof -
  show "block \<lparr>pAddr = V4 0xC6120000, pBits = 15\<rparr> (2 ^ 17)"
    using block_V4 [of "\<lparr>pAddr = V4 0xC6120000, pBits = 15\<rparr>"] by simp
  show "block \<lparr>pAddr = V6 0xfd666c756d6901000000000000000000 [], pBits = 56\<rparr> (2 ^ 72)"
    using block_V6 [of "\<lparr>pAddr = V6 0xfd666c756d6901000000000000000000 [], pBits = 56\<rparr>"] by simp
qed

section \<open>The operations keep the invariant\<close>

lemma cleanup_storeOK: "storeOK n s \<Longrightarrow> storeOK n (cleanupExpiredLocked s now order)"
proof -
  assume a: "storeOK n s"
  then have "paired s" by (simp add: storeOK_def)
  note c = cleanup_ok [OF this, of now order]
  then have "domainToEntry (cleanupExpiredLocked s now order) d = Some e \<Longrightarrow> domainToEntry s d = Some e" for d e
    by (auto split: if_splits)
  moreover from this have "domainToEntry s = Map.empty \<Longrightarrow> domainToEntry (cleanupExpiredLocked s now order) = Map.empty"
    by fastforce
  ultimately show ?thesis using a c unfolding storeOK_def by (metis (no_types, lifting))
qed

lemma delete_storeOK:
  assumes "storeOK n s" "domainToEntry s (eDomain e) = Some e"
  shows "storeOK n (deleteEntryLocked s e)"
proof -
  have p: "paired s" using assms(1) by (simp add: storeOK_def)
  show ?thesis using assms(1) delete_paired [OF p assms(2)] unfolding storeOK_def delete_run [OF p assms(2)]
    by auto
qed

lemma live_cleanup:
  assumes "paired s" "live now (cleanupExpiredLocked s now order) ip"
  shows "live now s ip"
proof -
  note c = cleanup_ok [OF assms(1), of now order]
  obtain e where e: "ipToEntry (cleanupExpiredLocked s now order) ip = Some e" "expiresAt e > now"
    using assms(2) by (auto simp: live_def)
  with c pairedD(2) have "eIP e = ip" "domainToEntry (cleanupExpiredLocked s now order) (eDomain e) = Some e" by blast+
  then have "domainToEntry s (eDomain e) = Some e" using c by (auto split: if_splits)
  then show ?thesis using pairedD(1) [OF assms(1)] e(2) \<open>eIP e = ip\<close> by (auto simp: live_def)
qed

lemma LookupDomain_ok:
  assumes "storeOK n s"
  shows "storeOK n (snd (LookupDomain s now ip)) \<and> fPrefix (snd (LookupDomain s now ip)) = fPrefix s \<and>
    (\<forall>d e. domainToEntry s d = Some e \<longrightarrow> expiresAt e > now \<longrightarrow> domainToEntry (snd (LookupDomain s now ip)) d = Some e)"
proof (cases "ipToEntry s ip")
  case (Some e)
  have p: "paired s" using assms by (simp add: storeOK_def)
  have e: "domainToEntry s (eDomain e) = Some e" using pairedD(2) [OF p Some] by simp
  show ?thesis using assms Some e delete_storeOK [OF assms e]
    by (auto simp: LookupDomain_def delete_run [OF p e])
qed (use assms in \<open>simp add: LookupDomain_def\<close>)

lemma LookupDomain_hit:
  assumes "paired s" "domainToEntry s d = Some e" "expiresAt e > now"
  shows "LookupDomain s now (eIP e) = (Some d, s)"
  using pairedD(1) [OF assms(1,2)] assms(3) by (simp add: LookupDomain_def)

lemma renew_storeOK:
  assumes "storeOK n s" "domainToEntry s d = Some e"
  shows "storeOK n (putEntry s (e\<lparr>expiresAt := t\<rparr>))"
proof -
  have p: "paired s" using assms(1) by (simp add: storeOK_def)
  note e = pairedD(1) [OF p assms(2)]
  have "paired (putEntry s (e\<lparr>expiresAt := t\<rparr>))"
    by (rule put_paired [OF p]) (use e assms(2) in auto)
  then show ?thesis using assms unfolding storeOK_def by (auto simp: putEntry_def)
qed

lemma stored_prefix [simp]: "fPrefix (stored s domain expires ip nxt) = fPrefix s"
  by (simp add: stored_def putEntry_def deleteEntryLocked_def Let_def split: option.split)

lemma stored_storeOK:
  assumes "storeOK n s" "domainToEntry s domain = None" "1 \<le> m" "m < n" "ip = AddrString (addrAt (fPrefix s) m)" "\<not> live now s ip"
  shows "storeOK n (stored s domain expires ip (addrAt (fPrefix s) (Suc m)))"
proof -
  let ?t = "stored s domain expires ip (addrAt (fPrefix s) (Suc m))"
  have p: "paired s" using assms(1) by (simp add: storeOK_def)
  note st = stored_run [OF p assms(6,2), where expires = expires and nxt = "addrAt (fPrefix s) (Suc m)"]
  have "\<exists>m. 1 \<le> m \<and> m < n \<and> eIP e = AddrString (addrAt (fPrefix ?t) m)" if e: "domainToEntry ?t d = Some e" for d e
  proof (cases "d = domain")
    case True
    then have "eIP e = ip" using e st(2) by (metis fakeIPEntry.select_convs(2) option.inject)
    then show ?thesis using assms(3-5) by (intro exI [of _ m]) simp
  next
    case False
    then have "domainToEntry s d = Some e"
      using e by (auto simp: stored_def putEntry_def deleteEntryLocked_def Let_def split: option.splits if_splits)
    then show ?thesis using assms(1) by (simp add: storeOK_def st(5))
  qed
  moreover have "\<exists>k. 1 \<le> k \<and> k \<le> n \<and> fNext ?t = addrAt (fPrefix ?t) k \<and> (k = 1 \<longrightarrow> domainToEntry ?t = Map.empty)"
    using assms(3,4) by (intro exI [of _ "Suc m"]) (simp add: st(4,5))
  ultimately show ?thesis using st(1) assms(1) unfolding storeOK_def st(5) by blast
qed

definition lifetimeOf :: "duration \<Rightarrow> duration" where
  "lifetimeOf lifetime = (if lifetime \<le> 0 then int defaultFakeTTL * second else lifetime)"

lemma Allocate_ok:
  assumes "storeOK n s"
  shows "\<exists>r s'. Allocate s now order dom0 lifetime = Some (r, s') \<and> storeOK n s' \<and> fPrefix s' = fPrefix s \<and>
    (\<forall>d e. d \<noteq> ToLower dom0 \<longrightarrow> domainToEntry s d = Some e \<longrightarrow> expiresAt e > now \<longrightarrow> domainToEntry s' d = Some e) \<and>
    (case r of
       Inl _ \<Rightarrow> ToLower dom0 = [] \<or> (\<forall>m. 1 \<le> m \<longrightarrow> m < n \<longrightarrow> live now s (AddrString (addrAt (fPrefix s) m)))
     | Inr ip \<Rightarrow> \<exists>e. domainToEntry s' (ToLower dom0) = Some e \<and> eIP e = ip \<and> expiresAt e = now + lifetimeOf lifetime)"
proof (cases "ToLower dom0 = []")
  case True
  then show ?thesis using assms by (simp add: Allocate_def)
next
  case False
  define s1 where "s1 = cleanupExpiredLocked s now order"
  have p: "paired s" using assms by (simp add: storeOK_def)
  have c: "paired s1" "fPrefix s1 = fPrefix s" "storeOK n s1"
    "\<And>d e. domainToEntry s d = Some e \<Longrightarrow> expiresAt e > now \<Longrightarrow> domainToEntry s1 d = Some e"
    using cleanup_ok [OF p, of now order] cleanup_storeOK [OF assms] by (auto simp: s1_def)
  let ?al = "allocLoop s1 now (ToLower dom0) (now + lifetimeOf lifetime) (fNext s1) (fNext s1)"
  have run: "Allocate s now order dom0 lifetime = (case domainToEntry s1 (ToLower dom0) of
      Some e \<Rightarrow> Some (Inr (eIP e), putEntry s1 (e\<lparr>expiresAt := now + lifetimeOf lifetime\<rparr>))
    | None \<Rightarrow> ?al)"
    using False unfolding Allocate_def s1_def lifetimeOf_def Let_def by (simp only: if_False)
  show ?thesis
  proof (cases "domainToEntry s1 (ToLower dom0)")
    case (Some e)
    note e = pairedD(1) [OF c(1) Some]
    show ?thesis using c e renew_storeOK [OF c(3) Some] unfolding run Some by (simp add: putEntry_def)
  next
    case None
    from allocLoop_ok [OF c(3) None] consider
      "?al = Some (Inl (ErrNew ''fake ip pool exhausted''), s1)"
        "\<forall>m. 1 \<le> m \<longrightarrow> m < n \<longrightarrow> live now s1 (AddrString (addrAt (fPrefix s1) m))"
    | m where "1 \<le> m" "m < n" "\<not> live now s1 (AddrString (addrAt (fPrefix s1) m))"
        "?al = Some (Inr (AddrString (addrAt (fPrefix s1) m)), stored s1 (ToLower dom0) (now + lifetimeOf lifetime)
             (AddrString (addrAt (fPrefix s1) m)) (addrAt (fPrefix s1) (Suc m)))"
      by blast
    then show ?thesis
    proof cases
      case 1
      have "live now s1 i \<Longrightarrow> live now s i" for i unfolding s1_def by (rule live_cleanup [OF p])
      with 1 show ?thesis using c unfolding run None by simp
    next
      case (2 m)
      note st = stored_run [OF c(1) 2(3) None, where expires = "now + lifetimeOf lifetime" and nxt = "addrAt (fPrefix s1) (Suc m)"]
      show ?thesis using 2(4) stored_storeOK [OF c(3) None 2(1,2) refl 2(3)] c(2,4) st(2,3,5) unfolding run None by simp
    qed
  qed
qed

section \<open>The two stores of the program\<close>

definition defaultFakeStores :: "fakeStores option" where
  "defaultFakeStores = (case (mustNewFakeIPStore fakeIPv4CIDR, mustNewFakeIPStore fakeIPv6CIDR) of
       (Some s4, Some s6) \<Rightarrow> Some \<lparr>v4Store = s4, v6Store = s6\<rparr>
     | _ \<Rightarrow> None)"

inductive fakeReach :: "fakeStores \<Rightarrow> bool" where
  init: "defaultFakeStores = Some s \<Longrightarrow> fakeReach s"
| alloc: "fakeReach s \<Longrightarrow> allocateFakeIP s now order domain qtype ttl = Some (r, s') \<Longrightarrow> fakeReach s'"
| lookup: "fakeReach s \<Longrightarrow> lookupFakeDomainByIP s now ip = (r, s') \<Longrightarrow> fakeReach s'"

definition p4 :: Prefix where "p4 = \<lparr>pAddr = V4 0xC6120000, pBits = 15\<rparr>"
definition p6 :: Prefix where "p6 = \<lparr>pAddr = V6 0xfd666c756d6901000000000000000000 [], pBits = 56\<rparr>"

definition fakeOK :: "fakeStores \<Rightarrow> bool" where
  "fakeOK s \<longleftrightarrow> storeOK (2 ^ 17) (v4Store s) \<and> fPrefix (v4Store s) = p4 \<and>
     storeOK (2 ^ 72) (v6Store s) \<and> fPrefix (v6Store s) = p6"

lemma new_storeOK:
  assumes "block p n" "s = \<lparr>fPrefix = p, fNext = Next (pAddr p), domainToEntry = Map.empty, ipToEntry = Map.empty\<rparr>"
  shows "storeOK n s"
  using assms by (auto simp: storeOK_def paired_def block_def addrAt_def intro!: exI [of _ 1])

lemma init_fakeOK: "\<exists>s. defaultFakeStores = Some s \<and> fakeOK s"
  using new_storeOK [OF fake_blocks(1) refl] new_storeOK [OF fake_blocks(2) refl]
  by (simp add: defaultFakeStores_def mustNewFakeIPStore_def fake_prefixes fakeOK_def p4_def p6_def)

text \<open>The store a query type is served from, and the addresses it can give out.\<close>

definition storeFor :: "nat \<Rightarrow> fakeStores \<Rightarrow> fakeIPStore" where
  "storeFor qtype s = (if qtype = TypeA then v4Store s else v6Store s)"

definition poolSize :: "nat \<Rightarrow> nat" where
  "poolSize qtype = (if qtype = TypeA then 2 ^ 17 else 2 ^ 72)"

definition poolAddr :: "nat \<Rightarrow> nat \<Rightarrow> string" where
  "poolAddr qtype m = AddrString (addrAt (if qtype = TypeA then p4 else p6) m)"

lemma lifetime_pos: "lifetimeOf (fakeIPLifetime ttl) = fakeIPLifetime ttl" "fakeIPLifetime ttl \<ge> 60 * second"
  by (auto simp: lifetimeOf_def fakeIPLifetime_def fakeIPTTLFloor_def defaultFakeTTL_def second_def Let_def)

lemma storeFor_ok:
  "fakeOK s \<Longrightarrow> storeOK (poolSize qtype) (storeFor qtype s) \<and> fPrefix (storeFor qtype s) = (if qtype = TypeA then p4 else p6)"
  by (simp add: fakeOK_def poolSize_def storeFor_def)

lemma allocateFakeIP_ok:
  assumes "fakeOK s"
  shows "\<exists>r s'. allocateFakeIP s now order d0 qtype ttl = Some (r, s') \<and> fakeOK s' \<and>
    (\<forall>q d e. q \<in> {TypeA, TypeAAAA} \<longrightarrow> d \<noteq> ToLower d0 \<or> q \<noteq> qtype \<longrightarrow>
       domainToEntry (storeFor q s) d = Some e \<longrightarrow> expiresAt e > now \<longrightarrow> domainToEntry (storeFor q s') d = Some e) \<and>
    (isl r \<longrightarrow> qtype \<notin> {TypeA, TypeAAAA} \<or> ToLower d0 = [] \<or>
         (\<forall>m. 1 \<le> m \<longrightarrow> m < poolSize qtype \<longrightarrow> live now (storeFor qtype s) (poolAddr qtype m))) \<and>
    (\<forall>ip. r = Inr ip \<longrightarrow> qtype \<in> {TypeA, TypeAAAA} \<and> (\<exists>e. domainToEntry (storeFor qtype s') (ToLower d0) = Some e \<and> eIP e = ip \<and>
         expiresAt e = now + fakeIPLifetime ttl))"
proof (cases "qtype \<in> {TypeA, TypeAAAA}")
  case False
  then show ?thesis using assms by (simp add: allocateFakeIP_def Let_def)
next
  case True
  have st: "storeOK (poolSize qtype) (storeFor qtype s)" "fPrefix (storeFor qtype s) = (if qtype = TypeA then p4 else p6)"
    using storeFor_ok [OF assms] by blast+
  obtain r t where t: "Allocate (storeFor qtype s) now order d0 (fakeIPLifetime ttl) = Some (r, t)"
    "storeOK (poolSize qtype) t" "fPrefix t = fPrefix (storeFor qtype s)"
    "\<forall>d e. d \<noteq> ToLower d0 \<longrightarrow> domainToEntry (storeFor qtype s) d = Some e \<longrightarrow> expiresAt e > now \<longrightarrow> domainToEntry t d = Some e"
    "case r of
       Inl _ \<Rightarrow> ToLower d0 = [] \<or> (\<forall>m. 1 \<le> m \<longrightarrow> m < poolSize qtype \<longrightarrow> live now (storeFor qtype s) (AddrString (addrAt (fPrefix (storeFor qtype s)) m)))
     | Inr ip \<Rightarrow> \<exists>e. domainToEntry t (ToLower d0) = Some e \<and> eIP e = ip \<and> expiresAt e = now + lifetimeOf (fakeIPLifetime ttl)"
    using Allocate_ok [OF st(1), of now order d0 "fakeIPLifetime ttl"] by blast
  let ?s' = "if qtype = TypeA then s\<lparr>v4Store := t\<rparr> else s\<lparr>v6Store := t\<rparr>"
  have sf: "storeFor q ?s' = (if q = qtype then t else storeFor q s)" if "q \<in> {TypeA, TypeAAAA}" for q
    using that True by (auto simp: storeFor_def TypeA_def TypeAAAA_def)
  have "allocateFakeIP s now order d0 qtype ttl = Some (r, ?s')"
    using t(1) True by (auto simp: allocateFakeIP_def storeFor_def Let_def TypeA_def TypeAAAA_def)
  moreover have "fakeOK ?s'" using assms t(2,3) st(2) by (auto simp: fakeOK_def poolSize_def)
  moreover have "storeFor qtype ?s' = t" using sf True by simp
  ultimately show ?thesis
    using t(4,5) True sf unfolding poolAddr_def st(2) [symmetric] lifetime_pos(1)
    by (intro exI [of _ r] exI [of _ ?s']) (auto split: sum.splits)
qed

text \<open>A printed IPv4 address has no colon, an IPv6 address of the pool has one.\<close>

lemma set_JoinStr: "set (JoinStr xs sep) \<subseteq> (\<Union>x \<in> set xs. set x) \<union> set sep"
  by (auto simp: JoinStr_def split: list.split)

lemma string4_no_colon: "CHR '':'' \<notin> set (string4 a)"
proof -
  have "CHR '':'' \<notin> set (digitsOf n)" for n
    using digitsOf_digits [of n] by (auto simp: list_all_iff isDigit_def code_def)
  then show ?thesis using set_JoinStr [of "map digitsOf (bytes4 a)" "''.''"] by (auto simp: string4_def)
qed

lemma JoinStr_colon: "2 \<le> length xs \<Longrightarrow> CHR '':'' \<in> set (JoinStr xs '':'')"
  by (cases xs; cases "tl xs") (auto simp: JoinStr_def)

lemma string6_colon: "CHR '':'' \<in> set (string6 a)"
  by (auto simp: string6_def Let_def groups_def intro!: JoinStr_colon split: option.split)

lemma poolAddr_6:
  assumes "m < 2 ^ 72"
  shows "CHR '':'' \<in> set (AddrString (addrAt p6 m))"
proof -
  have "addrAt p6 m = V6 (0xfd666c756d6901000000000000000000 + of_nat m) []"
    using assms by (intro addrAt_V6) (simp_all add: p6_def)
  then show ?thesis by (simp add: string6_colon)
qed

lemma poolAddr_4:
  assumes "m < 2 ^ 17"
  shows "AddrString (addrAt p4 m) = string4 (0xC6120000 + of_nat m)"
proof -
  have "addrAt p4 m = V4 (0xC6120000 + of_nat m)"
    using assms by (intro addrAt_V4) (simp_all add: p4_def)
  then show ?thesis by simp
qed

lemma v6_not_in_v4:
  assumes "fakeOK s" "domainToEntry (v6Store s) d = Some e"
  shows "ipToEntry (v4Store s) (eIP e) = None"
proof (rule ccontr)
  assume "ipToEntry (v4Store s) (eIP e) \<noteq> None"
  then obtain f where f: "ipToEntry (v4Store s) (eIP e) = Some f" by auto
  have "paired (v4Store s)" using assms(1) by (simp add: fakeOK_def storeOK_def)
  from pairedD(2) [OF this f] have "eIP f = eIP e" "domainToEntry (v4Store s) (eDomain f) = Some f" by auto
  then obtain m where "m < 2 ^ 17" "eIP e = AddrString (addrAt p4 m)"
    using assms(1) unfolding fakeOK_def storeOK_def by metis
  moreover obtain k where "k < 2 ^ 72" "eIP e = AddrString (addrAt p6 k)"
    using assms unfolding fakeOK_def storeOK_def by metis
  ultimately show False using poolAddr_6 poolAddr_4 string4_no_colon by metis
qed

lemma lookupFake_ok:
  assumes "fakeOK s" "lookupFakeDomainByIP s now ip = (r, s')"
  shows "fakeOK s' \<and> (\<forall>q d e. domainToEntry (storeFor q s) d = Some e \<longrightarrow> expiresAt e > now \<longrightarrow>
    domainToEntry (storeFor q s') d = Some e)"
proof -
  have o: "storeOK (2 ^ 17) (v4Store s)" "storeOK (2 ^ 72) (v6Store s)" using assms(1) by (simp_all add: fakeOK_def)
  show ?thesis
    using assms LookupDomain_ok [OF o(1), of now ip] LookupDomain_ok [OF o(2), of now ip]
    by (auto simp: lookupFakeDomainByIP_def fakeOK_def storeFor_def split: prod.splits option.splits)
qed

lemma lookupFake_hit:
  assumes "fakeOK s" "q \<in> {TypeA, TypeAAAA}" "domainToEntry (storeFor q s) d = Some e" "expiresAt e > now"
  shows "fst (lookupFakeDomainByIP s now (eIP e)) = Some d"
proof -
  have p: "paired (v4Store s)" "paired (v6Store s)" using assms(1) by (simp_all add: fakeOK_def storeOK_def)
  show ?thesis
  proof (cases "q = TypeA")
    case True
    then show ?thesis using LookupDomain_hit [OF p(1) _ assms(4)] assms(3)
      by (simp add: storeFor_def lookupFakeDomainByIP_def)
  next
    case False
    then have e: "domainToEntry (v6Store s) d = Some e" using assms(3) by (simp add: storeFor_def)
    show ?thesis using v6_not_in_v4 [OF assms(1) e] LookupDomain_hit [OF p(2) e assms(4)]
      by (simp add: lookupFakeDomainByIP_def LookupDomain_def [of "v4Store s"])
  qed
qed

lemma fakeReach_ok: "fakeReach s \<Longrightarrow> fakeOK s"
proof (induction rule: fakeReach.induct)
  case (init s)
  from init_fakeOK obtain t where "defaultFakeStores = Some t" "fakeOK t" by blast
  with init show ?case by (metis option.inject)
next
  case (alloc s now order domain qtype ttl r s')
  then show ?case using allocateFakeIP_ok [OF alloc.IH, of now order domain qtype ttl] by auto
next
  case (lookup s now ip r s')
  then show ?case using lookupFake_ok by blast
qed

text \<open>A history of calls, each with the time it is made at.\<close>

datatype fakeOp = OpAlloc int "string list" string nat nat | OpLookup int string

fun opTime :: "fakeOp \<Rightarrow> int" where
  "opTime (OpAlloc now _ _ _ _) = now"
| "opTime (OpLookup now _) = now"

fun renews :: "string \<Rightarrow> nat \<Rightarrow> fakeOp \<Rightarrow> bool" where
  "renews d q (OpAlloc _ _ d0 qtype _) \<longleftrightarrow> ToLower d0 = d \<and> qtype = q"
| "renews d q (OpLookup _ _) \<longleftrightarrow> False"

fun runFake :: "fakeStores \<Rightarrow> fakeOp list \<Rightarrow> fakeStores option" where
  "runFake s [] = Some s"
| "runFake s (OpAlloc now order d0 qtype ttl # ops) =
     (case allocateFakeIP s now order d0 qtype ttl of None \<Rightarrow> None | Some (_, s') \<Rightarrow> runFake s' ops)"
| "runFake s (OpLookup now ip # ops) = runFake (snd (lookupFakeDomainByIP s now ip)) ops"

lemma runFake_keeps:
  assumes "fakeOK s" "q \<in> {TypeA, TypeAAAA}" "domainToEntry (storeFor q s) d = Some e"
    "\<forall>op \<in> set ops. opTime op < expiresAt e \<and> \<not> renews d q op"
  shows "\<exists>s'. runFake s ops = Some s' \<and> fakeOK s' \<and> domainToEntry (storeFor q s') d = Some e"
  using assms
proof (induction s ops rule: runFake.induct)
  case (2 s now order d0 qtype ttl ops)
  obtain r s' where s': "allocateFakeIP s now order d0 qtype ttl = Some (r, s')" "fakeOK s'"
      "domainToEntry (storeFor q s') d = Some e"
    using allocateFakeIP_ok [OF 2(2), of now order d0 qtype ttl] 2(3-5) by auto
  show ?case using 2(1) [OF s'(1) refl s'(2) 2(3) s'(3)] 2(5) s'(1) by simp
next
  case (3 s now ip ops)
  obtain r s' where s': "lookupFakeDomainByIP s now ip = (r, s')" by (cases "lookupFakeDomainByIP s now ip")
  show ?case using 3 lookupFake_ok [OF 3(2) s'] s' by simp
qed simp

section \<open>Properties\<close>

text \<open>C20. In every state the two fake-address stores can reach, by any sequence of allocations and
  lookups at any times, the map from names to entries and the map from addresses to entries are
  inverse to each other: no two names share an address, no name has two addresses in a store. And
  every address a store has given out is one \<^verbatim>\<open>isFakeIPAddress\<close> recognises (stated for IPv4).\<close>

theorem fake_reachable_bijection:
  assumes "fakeReach s"
  shows "(domainToEntry (v4Store s) d = Some e \<longleftrightarrow> eDomain e = d \<and> ipToEntry (v4Store s) (eIP e) = Some e) \<and>
    (domainToEntry (v6Store s) d = Some e \<longleftrightarrow> eDomain e = d \<and> ipToEntry (v6Store s) (eIP e) = Some e) \<and>
    (domainToEntry (v4Store s) d = Some e \<longrightarrow> isFakeIPAddress s (eIP e))"
proof -
  have f: "fakeOK s" by (rule fakeReach_ok [OF assms])
  then have p: "paired (v4Store s)" "paired (v6Store s)" by (simp_all add: fakeOK_def storeOK_def)
  have "isFakeIPAddress s (eIP e)" if e: "domainToEntry (v4Store s) d = Some e"
  proof -
    obtain m where m: "m < 2 ^ 17" "eIP e = AddrString (addrAt p4 m)"
      using e f unfolding fakeOK_def storeOK_def by metis
    have "addrAt p4 m = V4 (0xC6120000 + of_nat m)" using m(1) by (intro addrAt_V4) (simp_all add: p4_def)
    moreover have "Contains p4 (addrAt p4 m)" using m(1) f by (auto simp: fakeOK_def storeOK_def block_def)
    ultimately show ?thesis using f m(2) by (simp add: isFakeIPAddress_def fakeOK_def ParseAddr_string4)
  qed
  then show ?thesis using pairedD [OF p(1)] pairedD [OF p(2)] by blast
qed

lemma default_reach: "\<exists>s. defaultFakeStores = Some s \<and> fakeReach s"
  using init_fakeOK fakeReach.init by blast

lemma alloc_reach:
  "\<exists>s s1. defaultFakeStores = Some s \<and> fakeReach s \<and> fakeReach s1 \<and>
     allocateFakeIP s 0 [] ''Example.org'' TypeA 300 = Some (Inr ''198.18.0.1'', s1)"
proof -
  obtain s where s: "defaultFakeStores = Some s" "fakeReach s" using default_reach by blast
  obtain w where s': "s = \<lparr>v4Store = \<lparr>fPrefix = p4, fNext = V4 0xC6120001, domainToEntry = Map.empty, ipToEntry = Map.empty\<rparr>,
      v6Store = w\<rparr>"
    using s(1) by (auto simp: defaultFakeStores_def mustNewFakeIPStore_def fake_prefixes p4_def)
  have str: "AddrString (V4 0xC6120001) = ''198.18.0.1''" by code_simp
  have low: "ToLower ''Example.org'' = ''example.org''" by code_simp
  have n: "normalize (v4Store s) (V4 0xC6120001) = V4 0xC6120001"
    unfolding s' by (simp add: normalize_def p4_def Contains_def)
  have "\<exists>s1. allocateFakeIP s 0 [] ''Example.org'' TypeA 300 = Some (Inr ''198.18.0.1'', s1)"
    using n unfolding s' allocateFakeIP_def Allocate_def Let_def low
    by (simp add: cleanupExpiredLocked_def allocLoop_step Let_def str live_def del: AddrString.simps)
  then show ?thesis using s fakeReach.alloc by blast
qed

theorem fake_reachable_bijection_witness:
  "\<exists>s e. fakeReach s \<and> domainToEntry (v4Store s) ''example.org'' = Some e \<and>
     ipToEntry (v4Store s) (eIP e) = Some e \<and> isFakeIPAddress s (eIP e)"
proof -
  obtain s s1 where s: "fakeReach s" "fakeReach s1" "allocateFakeIP s 0 [] ''Example.org'' TypeA 300 = Some (Inr ''198.18.0.1'', s1)"
    using alloc_reach by blast
  have low: "ToLower ''Example.org'' = ''example.org''" by code_simp
  obtain e where "domainToEntry (v4Store s1) ''example.org'' = Some e"
    using allocateFakeIP_ok [OF fakeReach_ok [OF s(1)], of 0 "[]" "''Example.org''" TypeA 300] s(3)
    unfolding low by (auto simp: storeFor_def)
  then show ?thesis using s(2) fake_reachable_bijection [OF s(2), of "''example.org''" e] by blast
qed

text \<open>C21. In every reachable state an allocation returns: the search loop, which has no bound in
  the code, ends. For an A or AAAA query and a name that is not empty it gives an address unless
  every address of the store's prefix but the first is in use by an entry that has not expired.
  (The loop would run for ever on a full store whose search starts at the first address; no
  sequence of calls leads there.)\<close>

theorem fake_allocation_returns:
  assumes "fakeReach s"
  shows "\<exists>r s'. allocateFakeIP s now order domain qtype ttl = Some (r, s') \<and>
    (qtype \<in> {TypeA, TypeAAAA} \<and> ToLower domain \<noteq> [] \<and>
     (\<exists>m. 1 \<le> m \<and> m < poolSize qtype \<and> \<not> live now (storeFor qtype s) (poolAddr qtype m)) \<longrightarrow> (\<exists>ip. r = Inr ip))"
proof -
  from allocateFakeIP_ok [OF fakeReach_ok [OF assms], of now order domain qtype ttl] obtain r s' where
    "allocateFakeIP s now order domain qtype ttl = Some (r, s')"
    "isl r \<longrightarrow> qtype \<notin> {TypeA, TypeAAAA} \<or> ToLower domain = [] \<or>
       (\<forall>m. 1 \<le> m \<longrightarrow> m < poolSize qtype \<longrightarrow> live now (storeFor qtype s) (poolAddr qtype m))"
    by blast
  then show ?thesis by (cases r) auto
qed

theorem fake_allocation_returns_witness:
  "\<exists>s ip s'. defaultFakeStores = Some s \<and> fakeReach s \<and>
     allocateFakeIP s 5 [] ''Example.org'' TypeAAAA 300 = Some (Inr ip, s')"
proof -
  obtain s where s: "defaultFakeStores = Some s" "fakeReach s" using default_reach by blast
  have low: "ToLower ''Example.org'' = ''example.org''" by code_simp
  have "\<not> live 5 (storeFor TypeAAAA s) x" for x
    using s(1) by (auto simp: defaultFakeStores_def mustNewFakeIPStore_def fake_prefixes live_def storeFor_def TypeA_def TypeAAAA_def)
  then have "\<exists>m. 1 \<le> m \<and> m < poolSize TypeAAAA \<and> \<not> live 5 (storeFor TypeAAAA s) (poolAddr TypeAAAA m)"
    by (intro exI [of _ 1]) (simp add: poolSize_def)
  then show ?thesis
    using s fake_allocation_returns [OF s(2), of 5 "[]" "''Example.org''" TypeAAAA 300] unfolding low by auto
qed

text \<open>C22. Round trip: after an allocation gave an address for a name, looking the address up gives
  the name (in lower case) until the lifetime of the mapping is over, which is at least a minute;
  no calls in between for other names, whatever their number and order, take the mapping away.\<close>

theorem fake_mapping_stable:
  assumes "fakeReach s" "allocateFakeIP s now order domain qtype ttl = Some (Inr ip, s1)"
    "\<forall>op \<in> set ops. opTime op < now + fakeIPLifetime ttl \<and> \<not> renews (ToLower domain) qtype op"
    "t < now + fakeIPLifetime ttl"
  shows "60 * second \<le> fakeIPLifetime ttl \<and>
    (\<exists>s2. runFake s1 ops = Some s2 \<and> fst (lookupFakeDomainByIP s2 t ip) = Some (ToLower domain))"
proof -
  obtain e where e: "fakeOK s1" "qtype \<in> {TypeA, TypeAAAA}" "domainToEntry (storeFor qtype s1) (ToLower domain) = Some e"
      "eIP e = ip" "expiresAt e = now + fakeIPLifetime ttl"
    using allocateFakeIP_ok [OF fakeReach_ok [OF assms(1)], of now order domain qtype ttl] assms(2) by auto
  obtain s2 where s2: "runFake s1 ops = Some s2" "fakeOK s2" "domainToEntry (storeFor qtype s2) (ToLower domain) = Some e"
    using runFake_keeps [OF e(1-3)] assms(3) e(5) by auto
  show ?thesis using lookupFake_hit [OF s2(2) e(2) s2(3)] s2(1) e(4,5) assms(4) lifetime_pos(2) by simp
qed

theorem fake_mapping_stable_witness:
  "\<exists>s s1 s2. fakeReach s \<and> allocateFakeIP s 0 [] ''Example.org'' TypeA 300 = Some (Inr ''198.18.0.1'', s1) \<and>
     runFake s1 [OpAlloc 1 [''example.org''] ''other.net'' TypeA 60, OpLookup 2 ''198.18.0.9''] = Some s2 \<and>
     fst (lookupFakeDomainByIP s2 (200 * second) ''198.18.0.1'') = Some (ToLower ''Example.org'')"
proof -
  obtain s s1 where s: "fakeReach s" "allocateFakeIP s 0 [] ''Example.org'' TypeA 300 = Some (Inr ''198.18.0.1'', s1)"
    using alloc_reach by blast
  have l: "fakeIPLifetime 300 = 300 * second" by code_simp
  have r: "\<not> renews (ToLower ''Example.org'') TypeA (OpAlloc 1 [''example.org''] ''other.net'' TypeA 60)" by code_simp
  have sec: "second = 1000000000" by (simp add: second_def)
  show ?thesis
    using s fake_mapping_stable [OF s, of "[OpAlloc 1 [''example.org''] ''other.net'' TypeA 60, OpLookup 2 ''198.18.0.9'']" "200 * second"] r
    unfolding l sec by auto
qed

end
