(* ===== verification/Link_Rings.thy ===== *)
theory Link_Rings
  imports Prelude
begin

text \<open>
  Doubly linked circular lists over array positions. The LRU cache of
  \<^verbatim>\<open>internal/freelru\<close> keeps two families of them in one array: the recency list
  (fields \<^verbatim>\<open>next\<close>, \<^verbatim>\<open>prev\<close>) and one list per hash bucket (fields \<^verbatim>\<open>nextBucket\<close>,
  \<^verbatim>\<open>prevBucket\<close>). \<open>ring n p xs\<close> says that the successor function \<open>n\<close> and the predecessor
  function \<open>p\<close> link exactly the positions \<open>xs\<close>, in this order and circularly.
\<close>

section \<open>Linked segments\<close>

lemma last_notin_butlast: "distinct xs \<Longrightarrow> xs \<noteq> [] \<Longrightarrow> last xs \<notin> set (butlast xs)"
  by (induction xs rule: rev_induct) auto

lemma hd_notin_tl: "distinct xs \<Longrightarrow> xs \<noteq> [] \<Longrightarrow> hd xs \<notin> set (tl xs)"
  by (cases xs) auto

lemma in_set_tlD: "x \<in> set (tl xs) \<Longrightarrow> x \<in> set xs"
  by (cases xs) auto

fun linked :: "(nat \<Rightarrow> nat) \<Rightarrow> (nat \<Rightarrow> nat) \<Rightarrow> nat list \<Rightarrow> bool" where
  "linked n p (x # y # zs) = (n x = y \<and> p y = x \<and> linked n p (y # zs))"
| "linked n p [x] = True"
| "linked n p [] = True"

lemma linked_Cons: "linked n p (x # xs) \<longleftrightarrow>
    linked n p xs \<and> (xs \<noteq> [] \<longrightarrow> n x = hd xs \<and> p (hd xs) = x)"
  by (cases xs) auto

lemma linked_append: "linked n p (xs @ ys) \<longleftrightarrow> linked n p xs \<and> linked n p ys \<and>
    (xs \<noteq> [] \<and> ys \<noteq> [] \<longrightarrow> n (last xs) = hd ys \<and> p (hd ys) = last xs)"
  by (induction xs) (auto simp: linked_Cons hd_append)

lemma linked_cong:
  "(\<And>x. x \<in> set (butlast xs) \<Longrightarrow> n x = n' x) \<Longrightarrow> (\<And>x. x \<in> set (tl xs) \<Longrightarrow> p x = p' x) \<Longrightarrow>
   linked n p xs = linked n' p' xs"
  by (induction n p xs rule: linked.induct) auto

section \<open>Rings\<close>

definition ring :: "(nat \<Rightarrow> nat) \<Rightarrow> (nat \<Rightarrow> nat) \<Rightarrow> nat list \<Rightarrow> bool" where
  "ring n p xs \<longleftrightarrow> distinct xs \<and> linked n p xs \<and>
     (xs \<noteq> [] \<longrightarrow> n (last xs) = hd xs \<and> p (hd xs) = last xs)"

lemma ring_Nil [simp]: "ring n p []"
  by (simp add: ring_def)

lemma ring_single [simp]: "ring n p [x] \<longleftrightarrow> n x = x \<and> p x = x"
  by (simp add: ring_def)

lemma ring_distinct: "ring n p xs \<Longrightarrow> distinct xs"
  by (simp add: ring_def)

lemma ring_rotate: "ring n p (xs @ ys) \<Longrightarrow> ring n p (ys @ xs)"
  by (cases "xs = []"; cases "ys = []") (auto simp: ring_def linked_append)

lemma ring_rotate_to:
  assumes "ring n p xs" and "x \<in> set xs"
  obtains us vs where "xs = us @ x # vs" and "ring n p (x # vs @ us)"
proof -
  from assms(2) obtain us vs where xs: "xs = us @ x # vs" by (auto dest: split_list)
  with ring_rotate [of n p us "x # vs"] assms(1) show ?thesis by (auto intro: that)
qed

lemma ring_cong:
  assumes "\<And>x. x \<in> set xs \<Longrightarrow> n x = n' x" and "\<And>x. x \<in> set xs \<Longrightarrow> p x = p' x"
  shows "ring n p xs = ring n' p' xs"
proof -
  have "linked n p xs = linked n' p' xs"
    by (rule linked_cong) (auto intro: assms dest: in_set_butlastD in_set_tlD)
  then show ?thesis
    using assms by (cases "xs = []") (auto simp: ring_def)
qed

lemma ring_hd: "ring n p (x # xs) \<Longrightarrow> xs \<noteq> [] \<Longrightarrow> n x = hd xs \<and> p x = last xs"
  by (auto simp: ring_def linked_Cons)

lemma ring_step: "ring n p (x # y # zs) \<Longrightarrow> n x = y"
  by (simp add: ring_def)

lemma ring_closed:
  assumes "ring n p xs" and "x \<in> set xs"
  shows "n x \<in> set xs \<and> p x \<in> set xs"
proof -
  obtain us vs where xs: "xs = us @ x # vs" and r: "ring n p (x # vs @ us)"
    using assms by (rule ring_rotate_to)
  show ?thesis
  proof (cases "vs @ us = []")
    case True
    with r xs show ?thesis by simp
  next
    case False
    have "n x \<in> set (vs @ us)" and "p x \<in> set (vs @ us)"
      using ring_hd [OF r False] hd_in_set [OF False] last_in_set [OF False] by simp_all
    with xs show ?thesis by auto
  qed
qed

section \<open>Unlinking, linking and moving a node\<close>

text \<open>Writing the successor of the last node and the predecessor of the first one, or
  anything outside the segment, leaves the links inside it as they are.\<close>

lemma linked_upd_ends:
  assumes "distinct xs" and "xs \<noteq> []" and "q \<notin> set xs"
  shows "linked (n(last xs := a, q := b)) (p(hd xs := c, q := d)) xs = linked n p xs"
  using assms last_notin_butlast [OF assms(1,2)] hd_notin_tl [OF assms(1,2)]
  by (intro linked_cong) (auto dest: in_set_butlastD in_set_tlD)

lemma linked_upd_ends0:
  assumes "distinct xs" and "xs \<noteq> []"
  shows "linked (n(last xs := a)) (p(hd xs := c)) xs = linked n p xs"
  using assms last_notin_butlast [OF assms] hd_notin_tl [OF assms]
  by (intro linked_cong) (auto dest: in_set_butlastD in_set_tlD)

lemma ring_unlink_hd:
  assumes "ring n p (x # xs)"
  shows "ring (n(p x := n x)) (p(n x := p x)) xs"
proof (cases "xs = []")
  case False
  from ring_hd [OF assms False] have nx: "n x = hd xs" and px: "p x = last xs" by auto
  from assms have d: "distinct xs" and l: "linked n p xs" by (auto simp: ring_def linked_Cons)
  from d l False nx px show ?thesis
    unfolding ring_def nx px by (simp add: linked_upd_ends0)
qed simp

lemma ring_unlink [ring_intros]:
  assumes "ring n p (us @ x # vs)"
  shows "ring (n(p x := n x)) (p(n x := p x)) (us @ vs)"
proof -
  from ring_rotate [OF assms] have "ring n p (x # vs @ us)" by simp
  from ring_rotate [OF ring_unlink_hd [OF this]] show ?thesis .
qed

lemma ring_link [ring_intros]:
  assumes "ring n p xs" and "xs \<noteq> []" and "q \<notin> set xs"
  shows "ring (n(last xs := q, q := hd xs)) (p(hd xs := q, q := last xs)) (xs @ [q])"
proof -
  from assms have d: "distinct xs" and l: "linked n p xs" by (auto simp: ring_def)
  have "last xs \<noteq> q" and "hd xs \<noteq> q" using assms(2,3) by auto
  then show ?thesis
    using d l assms(2,3) by (simp add: ring_def linked_append linked_upd_ends)
qed

lemma ring_move [ring_intros]:
  assumes "ring n p (f # xs)" and "t \<notin> set (f # xs)"
  shows "ring (n(p f := t, t := (n(p f := t)) f)) (p(n f := t, t := (p(n f := t)) f)) (t # xs)"
proof (cases "xs = []")
  case True
  with assms show ?thesis by simp
next
  case False
  from ring_hd [OF assms(1) False] have nf: "n f = hd xs" and pf: "p f = last xs" by auto
  from assms(1) have d: "f \<notin> set xs" "distinct xs" and l: "linked n p xs"
    by (auto simp: ring_def linked_Cons)
  have ne: "f \<noteq> hd xs" "f \<noteq> last xs" "hd xs \<noteq> t" "last xs \<noteq> t"
    using d False assms(2) by auto
  have "linked (n(last xs := t, t := hd xs)) (p(hd xs := t, t := last xs)) xs"
    using d l False assms(2) by (simp add: linked_upd_ends)
  then show ?thesis
    unfolding nf pf using d False ne assms(2) nf pf
    by (simp add: ring_def linked_Cons)
qed

end
