(* ===== verification/FreeLRU.thy ===== *)
theory FreeLRU
  imports Link_Rings
begin

text \<open>
  The fixed-size LRU cache \<^verbatim>\<open>internal/freelru/lru.go\<close>: a slice of elements that carries
  the recency ring and the hash-bucket rings, and a slice of bucket heads. Positions are
  natural numbers (the code's \<^verbatim>\<open>uint32\<close>; the constructor keeps them below
  \<^verbatim>\<open>emptyBucket\<close>), hashes are 32-bit words, times are Unix milliseconds. Every operation
  that indexes a slice returns an option, \<^const>\<open>None\<close> being a run-time panic or a walk
  that never ends. The eviction callback is never installed (its setter is commented out
  in the source), so it is not part of the state.
\<close>

section \<open>State\<close>

record ('k, 'v) element =
  key :: 'k
  value' :: 'v
  nextBucket :: nat
  prevBucket :: nat
  bucketPos :: nat
  next' :: nat
  prev :: nat
  expire :: int

record ('k, 'v) LRU =
  buckets :: "nat list"
  elements :: "('k, 'v) element list"
  emptyKey :: 'k
  emptyValue :: 'v
  head :: nat
  len :: nat
  cap :: nat
  size' :: nat
  mask' :: u32

definition emptyBucket :: nat where "emptyBucket = 4294967295"

definition elem :: "('k, 'v) LRU \<Rightarrow> nat \<Rightarrow> ('k, 'v) element option" where
  "elem l i = (if i < length (elements l) then Some (elements l ! i) else None)"

definition upd :: "('k, 'v) LRU \<Rightarrow> nat \<Rightarrow> (('k, 'v) element \<Rightarrow> ('k, 'v) element) \<Rightarrow> ('k, 'v) LRU option" where
  "upd l i f = (if i < length (elements l)
     then Some (l\<lparr>elements := (elements l)[i := f (elements l ! i)]\<rparr>) else None)"

definition bucket :: "('k, 'v) LRU \<Rightarrow> nat \<Rightarrow> nat option" where
  "bucket l b = (if b < length (buckets l) then Some (buckets l ! b) else None)"

definition setBucket :: "('k, 'v) LRU \<Rightarrow> nat \<Rightarrow> nat \<Rightarrow> ('k, 'v) LRU option" where
  "setBucket l b i = (if b < length (buckets l)
     then Some (l\<lparr>buckets := (buckets l)[b := i]\<rparr>) else None)"

section \<open>Construction\<close>

definition OnesCount32 :: "u32 \<Rightarrow> nat" where
  "OnesCount32 w = length (filter (bit w) [0..<32])"

definition Len32 :: "u32 \<Rightarrow> nat" where
  "Len32 w = length (dropWhile (\<lambda>i. \<not> bit w i) (rev [0..<32]))"

definition zeroElement :: "'k \<Rightarrow> 'v \<Rightarrow> ('k, 'v) element" where
  "zeroElement k v = \<lparr>key = k, value' = v, nextBucket = 0, prevBucket = 0, bucketPos = 0,
     next' = 0, prev = 0, expire = 0\<rparr>"

definition initLRU :: "nat \<Rightarrow> nat \<Rightarrow> 'k \<Rightarrow> 'v \<Rightarrow> nat list \<Rightarrow> ('k, 'v) element list \<Rightarrow> ('k, 'v) LRU" where
  "initLRU capacity sz k v bs es =
     \<lparr>buckets = map (\<lambda>_. emptyBucket) bs, elements = es, emptyKey = k, emptyValue = v,
      head = 0, len = 0, cap = capacity, size' = sz,
      mask' = (if OnesCount32 (word_of_nat sz) = 1 then word_of_nat sz - 1 else 0)\<rparr>"

definition NewWithSize :: "nat \<Rightarrow> nat \<Rightarrow> 'k \<Rightarrow> 'v \<Rightarrow> ('k, 'v) LRU res" where
  "NewWithSize capacity sz k v =
     (if capacity = 0 then Inl (ErrNew ''capacity must be positive'')
      else if sz = emptyBucket then Inl (ErrNew ''size must not be 0XFFFFFFFF'')
      else if sz < capacity then Inl (ErrNew (''size ('' @ digitsOf sz @ '') is smaller than capacity ('' @ digitsOf capacity @ '')''))
      else Inr (initLRU capacity sz k v (replicate sz 0) (replicate sz (zeroElement k v))))"

definition New :: "nat \<Rightarrow> 'k \<Rightarrow> 'v \<Rightarrow> ('k, 'v) LRU res" where
  "New capacity k v = NewWithSize capacity capacity k v"

section \<open>Operations\<close>

definition fastRange :: "u32 \<Rightarrow> u32 \<Rightarrow> u32" where
  "fastRange x n = ucast (drop_bit 32 (ucast x * ucast n :: 64 word))"

definition hashToBucketPos :: "('k, 'v) LRU \<Rightarrow> u32 \<Rightarrow> nat" where
  "hashToBucketPos l h =
     (if mask' l \<noteq> 0 then unat (h AND mask' l) else unat (fastRange h (word_of_nat (size' l))))"

definition hashToPos :: "('k, 'v) LRU \<Rightarrow> u32 \<Rightarrow> (nat \<times> nat) option" where
  "hashToPos l h = do {
     let bp = hashToBucketPos l h;
     e \<leftarrow> bucket l bp;
     Some (bp, e) }"

definition setHead :: "('k, 'v) LRU \<Rightarrow> nat \<Rightarrow> ('k, 'v) LRU option" where
  "setHead l pos = (if pos = head l then None else do {
     l \<leftarrow> upd l pos (\<lambda>e. e\<lparr>prev := head l\<rparr>);
     h \<leftarrow> elem l (head l);
     l \<leftarrow> upd l pos (\<lambda>e. e\<lparr>next' := next' h\<rparr>);
     h \<leftarrow> elem l (head l);
     l \<leftarrow> upd l (next' h) (\<lambda>e. e\<lparr>prev := pos\<rparr>);
     l \<leftarrow> upd l (head l) (\<lambda>e. e\<lparr>next' := pos\<rparr>);
     Some (l\<lparr>head := pos\<rparr>) })"

definition unlinkElement :: "('k, 'v) LRU \<Rightarrow> nat \<Rightarrow> ('k, 'v) LRU option" where
  "unlinkElement l pos = do {
     e \<leftarrow> elem l pos;
     l \<leftarrow> upd l (prev e) (\<lambda>x. x\<lparr>next' := next' e\<rparr>);
     e \<leftarrow> elem l pos;
     upd l (next' e) (\<lambda>x. x\<lparr>prev := prev e\<rparr>) }"

definition unlinkBucket :: "('k, 'v) LRU \<Rightarrow> nat \<Rightarrow> ('k, 'v) LRU option" where
  "unlinkBucket l pos = do {
     e \<leftarrow> elem l pos;
     if prevBucket e = nextBucket e \<and> prevBucket e = pos
     then setBucket l (bucketPos e) emptyBucket
     else do {
       l \<leftarrow> upd l (prevBucket e) (\<lambda>x. x\<lparr>nextBucket := nextBucket e\<rparr>);
       l \<leftarrow> upd l (nextBucket e) (\<lambda>x. x\<lparr>prevBucket := prevBucket e\<rparr>);
       e' \<leftarrow> elem l pos;
       setBucket l (bucketPos e') (nextBucket e) } }"

text \<open>\<^verbatim>\<open>len\<close> is a \<^verbatim>\<open>uint32\<close>: its decrement and increment wrap around.\<close>

definition evict :: "('k, 'v) LRU \<Rightarrow> nat \<Rightarrow> ('k, 'v) LRU option" where
  "evict l pos = do {
     l \<leftarrow> (if pos = head l then do { e \<leftarrow> elem l pos; Some (l\<lparr>head := prev e\<rparr>) } else Some l);
     l \<leftarrow> unlinkElement l pos;
     l \<leftarrow> unlinkBucket l pos;
     Some (l\<lparr>len := (len l + 4294967295) mod 4294967296\<rparr>) }"

definition move :: "('k, 'v) LRU \<Rightarrow> nat \<Rightarrow> nat \<Rightarrow> ('k, 'v) LRU option" where
  "move l to from = (if to = from then Some l else do {
     let l = (if from = head l then l\<lparr>head := to\<rparr> else l);
     e \<leftarrow> elem l from;
     l \<leftarrow> upd l (prev e) (\<lambda>x. x\<lparr>next' := to\<rparr>);
     l \<leftarrow> upd l (next' e) (\<lambda>x. x\<lparr>prev := to\<rparr>);
     e \<leftarrow> elem l from;
     l \<leftarrow> upd l (prevBucket e) (\<lambda>x. x\<lparr>nextBucket := to\<rparr>);
     l \<leftarrow> upd l (nextBucket e) (\<lambda>x. x\<lparr>prevBucket := to\<rparr>);
     e \<leftarrow> elem l from;
     l \<leftarrow> upd l to (\<lambda>_. e);
     e \<leftarrow> elem l to;
     b \<leftarrow> bucket l (bucketPos e);
     if b = from then setBucket l (bucketPos e) to else Some l })"

definition expireAt :: "int \<Rightarrow> duration \<Rightarrow> int" where
  "expireAt now lifetime = (if lifetime = 0 then 0 else now + quot lifetime millisecond)"

definition insert' :: "int \<Rightarrow> ('k, 'v) LRU \<Rightarrow> nat \<Rightarrow> 'k \<Rightarrow> 'v \<Rightarrow> duration \<Rightarrow> ('k, 'v) LRU option" where
  "insert' now l pos k v lifetime = do {
     l \<leftarrow> upd l pos (\<lambda>e. e\<lparr>key := k, value' := v, expire := expireAt now lifetime\<rparr>);
     l \<leftarrow> (if len l = 0 then do {
              l \<leftarrow> upd l pos (\<lambda>e. e\<lparr>prev := pos, next' := pos\<rparr>);
              Some (l\<lparr>head := pos\<rparr>) }
            else if pos \<noteq> head l then setHead l pos
            else Some l);
     Some (l\<lparr>len := (len l + 1) mod 4294967296\<rparr>) }"

definition clearKeyAndValue :: "('k, 'v) LRU \<Rightarrow> nat \<Rightarrow> ('k, 'v) LRU option" where
  "clearKeyAndValue l pos = upd l pos (\<lambda>e. e\<lparr>key := emptyKey l, value' := emptyValue l\<rparr>)"

definition removeAt :: "('k, 'v) LRU \<Rightarrow> nat \<Rightarrow> ('k, 'v) LRU option" where
  "removeAt l pos = do {
     l \<leftarrow> evict l pos;
     l \<leftarrow> move l pos (len l);
     clearKeyAndValue l (len l) }"

partial_function (option) findKeyLoop ::
    "int \<Rightarrow> ('k, 'v) LRU \<Rightarrow> 'k \<Rightarrow> nat \<Rightarrow> nat \<Rightarrow> (('k, 'v) LRU \<times> nat option) option" where
  "findKeyLoop now l k startPos pos = do {
     e \<leftarrow> elem l pos;
     if k = key e then
       (if expire e \<noteq> 0 \<and> expire e \<le> now
        then do { l \<leftarrow> removeAt l pos; Some (l, None) }
        else Some (l, Some pos))
     else if nextBucket e = startPos then Some (l, None)
     else findKeyLoop now l k startPos (nextBucket e) }"

definition findKey :: "int \<Rightarrow> ('k, 'v) LRU \<Rightarrow> u32 \<Rightarrow> 'k \<Rightarrow> (('k, 'v) LRU \<times> nat option) option" where
  "findKey now l h k = do {
     (bp, startPos) \<leftarrow> hashToPos l h;
     if startPos = emptyBucket then Some (l, None)
     else findKeyLoop now l k startPos startPos }"

text \<open>The walk of \<^verbatim>\<open>addWithLifetime\<close> through the bucket: the position of the key, if any.\<close>

partial_function (option) addLoop ::
    "('k, 'v) LRU \<Rightarrow> 'k \<Rightarrow> nat \<Rightarrow> nat \<Rightarrow> nat option option" where
  "addLoop l k startPos pos = do {
     e \<leftarrow> elem l pos;
     if key e = k then Some (Some pos)
     else if nextBucket e = startPos then Some None
     else addLoop l k startPos (nextBucket e) }"

definition touch :: "('k, 'v) LRU \<Rightarrow> nat \<Rightarrow> ('k, 'v) LRU option" where
  "touch l pos = (if pos \<noteq> head l then do { l \<leftarrow> unlinkElement l pos; setHead l pos } else Some l)"

definition evictIfFull :: "('k, 'v) LRU \<Rightarrow> (('k, 'v) LRU \<times> nat \<times> bool) option" where
  "evictIfFull l =
     (if len l = cap l then do {
        h \<leftarrow> elem l (head l);
        l' \<leftarrow> evict l (next' h);
        Some (l', next' h, True) }
      else Some (l, len l, False))"

text \<open>Linking the element at a position as the only one of its bucket, and in front of the
  first one of its bucket.\<close>

definition linkOnly :: "('k, 'v) LRU \<Rightarrow> nat \<Rightarrow> nat \<Rightarrow> ('k, 'v) LRU option" where
  "linkOnly l bp pos = do {
     l \<leftarrow> setBucket l bp pos;
     l \<leftarrow> upd l pos (\<lambda>e. e\<lparr>bucketPos := bp\<rparr>);
     upd l pos (\<lambda>e. e\<lparr>nextBucket := pos, prevBucket := pos\<rparr>) }"

definition linkBefore :: "('k, 'v) LRU \<Rightarrow> nat \<Rightarrow> nat \<Rightarrow> nat \<Rightarrow> ('k, 'v) LRU option" where
  "linkBefore l bp startPos pos = do {
     l \<leftarrow> setBucket l bp pos;
     l \<leftarrow> upd l pos (\<lambda>e. e\<lparr>bucketPos := bp\<rparr>);
     l \<leftarrow> upd l pos (\<lambda>e. e\<lparr>nextBucket := startPos\<rparr>);
     s \<leftarrow> elem l startPos;
     l \<leftarrow> upd l pos (\<lambda>e. e\<lparr>prevBucket := prevBucket s\<rparr>);
     s \<leftarrow> elem l startPos;
     l \<leftarrow> upd l (prevBucket s) (\<lambda>e. e\<lparr>nextBucket := pos\<rparr>);
     upd l startPos (\<lambda>e. e\<lparr>prevBucket := pos\<rparr>) }"

definition addWithLifetime ::
    "int \<Rightarrow> ('k, 'v) LRU \<Rightarrow> u32 \<Rightarrow> 'k \<Rightarrow> 'v \<Rightarrow> duration \<Rightarrow> (('k, 'v) LRU \<times> bool) option" where
  "addWithLifetime now l h k v lifetime = do {
     (bp, startPos) \<leftarrow> hashToPos l h;
     if startPos = emptyBucket then do {
       (l, pos, evicted) \<leftarrow> evictIfFull l;
       l \<leftarrow> linkOnly l bp pos;
       l \<leftarrow> insert' now l pos k v lifetime;
       Some (l, evicted) }
     else do {
       found \<leftarrow> addLoop l k startPos startPos;
       case found of
         Some pos \<Rightarrow> do {
           l \<leftarrow> upd l pos (\<lambda>e. e\<lparr>value' := v, expire := expireAt now lifetime\<rparr>);
           l \<leftarrow> touch l pos;
           Some (l, False) }
       | None \<Rightarrow> do {
           (l, pos, evicted) \<leftarrow> evictIfFull l;
           startPos \<leftarrow> (if evicted then do {
                           s \<leftarrow> bucket l bp;
                           Some (if s = emptyBucket then pos else s) }
                         else Some startPos);
           l \<leftarrow> linkBefore l bp startPos pos;
           l \<leftarrow> insert' now l pos k v lifetime;
           Some (l, evicted) } } }"

definition get :: "int \<Rightarrow> ('k, 'v) LRU \<Rightarrow> u32 \<Rightarrow> 'k \<Rightarrow> (('k, 'v) LRU \<times> 'v option) option" where
  "get now l h k = do {
     (l, r) \<leftarrow> findKey now l h k;
     case r of
       Some pos \<Rightarrow> do {
         l \<leftarrow> touch l pos;
         e \<leftarrow> elem l pos;
         Some (l, Some (value' e)) }
     | None \<Rightarrow> Some (l, None) }"

definition AddWithLifetime ::
    "('k \<Rightarrow> u32) \<Rightarrow> int \<Rightarrow> ('k, 'v) LRU \<Rightarrow> 'k \<Rightarrow> 'v \<Rightarrow> duration \<Rightarrow> (('k, 'v) LRU \<times> bool) option" where
  "AddWithLifetime hash now l k v lifetime = addWithLifetime now l (hash k) k v lifetime"

definition Get :: "('k \<Rightarrow> u32) \<Rightarrow> int \<Rightarrow> ('k, 'v) LRU \<Rightarrow> 'k \<Rightarrow> (('k, 'v) LRU \<times> 'v option) option" where
  "Get hash now l k = get now l (hash k) k"

end
