(* ===== verification/FreeLRU_Rings.thy ===== *)
theory FreeLRU_Rings
  imports FreeLRU
begin

text \<open>
  The pointer structure of the LRU cache, operation by operation: the fields of the element
  slice as functions on positions, the hash buckets as a family of disjoint rings, and what
  \<^const>\<open>unlinkElement\<close>, \<^const>\<open>unlinkBucket\<close>, \<^const>\<open>setHead\<close>, \<^const>\<open>evict\<close>, \<^const>\<open>move\<close> and
  \<^const>\<open>insert'\<close> do to them. Each lemma also shows that the operation does not panic.
\<close>

section \<open>The element slice as functions\<close>

definition nxs :: "('k, 'v) element list \<Rightarrow> nat \<Rightarrow> nat" where "nxs es i = next' (es ! i)"
definition pvs :: "('k, 'v) element list \<Rightarrow> nat \<Rightarrow> nat" where "pvs es i = prev (es ! i)"
definition nbs :: "('k, 'v) element list \<Rightarrow> nat \<Rightarrow> nat" where "nbs es i = nextBucket (es ! i)"
definition pbs :: "('k, 'v) element list \<Rightarrow> nat \<Rightarrow> nat" where "pbs es i = prevBucket (es ! i)"
definition bps :: "('k, 'v) element list \<Rightarrow> nat \<Rightarrow> nat" where "bps es i = bucketPos (es ! i)"
definition ents :: "('k, 'v) element list \<Rightarrow> nat \<Rightarrow> 'k \<times> 'v \<times> int" where
  "ents es i = (key (es ! i), value' (es ! i), expire (es ! i))"

lemmas view_defs = nxs_def pvs_def nbs_def pbs_def bps_def ents_def

lemma view_update [simp]:
  assumes "i < length es"
  shows "nxs (es[i := e]) = (nxs es)(i := next' e)"
    and "pvs (es[i := e]) = (pvs es)(i := prev e)"
    and "nbs (es[i := e]) = (nbs es)(i := nextBucket e)"
    and "pbs (es[i := e]) = (pbs es)(i := prevBucket e)"
    and "bps (es[i := e]) = (bps es)(i := bucketPos e)"
    and "ents (es[i := e]) = (ents es)(i := (key e, value' e, expire e))"
  using assms by (auto simp: view_defs nth_list_update fun_eq_iff)

text \<open>Fields read from the slice are the views; together with \<open>view_update\<close> a field that an
  update does not write drops out by \<open>fun_upd_triv\<close>.\<close>

lemma field_view [simp]:
  "next' (es ! i) = nxs es i" "prev (es ! i) = pvs es i"
  "nextBucket (es ! i) = nbs es i" "prevBucket (es ! i) = pbs es i"
  "bucketPos (es ! i) = bps es i"
  "key (es ! i) = fst (ents es i)" "value' (es ! i) = fst (snd (ents es i))"
  "expire (es ! i) = snd (snd (ents es i))"
  by (simp_all add: view_defs)

lemma nth_update_field [simp]:
  "i < length es \<Longrightarrow> next' (es[i := e] ! j) = (if i = j then next' e else nxs es j)"
  "i < length es \<Longrightarrow> prev (es[i := e] ! j) = (if i = j then prev e else pvs es j)"
  "i < length es \<Longrightarrow> nextBucket (es[i := e] ! j) = (if i = j then nextBucket e else nbs es j)"
  "i < length es \<Longrightarrow> prevBucket (es[i := e] ! j) = (if i = j then prevBucket e else pbs es j)"
  "i < length es \<Longrightarrow> bucketPos (es[i := e] ! j) = (if i = j then bucketPos e else bps es j)"
  by (auto simp: nth_list_update)

lemma fun_upd_redundant: "i \<noteq> j \<Longrightarrow> f(i := x, j := f j) = f(i := x)"
  by (auto simp: fun_eq_iff)

lemma ents_triple [simp]: "(fst (ents es i), fst (snd (ents es i)), snd (snd (ents es i))) = ents es i"
  by simp

lemma hashToBucketPos_frame [simp]:
  "hashToBucketPos (l\<lparr>elements := es\<rparr>) = hashToBucketPos l"
  "hashToBucketPos (l\<lparr>buckets := bk\<rparr>) = hashToBucketPos l"
  "hashToBucketPos (l\<lparr>head := h\<rparr>) = hashToBucketPos l"
  "hashToBucketPos (l\<lparr>len := n\<rparr>) = hashToBucketPos l"
  by (simp_all add: hashToBucketPos_def fun_eq_iff)

lemmas op_defs = elem_def upd_def bucket_def setBucket_def

section \<open>Buckets as disjoint rings\<close>

definition bucket_ok :: "(nat \<Rightarrow> nat) \<Rightarrow> (nat \<Rightarrow> nat) \<Rightarrow> nat \<Rightarrow> nat set \<Rightarrow> bool" where
  "bucket_ok nb pb start S \<longleftrightarrow>
     (\<exists>bs. ring nb pb bs \<and> set bs = S \<and> start = (if bs = [] then emptyBucket else hd bs))"

definition buckets_ok ::
    "nat list \<Rightarrow> (nat \<Rightarrow> nat) \<Rightarrow> (nat \<Rightarrow> nat) \<Rightarrow> (nat \<Rightarrow> nat) \<Rightarrow> nat set \<Rightarrow> bool" where
  "buckets_ok bk nb pb bp A \<longleftrightarrow>
     (\<forall>b < length bk. bucket_ok nb pb (bk ! b) {i \<in> A. bp i = b})"

lemma bucket_okI: "ring nb pb bs \<Longrightarrow> set bs = S \<Longrightarrow>
    start = (if bs = [] then emptyBucket else hd bs) \<Longrightarrow> bucket_ok nb pb start S"
  by (auto simp: bucket_ok_def)

lemma bucket_okE:
  assumes "bucket_ok nb pb start S"
  obtains bs where "ring nb pb bs" "set bs = S" "start = (if bs = [] then emptyBucket else hd bs)"
  using assms by (auto simp: bucket_ok_def)

lemma buckets_okD: "buckets_ok bk nb pb bp A \<Longrightarrow> b < length bk \<Longrightarrow>
    bucket_ok nb pb (bk ! b) {i \<in> A. bp i = b}"
  by (simp add: buckets_ok_def)

text \<open>A bucket none of whose nodes is written stays as it is.\<close>

lemma bucket_ok_frame:
  assumes "bucket_ok nb pb start S" and "\<And>i. i \<in> S \<Longrightarrow> nb' i = nb i \<and> pb' i = pb i"
  shows "bucket_ok nb' pb' start S"
proof -
  from assms(1) obtain bs where bs: "ring nb pb bs" "set bs = S"
    and st: "start = (if bs = [] then emptyBucket else hd bs)" by (rule bucket_okE)
  from bs assms(2) have "ring nb' pb' bs" by (subst ring_cong [of bs nb' nb pb' pb]) auto
  with bs st show ?thesis by (blast intro: bucket_okI)
qed

lemma bucket_closed:
  assumes "buckets_ok bk nb pb bp A" and "i \<in> A" and "bp i < length bk"
  shows "nb i \<in> A \<and> bp (nb i) = bp i \<and> pb i \<in> A \<and> bp (pb i) = bp i"
proof -
  from buckets_okD [OF assms(1,3)] obtain bs
    where "ring nb pb bs" "set bs = {j \<in> A. bp j = bp i}" by (rule bucket_okE)
  with ring_closed [of nb pb bs i] assms(2) show ?thesis by auto
qed

text \<open>Unlinking a node from its bucket, as \<^const>\<open>unlinkBucket\<close> does.\<close>

lemma buckets_unlink_single:
  assumes ok: "buckets_ok bk nb pb bp A" and pos: "pos \<in> A" "bp pos < length bk"
    and self: "nb pos = pos" "pb pos = pos"
  shows "buckets_ok (bk[bp pos := emptyBucket]) nb pb bp (A - {pos})"
  unfolding buckets_ok_def
proof (intro allI impI)
  fix b assume b: "b < length (bk[bp pos := emptyBucket])"
  show "bucket_ok nb pb (bk[bp pos := emptyBucket] ! b) {i \<in> A - {pos}. bp i = b}"
  proof (cases "b = bp pos")
    case True
    from buckets_okD [OF ok pos(2)] obtain bs where bs: "ring nb pb bs" "set bs = {i \<in> A. bp i = bp pos}"
      by (rule bucket_okE)
    have "pos \<in> set bs" using bs(2) pos(1) by simp
    with bs(1) obtain us vs where e: "bs = us @ pos # vs" and r: "ring nb pb (pos # vs @ us)"
      by (rule ring_rotate_to)
    have "vs @ us = []"
      using ring_hd [OF r] self(1) r hd_in_set [of "vs @ us"] by (auto simp: ring_def)
    with e bs(2) have "{i \<in> A. bp i = bp pos} = {pos}" by simp
    then have "{i \<in> A - {pos}. bp i = b} = {}" using True by blast
    with True b show ?thesis by (auto intro: bucket_okI [of _ _ "[]"])
  next
    case False
    then have "{i \<in> A - {pos}. bp i = b} = {i \<in> A. bp i = b}" by auto
    with False b buckets_okD [OF ok, of b] show ?thesis by simp
  qed
qed

lemma buckets_unlink:
  assumes ok: "buckets_ok bk nb pb bp A" and pos: "pos \<in> A" "bp pos < length bk"
    and nself: "\<not> (pb pos = nb pos \<and> pb pos = pos)"
  shows "buckets_ok (bk[bp pos := nb pos]) (nb(pb pos := nb pos)) (pb(nb pos := pb pos)) bp (A - {pos})"
  unfolding buckets_ok_def
proof (intro allI impI)
  let ?nb = "nb(pb pos := nb pos)" and ?pb = "pb(nb pos := pb pos)"
  fix b assume b: "b < length (bk[bp pos := nb pos])"
  show "bucket_ok ?nb ?pb (bk[bp pos := nb pos] ! b) {i \<in> A - {pos}. bp i = b}"
  proof (cases "b = bp pos")
    case True
    from buckets_okD [OF ok pos(2)] obtain bs where bs: "ring nb pb bs" "set bs = {i \<in> A. bp i = bp pos}"
      by (rule bucket_okE)
    have "pos \<in> set bs" using bs(2) pos(1) by simp
    with bs(1) obtain us vs where e: "bs = us @ pos # vs" and r: "ring nb pb (pos # vs @ us)"
      by (rule ring_rotate_to)
    have ne: "vs @ us \<noteq> []" using r nself by (auto simp: ring_def)
    from ring_unlink_hd [OF r] have "ring ?nb ?pb (vs @ us)" .
    moreover have "set (vs @ us) = {i \<in> A - {pos}. bp i = b}"
      using e bs(2) ring_distinct [OF r] True by auto
    ultimately show ?thesis
      using ring_hd [OF r ne] ne True b by (auto intro: bucket_okI)
  next
    case False
    have eq: "{i \<in> A - {pos}. bp i = b} = {i \<in> A. bp i = b}" using False by auto
    have "bucket_ok nb pb (bk ! b) {i \<in> A. bp i = b}" using buckets_okD [OF ok, of b] b by simp
    then have "bucket_ok ?nb ?pb (bk ! b) {i \<in> A. bp i = b}"
      by (rule bucket_ok_frame) (use bucket_closed [OF ok pos] False in auto)
    with False eq show ?thesis by simp
  qed
qed

text \<open>Linking a new node at the front of a bucket, as \<^const>\<open>addWithLifetime\<close> does.\<close>

lemma buckets_link:
  assumes ok: "buckets_ok bk nb pb bp A" and b: "b < length bk" and pos: "pos \<notin> A"
    and A: "\<And>i. i \<in> A \<Longrightarrow> i \<noteq> emptyBucket" and s: "bk ! b \<noteq> emptyBucket"
  defines "s \<equiv> bk ! b"
  shows "buckets_ok (bk[b := pos]) (nb(pos := s, pb s := pos)) (pb(pos := pb s, s := pos))
           (bp(pos := b)) (insert pos A)"
  unfolding buckets_ok_def
proof (intro allI impI)
  let ?nb = "nb(pos := s, pb s := pos)" and ?pb = "pb(pos := pb s, s := pos)"
  from buckets_okD [OF ok b] obtain bs where bs: "ring nb pb bs" "set bs = {i \<in> A. bp i = b}"
    and st: "bk ! b = (if bs = [] then emptyBucket else hd bs)" by (rule bucket_okE)
  with s have ne: "bs \<noteq> []" and hd: "s = hd bs" by (auto simp: s_def split: if_splits)
  from bs(1) ne have last: "pb s = last bs" unfolding hd by (simp add: ring_def)
  have sb: "s \<in> set bs" "pb s \<in> set bs" using ne hd last by auto
  fix c assume c: "c < length (bk[b := pos])"
  show "bucket_ok ?nb ?pb (bk[b := pos] ! c) {i \<in> insert pos A. (bp(pos := b)) i = c}"
  proof (cases "c = b")
    case True
    have "pos \<notin> set bs" using bs(2) pos by auto
    with ring_link [OF bs(1) ne this] have "ring ?nb ?pb (bs @ [pos])"
      using sb unfolding last [symmetric] hd [symmetric] by (metis fun_upd_twist)
    with ring_rotate have "ring ?nb ?pb ([pos] @ bs)" by blast
    moreover have "set ([pos] @ bs) = {i \<in> insert pos A. (bp(pos := b)) i = c}"
      using bs(2) pos True by auto
    ultimately show ?thesis using True c by (auto intro: bucket_okI)
  next
    case False
    have eq: "{i \<in> insert pos A. (bp(pos := b)) i = c} = {i \<in> A. bp i = c}"
      using False pos by auto
    have "bucket_ok nb pb (bk ! c) {i \<in> A. bp i = c}" using buckets_okD [OF ok, of c] c by simp
    then have "bucket_ok ?nb ?pb (bk ! c) {i \<in> A. bp i = c}"
      by (rule bucket_ok_frame) (use sb bs(2) False pos in auto)
    with False eq show ?thesis by simp
  qed
qed

lemma buckets_link_empty:
  assumes ok: "buckets_ok bk nb pb bp A" and b: "b < length bk" and pos: "pos \<notin> A"
    and A: "\<And>i. i \<in> A \<Longrightarrow> i \<noteq> emptyBucket" and s: "bk ! b = emptyBucket"
  shows "buckets_ok (bk[b := pos]) (nb(pos := pos)) (pb(pos := pos)) (bp(pos := b)) (insert pos A)"
  unfolding buckets_ok_def
proof (intro allI impI)
  fix c assume c: "c < length (bk[b := pos])"
  show "bucket_ok (nb(pos := pos)) (pb(pos := pos)) (bk[b := pos] ! c)
          {i \<in> insert pos A. (bp(pos := b)) i = c}"
  proof (cases "c = b")
    case True
    from buckets_okD [OF ok b] obtain bs where bs: "ring nb pb bs" "set bs = {i \<in> A. bp i = b}"
      and st: "bk ! b = (if bs = [] then emptyBucket else hd bs)" by (rule bucket_okE)
    have "bs = []"
    proof (rule ccontr)
      assume "bs \<noteq> []"
      then have "hd bs \<in> A" using bs(2) hd_in_set by blast
      with A st s \<open>bs \<noteq> []\<close> show False by auto
    qed
    with bs(2) pos True have "set [pos] = {i \<in> insert pos A. (bp(pos := b)) i = c}" by auto
    with True c show ?thesis by (auto intro: bucket_okI [of _ _ "[pos]"])
  next
    case False
    have eq: "{i \<in> insert pos A. (bp(pos := b)) i = c} = {i \<in> A. bp i = c}"
      using False pos by auto
    have "bucket_ok nb pb (bk ! c) {i \<in> A. bp i = c}" using buckets_okD [OF ok, of c] c by simp
    then have "bucket_ok (nb(pos := pos)) (pb(pos := pos)) (bk ! c) {i \<in> A. bp i = c}"
      by (rule bucket_ok_frame) (use pos in auto)
    with False eq show ?thesis by simp
  qed
qed

text \<open>Moving a node to a free position, as \<^const>\<open>move\<close> does.\<close>

lemma buckets_move:
  assumes ok: "buckets_ok bk nb pb bp A" and f: "f \<in> A" "bp f < length bk" and t: "t \<notin> A"
    and A: "\<And>i. i \<in> A \<Longrightarrow> i \<noteq> emptyBucket"
  shows "buckets_ok (if bk ! bp f = f then bk[bp f := t] else bk)
           (nb(pb f := t, t := (nb(pb f := t)) f)) (pb(nb f := t, t := (pb(nb f := t)) f))
           (bp(t := bp f)) (insert t (A - {f}))"
  unfolding buckets_ok_def
proof (intro allI impI)
  let ?nb = "nb(pb f := t, t := (nb(pb f := t)) f)" and ?pb = "pb(nb f := t, t := (pb(nb f := t)) f)"
  let ?bk = "if bk ! bp f = f then bk[bp f := t] else bk"
  fix c assume c: "c < length ?bk"
  show "bucket_ok ?nb ?pb (?bk ! c) {i \<in> insert t (A - {f}). (bp(t := bp f)) i = c}"
  proof (cases "c = bp f")
    case True
    from buckets_okD [OF ok f(2)] obtain bs where bs: "ring nb pb bs" "set bs = {i \<in> A. bp i = bp f}"
      and st: "bk ! bp f = (if bs = [] then emptyBucket else hd bs)" by (rule bucket_okE)
    have "f \<in> set bs" using bs(2) f(1) by simp
    with bs(1) obtain us vs where e: "bs = us @ f # vs" and r: "ring nb pb (f # vs @ us)"
      by (rule ring_rotate_to)
    have "t \<notin> set (f # vs @ us)" using bs(2) e t by auto
    from ring_move [OF r this] have "ring ?nb ?pb (t # vs @ us)" .
    with ring_rotate [of _ _ "t # vs" us] have "ring ?nb ?pb (us @ t # vs)" by simp
    moreover have "set (us @ t # vs) = {i \<in> insert t (A - {f}). (bp(t := bp f)) i = c}"
      using bs(2) e ring_distinct [OF r] t True by auto
    moreover have "?bk ! c = hd (us @ t # vs)"
      using st e f ring_distinct [OF r] True by (cases us) auto
    ultimately show ?thesis by (auto intro: bucket_okI)
  next
    case False
    have eq: "{i \<in> insert t (A - {f}). (bp(t := bp f)) i = c} = {i \<in> A. bp i = c}"
      using False t by auto
    have "bucket_ok nb pb (bk ! c) {i \<in> A. bp i = c}"
      using buckets_okD [OF ok, of c] c by (simp split: if_splits)
    then have "bucket_ok ?nb ?pb (bk ! c) {i \<in> A. bp i = c}"
      by (rule bucket_ok_frame) (use bucket_closed [OF ok f] False t in auto)
    with False eq show ?thesis by simp
  qed
qed

end
