(* ===== verification/FreeLRU_Ops.thy ===== *)
theory FreeLRU_Ops
  imports FreeLRU_Rings
begin

text \<open>
  The invariant \<open>lru_ok\<close> of the LRU cache, over the set \<open>A\<close> of live positions and their
  recency order \<open>ts\<close> (oldest first), and its preservation by the internal operations. An
  eviction leaves a hole in the live positions that the caller fills, which is why the
  invariant speaks of a set and not only of the initial segment below \<^const>\<open>len\<close>.
\<close>

section \<open>The invariant\<close>

definition same_meta :: "('k, 'v) LRU \<Rightarrow> ('k, 'v) LRU \<Rightarrow> bool" where
  "same_meta l l' \<longleftrightarrow> cap l' = cap l \<and> size' l' = size' l \<and> mask' l' = mask' l \<and>
     emptyKey l' = emptyKey l \<and> emptyValue l' = emptyValue l \<and>
     length (elements l') = length (elements l) \<and> length (buckets l') = length (buckets l)"

lemma same_meta_refl [simp]: "same_meta l l"
  by (simp add: same_meta_def)

lemma same_meta_trans [trans]: "same_meta l l' \<Longrightarrow> same_meta l' l'' \<Longrightarrow> same_meta l l''"
  by (simp add: same_meta_def)

lemma same_meta_hash: "same_meta l l' \<Longrightarrow> hashToBucketPos l' h = hashToBucketPos l h"
  by (simp add: same_meta_def hashToBucketPos_def)

definition shape :: "('k, 'v) LRU \<Rightarrow> bool" where
  "shape l \<longleftrightarrow> length (buckets l) = size' l \<and> length (elements l) = size' l \<and>
     0 < cap l \<and> cap l \<le> size' l \<and> size' l < emptyBucket \<and>
     (\<forall>h. hashToBucketPos l h < size' l)"

lemma shape_same_meta: "shape l \<Longrightarrow> same_meta l l' \<Longrightarrow> shape l'"
  by (auto simp: shape_def same_meta_hash) (auto simp: same_meta_def)

definition lru_ok :: "('k \<Rightarrow> u32) \<Rightarrow> ('k, 'v) LRU \<Rightarrow> nat set \<Rightarrow> nat list \<Rightarrow> bool" where
  "lru_ok hash l A ts \<longleftrightarrow> shape l \<and> A \<subseteq> {..<size' l} \<and> len l = card A \<and>
     ring (nxs (elements l)) (pvs (elements l)) ts \<and> set ts = A \<and> (ts \<noteq> [] \<longrightarrow> head l = last ts) \<and>
     buckets_ok (buckets l) (nbs (elements l)) (pbs (elements l)) (bps (elements l)) A \<and>
     (\<forall>i \<in> A. bps (elements l) i = hashToBucketPos l (hash (fst (ents (elements l) i)))) \<and>
     inj_on (\<lambda>i. fst (ents (elements l) i)) A"

lemma lru_okD:
  assumes "lru_ok hash l A ts"
  shows "shape l" "A \<subseteq> {..<size' l}" "len l = card A"
    "ring (nxs (elements l)) (pvs (elements l)) ts" "set ts = A"
    "ts \<noteq> [] \<Longrightarrow> head l = last ts"
    "buckets_ok (buckets l) (nbs (elements l)) (pbs (elements l)) (bps (elements l)) A"
    "\<And>i. i \<in> A \<Longrightarrow> bps (elements l) i = hashToBucketPos l (hash (fst (ents (elements l) i)))"
    "inj_on (\<lambda>i. fst (ents (elements l) i)) A"
    "length (elements l) = size' l" "length (buckets l) = size' l" "distinct ts"
    "\<And>i. i \<in> A \<Longrightarrow> i < length (elements l)"
    "\<And>h. hashToBucketPos l h < length (buckets l)"
    "\<And>i. i \<in> A \<Longrightarrow> i \<noteq> emptyBucket"
    "finite A" "card A = length ts"
  using assms ring_distinct distinct_card
  by (auto simp: lru_ok_def shape_def finite_subset)

lemma lru_ok_bps: "lru_ok hash l A ts \<Longrightarrow> i \<in> A \<Longrightarrow> bps (elements l) i < length (buckets l)"
  by (simp add: lru_okD(8,14))

section \<open>The recency ring\<close>

lemma unlinkElement_run:
  assumes "pos < length (elements l)" "pvs (elements l) pos < length (elements l)"
    "nxs (elements l) pos < length (elements l)"
  shows "\<exists>l'. unlinkElement l pos = Some l' \<and> same_meta l l' \<and> head l' = head l \<and> len l' = len l \<and>
     buckets l' = buckets l \<and> nbs (elements l') = nbs (elements l) \<and>
     pbs (elements l') = pbs (elements l) \<and> bps (elements l') = bps (elements l) \<and>
     ents (elements l') = ents (elements l) \<and>
     nxs (elements l') = (nxs (elements l))(pvs (elements l) pos := nxs (elements l) pos) \<and>
     pvs (elements l') = (pvs (elements l))(nxs (elements l) pos := pvs (elements l) pos)"
  using assms by (simp add: unlinkElement_def op_defs same_meta_def nth_list_update)
    (auto simp: fun_eq_iff)

lemma setHead_run:
  assumes "pos \<noteq> head l" "pos < length (elements l)" "head l < length (elements l)"
    "nxs (elements l) (head l) < length (elements l)" "nxs (elements l) (head l) \<noteq> pos"
  shows "\<exists>l'. setHead l pos = Some l' \<and> same_meta l l' \<and> head l' = pos \<and> len l' = len l \<and>
     buckets l' = buckets l \<and> nbs (elements l') = nbs (elements l) \<and>
     pbs (elements l') = pbs (elements l) \<and> bps (elements l') = bps (elements l) \<and>
     ents (elements l') = ents (elements l) \<and>
     nxs (elements l') = (nxs (elements l))(pos := nxs (elements l) (head l), head l := pos) \<and>
     pvs (elements l') = (pvs (elements l))(pos := head l, nxs (elements l) (head l) := pos)"
  using assms by (simp add: setHead_def op_defs same_meta_def nth_list_update)
    (auto simp: fun_eq_iff)

text \<open>Appending a node to a non-empty recency ring.\<close>

lemma setHead_ring:
  assumes "ring (nxs (elements l)) (pvs (elements l)) ts" "ts \<noteq> []" "head l = last ts"
    "pos \<notin> set ts" "pos < length (elements l)" "set ts \<subseteq> {..<length (elements l)}"
  shows "\<exists>l'. setHead l pos = Some l' \<and> same_meta l l' \<and> head l' = pos \<and> len l' = len l \<and>
     buckets l' = buckets l \<and> nbs (elements l') = nbs (elements l) \<and>
     pbs (elements l') = pbs (elements l) \<and> bps (elements l') = bps (elements l) \<and>
     ents (elements l') = ents (elements l) \<and>
     ring (nxs (elements l')) (pvs (elements l')) (ts @ [pos])"
proof -
  have nh: "nxs (elements l) (head l) = hd ts" using assms(1,2,3) by (simp add: ring_def)
  have in_ts: "last ts \<in> set ts" "hd ts \<in> set ts" using assms(2) by auto
  with assms(4) have neq: "pos \<noteq> last ts" "pos \<noteq> hd ts" by auto
  have "\<exists>l'. setHead l pos = Some l' \<and> same_meta l l' \<and> head l' = pos \<and> len l' = len l \<and>
     buckets l' = buckets l \<and> nbs (elements l') = nbs (elements l) \<and>
     pbs (elements l') = pbs (elements l) \<and> bps (elements l') = bps (elements l) \<and>
     ents (elements l') = ents (elements l) \<and>
     nxs (elements l') = (nxs (elements l))(pos := hd ts, last ts := pos) \<and>
     pvs (elements l') = (pvs (elements l))(pos := last ts, hd ts := pos)"
    using setHead_run [of pos l] assms(3,5,6) neq in_ts nh by (auto simp: subset_iff)
  moreover have "ring ((nxs (elements l))(pos := hd ts, last ts := pos))
                      ((pvs (elements l))(pos := last ts, hd ts := pos)) (ts @ [pos])"
    using ring_link [OF assms(1,2,4)] neq by (metis fun_upd_twist)
  ultimately show ?thesis by metis
qed

lemma unlinkElement_ring:
  assumes "ring (nxs (elements l)) (pvs (elements l)) (us @ pos # vs)"
    "set (us @ pos # vs) \<subseteq> {..<length (elements l)}"
  shows "\<exists>l'. unlinkElement l pos = Some l' \<and> same_meta l l' \<and> head l' = head l \<and> len l' = len l \<and>
     buckets l' = buckets l \<and> nbs (elements l') = nbs (elements l) \<and>
     pbs (elements l') = pbs (elements l) \<and> bps (elements l') = bps (elements l) \<and>
     ents (elements l') = ents (elements l) \<and>
     ring (nxs (elements l')) (pvs (elements l')) (us @ vs)"
proof -
  have "nxs (elements l) pos \<in> set (us @ pos # vs) \<and> pvs (elements l) pos \<in> set (us @ pos # vs)"
    using ring_closed [OF assms(1), of pos] by simp
  then have "nxs (elements l) pos < length (elements l)" "pvs (elements l) pos < length (elements l)"
    using assms(2) by blast+
  then show ?thesis
    using unlinkElement_run [of pos l] ring_unlink [OF assms(1)] assms(2) by auto
qed

lemma touch_ok:
  assumes ok: "lru_ok hash l A ts" and pos: "pos \<in> A"
  shows "\<exists>l' us vs. touch l pos = Some l' \<and> ts = us @ pos # vs \<and> same_meta l l' \<and>
     lru_ok hash l' A (us @ vs @ [pos]) \<and> ents (elements l') = ents (elements l)"
proof -
  note D = lru_okD [OF ok]
  from pos D(5) obtain us vs where ts: "ts = us @ pos # vs" by (auto dest: split_list)
  show ?thesis
  proof (cases "pos = head l")
    case True
    with D(6,12) ts have "vs = []" by (cases vs rule: rev_cases) auto
    with True ts ok show ?thesis by (intro exI [of _ l] exI [of _ us] exI [of _ "[]"]) (simp add: touch_def)
  next
    case False
    have r: "ring (nxs (elements l)) (pvs (elements l)) (us @ pos # vs)" using D(4) ts by simp
    have sub: "set (us @ pos # vs) \<subseteq> {..<length (elements l)}" using D(2,5,10) ts by auto
    from unlinkElement_ring [OF r sub] obtain m where m: "unlinkElement l pos = Some m"
      "same_meta l m" "head m = head l" "len m = len l" "buckets m = buckets l"
      "nbs (elements m) = nbs (elements l)" "pbs (elements m) = pbs (elements l)"
      "bps (elements m) = bps (elements l)" "ents (elements m) = ents (elements l)"
      "ring (nxs (elements m)) (pvs (elements m)) (us @ vs)" by blast
    from False D(6) ts have vs: "vs \<noteq> []" by (auto split: if_splits)
    then have hm: "head m = last (us @ vs)" using m(3) D(6) ts by simp
    have len: "length (elements m) = length (elements l)" using m(2) by (simp add: same_meta_def)
    have dist: "pos \<notin> set (us @ vs)" using D(12) ts by auto
    obtain l' where l': "setHead m pos = Some l'" "same_meta m l'" "head l' = pos" "len l' = len m"
      "buckets l' = buckets m" "nbs (elements l') = nbs (elements m)"
      "pbs (elements l') = pbs (elements m)" "bps (elements l') = bps (elements m)"
      "ents (elements l') = ents (elements m)"
      "ring (nxs (elements l')) (pvs (elements l')) ((us @ vs) @ [pos])"
      using setHead_ring [OF m(10) _ hm dist] vs sub len by auto
    have meta: "same_meta l l'" using m(2) l'(2) by (rule same_meta_trans)
    have "lru_ok hash l' A (us @ vs @ [pos])"
      using ok meta l' m ts shape_same_meta [OF D(1) meta] same_meta_hash [OF meta]
      by (auto simp: lru_ok_def same_meta_def)
    with meta m l' ts False show ?thesis by (auto simp: touch_def)
  qed
qed

section \<open>Eviction\<close>

lemma unlinkBucket_ok:
  assumes ok: "buckets_ok (buckets l) (nbs (elements l)) (pbs (elements l)) (bps (elements l)) A"
    and pos: "pos \<in> A" "bps (elements l) pos < length (buckets l)"
    and A: "A \<subseteq> {..<length (elements l)}" "length (elements l) < emptyBucket"
  shows "\<exists>l'. unlinkBucket l pos = Some l' \<and> same_meta l l' \<and> head l' = head l \<and> len l' = len l \<and>
     nxs (elements l') = nxs (elements l) \<and> pvs (elements l') = pvs (elements l) \<and>
     bps (elements l') = bps (elements l) \<and> ents (elements l') = ents (elements l) \<and>
     buckets_ok (buckets l') (nbs (elements l')) (pbs (elements l')) (bps (elements l')) (A - {pos}) \<and>
     (buckets l' ! bps (elements l) pos = emptyBucket \<longrightarrow>
        nbs (elements l') pos = pos \<and> pbs (elements l') pos = pos)"
proof -
  let ?nb = "nbs (elements l) pos" and ?pb = "pbs (elements l) pos"
  have cl: "?nb \<in> A" "?pb \<in> A" using bucket_closed [OF ok pos] by auto
  then have lt: "?nb < length (elements l)" "?pb < length (elements l)" "pos < length (elements l)"
    using A pos by auto
  show ?thesis
  proof (cases "?pb = ?nb \<and> ?pb = pos")
    case True
    with buckets_unlink_single [OF ok pos] lt pos show ?thesis
      by (simp add: unlinkBucket_def op_defs same_meta_def)
  next
    case False
    with buckets_unlink [OF ok pos False] lt pos A(2) show ?thesis
      by (cases "?nb = ?pb")
        (auto simp: unlinkBucket_def op_defs same_meta_def fun_upd_redundant)
  qed
qed

lemma card_less_32: "lru_ok hash l A ts \<Longrightarrow> card A < 4294967295"
  using card_mono [of "{..<size' l}" A] by (auto simp: lru_ok_def shape_def emptyBucket_def)

lemma evict_ok:
  assumes ok: "lru_ok hash l A ts" and ts: "ts = us @ pos # vs"
  shows "\<exists>l'. evict l pos = Some l' \<and> same_meta l l' \<and> lru_ok hash l' (A - {pos}) (us @ vs) \<and>
     ents (elements l') = ents (elements l) \<and> bps (elements l') = bps (elements l) \<and>
     (buckets l' ! bps (elements l) pos = emptyBucket \<longrightarrow>
        nbs (elements l') pos = pos \<and> pbs (elements l') pos = pos)"
proof -
  note D = lru_okD [OF ok]
  have posA: "pos \<in> A" using D(5) ts by auto
  have lt: "pos < length (elements l)" using D(13) posA .
  define l0 where "l0 = (if pos = head l then l\<lparr>head := pvs (elements l) pos\<rparr> else l)"
  have l0: "(if pos = head l then do { e \<leftarrow> elem l pos; Some (l\<lparr>head := prev e\<rparr>) } else Some l) = Some l0"
    using lt by (simp add: l0_def elem_def)
  have l0s: "same_meta l l0" "elements l0 = elements l" "buckets l0 = buckets l" "len l0 = len l"
    by (auto simp: l0_def same_meta_def)
  have r: "ring (nxs (elements l0)) (pvs (elements l0)) (us @ pos # vs)" using D(4) ts l0s by simp
  have sub: "set (us @ pos # vs) \<subseteq> {..<length (elements l0)}" using D(2,5,10) ts l0s by auto
  from unlinkElement_ring [OF r sub] obtain m where m: "unlinkElement l0 pos = Some m"
    "same_meta l0 m" "head m = head l0" "len m = len l0" "buckets m = buckets l0"
    "nbs (elements m) = nbs (elements l0)" "pbs (elements m) = pbs (elements l0)"
    "bps (elements m) = bps (elements l0)" "ents (elements m) = ents (elements l0)"
    "ring (nxs (elements m)) (pvs (elements m)) (us @ vs)" by blast
  have lenm: "length (elements m) = length (elements l)" using m(2) l0s by (simp add: same_meta_def)
  have "buckets_ok (buckets m) (nbs (elements m)) (pbs (elements m)) (bps (elements m)) A"
    using D(7) m l0s by simp
  moreover have "bps (elements m) pos < length (buckets m)"
    using lru_ok_bps [OF ok posA] m(5,8) l0s by simp
  moreover have "A \<subseteq> {..<length (elements m)}" "length (elements m) < emptyBucket"
    using D(1,2,10) lenm by (auto simp: shape_def)
  ultimately obtain q where q: "unlinkBucket m pos = Some q" "same_meta m q" "head q = head m"
    "len q = len m" "nxs (elements q) = nxs (elements m)" "pvs (elements q) = pvs (elements m)"
    "bps (elements q) = bps (elements m)" "ents (elements q) = ents (elements m)"
    "buckets_ok (buckets q) (nbs (elements q)) (pbs (elements q)) (bps (elements q)) (A - {pos})"
    "buckets q ! bps (elements m) pos = emptyBucket \<longrightarrow>
        nbs (elements q) pos = pos \<and> pbs (elements q) pos = pos"
    using unlinkBucket_ok [of m A pos] posA by blast
  define l' where "l' = q\<lparr>len := (len q + 4294967295) mod 4294967296\<rparr>"
  have ev: "evict l pos = Some l'"
    unfolding evict_def l0 by (simp add: m(1) q(1) l'_def)
  have meta: "same_meta l l'"
    using l0s(1) m(2) q(2) by (simp add: same_meta_def l'_def)
  have "card A > 0" using posA D(16) by (auto simp: card_gt_0_iff)
  then have len': "len l' = card (A - {pos})"
    using card_less_32 [OF ok] q(4) m(4) l0s(4) D(3,16) posA by (auto simp: l'_def mod_if)
  have hd': "us @ vs \<noteq> [] \<Longrightarrow> head l' = last (us @ vs)"
  proof (cases "pos = head l")
    case True
    assume ne: "us @ vs \<noteq> []"
    from True D(6,12) ts have "vs = []" by (cases vs rule: rev_cases) auto
    moreover have "ring (nxs (elements l)) (pvs (elements l)) (pos # vs @ us)"
      using ring_rotate [of _ _ us "pos # vs"] D(4) ts by simp
    then have "pvs (elements l) pos = last (vs @ us)" using ring_hd ne by fastforce
    ultimately show "head l' = last (us @ vs)"
      using q(3) m(3) True by (simp add: l'_def l0_def)
  next
    case False
    assume ne: "us @ vs \<noteq> []"
    from False D(6) ts have "vs \<noteq> []" by (auto split: if_splits)
    then show "head l' = last (us @ vs)" using q(3) m(3) False D(6) ts by (simp add: l'_def l0_def)
  qed
  have "set (us @ vs) = A - {pos}" using D(5,12) ts by auto
  moreover have "inj_on (\<lambda>i. fst (ents (elements l') i)) (A - {pos})"
    using D(9) q(8) m(9) l0s by (auto simp: l'_def intro: inj_on_diff)
  ultimately have "lru_ok hash l' (A - {pos}) (us @ vs)"
    using shape_same_meta [OF D(1) meta] same_meta_hash [OF meta] D(2,8) len' hd' q m l0s meta
    by (auto simp: lru_ok_def l'_def same_meta_def)
  with ev meta q m l0s show ?thesis by (simp add: l'_def)
qed

section \<open>Moving and removing\<close>

lemma move_run:
  assumes "f \<noteq> t" "f < length (elements l)" "t < length (elements l)"
    "pvs (elements l) f < length (elements l)" "nxs (elements l) f < length (elements l)"
    "pbs (elements l) f < length (elements l)" "nbs (elements l) f < length (elements l)"
    "pvs (elements l) f \<noteq> t" "nxs (elements l) f \<noteq> t" "pbs (elements l) f \<noteq> t" "nbs (elements l) f \<noteq> t"
    "bps (elements l) f < length (buckets l)"
  shows "\<exists>l'. move l t f = Some l' \<and> same_meta l l' \<and>
     head l' = (if f = head l then t else head l) \<and> len l' = len l \<and>
     nxs (elements l') = (nxs (elements l))(pvs (elements l) f := t,
        t := ((nxs (elements l))(pvs (elements l) f := t)) f) \<and>
     pvs (elements l') = (pvs (elements l))(nxs (elements l) f := t,
        t := ((pvs (elements l))(nxs (elements l) f := t)) f) \<and>
     nbs (elements l') = (nbs (elements l))(pbs (elements l) f := t,
        t := ((nbs (elements l))(pbs (elements l) f := t)) f) \<and>
     pbs (elements l') = (pbs (elements l))(nbs (elements l) f := t,
        t := ((pbs (elements l))(nbs (elements l) f := t)) f) \<and>
     bps (elements l') = (bps (elements l))(t := bps (elements l) f) \<and>
     ents (elements l') = (ents (elements l))(t := ents (elements l) f) \<and>
     buckets l' = (if buckets l ! bps (elements l) f = f
                   then (buckets l)[bps (elements l) f := t] else buckets l)"
  using assms unfolding move_def op_defs
  by (simp add: same_meta_def Let_def del: fun_upd_apply) auto

lemma move_ok:
  assumes ok: "lru_ok hash l A ts" and f: "f \<in> A" and t: "t \<notin> A" "t < size' l"
  shows "\<exists>l'. move l t f = Some l' \<and> same_meta l l' \<and>
     lru_ok hash l' (insert t (A - {f})) (map (\<lambda>i. if i = f then t else i) ts) \<and>
     ents (elements l') = (ents (elements l))(t := ents (elements l) f)"
proof -
  note D = lru_okD [OF ok]
  let ?es = "elements l"
  have c: "nxs ?es f \<in> A" "pvs ?es f \<in> A" using ring_closed [OF D(4)] f D(5) by auto
  have bc: "nbs ?es f \<in> A" "pbs ?es f \<in> A"
    using bucket_closed [OF D(7) f] lru_ok_bps [OF ok f] by auto
  note inA = c bc
  obtain l' where l': "move l t f = Some l'" "same_meta l l'"
    "head l' = (if f = head l then t else head l)" "len l' = len l"
    "nxs (elements l') = (nxs ?es)(pvs ?es f := t, t := ((nxs ?es)(pvs ?es f := t)) f)"
    "pvs (elements l') = (pvs ?es)(nxs ?es f := t, t := ((pvs ?es)(nxs ?es f := t)) f)"
    "nbs (elements l') = (nbs ?es)(pbs ?es f := t, t := ((nbs ?es)(pbs ?es f := t)) f)"
    "pbs (elements l') = (pbs ?es)(nbs ?es f := t, t := ((pbs ?es)(nbs ?es f := t)) f)"
    "bps (elements l') = (bps ?es)(t := bps ?es f)"
    "ents (elements l') = (ents ?es)(t := ents ?es f)"
    "buckets l' = (if buckets l ! bps ?es f = f then (buckets l)[bps ?es f := t] else buckets l)"
    using move_run [of f t l] inA f t D(10,13) lru_ok_bps [OF ok f] by (metis (no_types, lifting))
  from f D(5) obtain us vs where ts: "ts = us @ f # vs" by (auto dest: split_list)
  have ren: "map (\<lambda>i. if i = f then t else i) ts = us @ t # vs"
    using D(12) ts by (auto intro: map_idI)
  have r: "ring (nxs ?es) (pvs ?es) (f # vs @ us)" using ring_rotate [of _ _ us "f # vs"] D(4) ts by simp
  have "t \<notin> set (f # vs @ us)" using t(1) D(5) ts by auto
  from ring_move [OF r this] have "ring (nxs (elements l')) (pvs (elements l')) (t # vs @ us)"
    using l' by simp
  then have ring': "ring (nxs (elements l')) (pvs (elements l')) (us @ t # vs)"
    using ring_rotate [of _ _ "t # vs" us] by simp
  have bk: "buckets_ok (buckets l') (nbs (elements l')) (pbs (elements l')) (bps (elements l'))
      (insert t (A - {f}))"
    using buckets_move [OF D(7) f lru_ok_bps [OF ok f] t(1) D(15)] l' by simp
  have hd': "head l' = last (us @ t # vs)"
    using l'(3) D(6,12) ts by (auto split: if_splits)
  have "set (us @ t # vs) = insert t (A - {f})" using D(5,12) ts by auto
  moreover have "card (insert t (A - {f})) = card A"
    using f t D(16) by (metis Diff_iff card_Suc_Diff1 card_insert_disjoint finite_Diff)
  moreover have "inj_on (\<lambda>i. fst (ents (elements l') i)) (insert t (A - {f}))"
    using D(9) f t l'(10) by (auto simp: inj_on_def)
  moreover have "bps (elements l') i = hashToBucketPos l (hash (fst (ents (elements l') i)))"
    if "i \<in> insert t (A - {f})" for i
    using that D(8) [of f] D(8) [of i] f l'(9,10) by auto
  ultimately have "lru_ok hash l' (insert t (A - {f})) (us @ t # vs)"
    using shape_same_meta [OF D(1) l'(2)] same_meta_hash [OF l'(2)] D(2,3) t(2) l'(2,4) ring' bk hd'
    by (auto simp: lru_ok_def same_meta_def)
  with l' ren show ?thesis by auto
qed

text \<open>Writing the key and value of a position that is not live.\<close>

lemma clear_ok:
  assumes ok: "lru_ok hash l A ts" and i: "i \<notin> A" "i < size' l"
  shows "\<exists>l'. clearKeyAndValue l i = Some l' \<and> same_meta l l' \<and> lru_ok hash l' A ts \<and> len l' = len l \<and>
     (\<forall>j. j \<noteq> i \<longrightarrow> ents (elements l') j = ents (elements l) j)"
proof -
  note D = lru_okD [OF ok]
  define l' where "l' = l\<lparr>elements := (elements l)[i := (elements l ! i)\<lparr>key := emptyKey l, value' := emptyValue l\<rparr>]\<rparr>"
  have lt: "i < length (elements l)" using i(2) D(10) by simp
  have run: "clearKeyAndValue l i = Some l'" using lt by (simp add: clearKeyAndValue_def upd_def l'_def)
  have meta: "same_meta l l'" by (simp add: same_meta_def l'_def)
  have inj: "inj_on (\<lambda>j. fst (ents (elements l') j)) A"
    using D(9) i lt by (auto simp: inj_on_def l'_def)
  have "bps (elements l') j = hashToBucketPos l (hash (fst (ents (elements l') j)))" if "j \<in> A" for j
    using that D(8) i lt by (auto simp: l'_def)
  then have "lru_ok hash l' A ts"
    using shape_same_meta [OF D(1) meta] same_meta_hash [OF meta] D(2-7) lt inj
    by (auto simp: lru_ok_def l'_def)
  with run meta lt show ?thesis by (auto simp: l'_def)
qed

lemma removeAt_ok:
  assumes ok: "lru_ok hash l {..<len l} ts" and ts: "ts = us @ pos # vs"
  shows "\<exists>l' ts'. removeAt l pos = Some l' \<and> same_meta l l' \<and> lru_ok hash l' {..<len l'} ts' \<and>
     len l' = len l - 1 \<and> map (ents (elements l')) ts' = map (ents (elements l)) (us @ vs)"
proof -
  note D = lru_okD [OF ok]
  let ?n = "len l - 1"
  have pos: "pos < len l" using D(5) ts by auto
  obtain m where m: "evict l pos = Some m" "same_meta l m" "lru_ok hash m ({..<len l} - {pos}) (us @ vs)"
    "ents (elements m) = ents (elements l)" using evict_ok [OF ok ts] by blast
  have lm: "len m = ?n" using lru_okD(3) [OF m(3)] pos by simp
  have sz: "size' m = size' l" using m(2) by (simp add: same_meta_def)
  have nsz: "?n < size' l" using D(2) pos by auto
  have "\<exists>q ts'. move m pos (len m) = Some q \<and> same_meta m q \<and> lru_ok hash q {..<?n} ts' \<and>
      map (ents (elements q)) ts' = map (ents (elements m)) (us @ vs)"
  proof (cases "pos = ?n")
    case True
    moreover have "{..<len l} - {pos} = {..<?n}" using True pos by auto
    ultimately show ?thesis using m(3) lm by (intro exI [of _ m] exI [of _ "us @ vs"]) (simp add: move_def)
  next
    case False
    have A: "insert pos ({..<len l} - {pos} - {?n}) = {..<?n}" using False pos by auto
    have f: "?n \<in> {..<len l} - {pos}" and t: "pos \<notin> {..<len l} - {pos}" "pos < size' m"
      using False pos D(2) sz by auto
    from move_ok [OF m(3) f t] obtain q where q: "move m pos ?n = Some q" "same_meta m q"
      "lru_ok hash q (insert pos ({..<len l} - {pos} - {?n}))
         (map (\<lambda>i. if i = ?n then pos else i) (us @ vs))"
      "ents (elements q) = (ents (elements m))(pos := ents (elements m) ?n)" by blast
    have notin: "pos \<notin> set (us @ vs)" using D(12) ts by auto
    have "map (ents (elements q)) (map (\<lambda>i. if i = ?n then pos else i) (us @ vs)) =
        map (ents (elements m)) (us @ vs)"
      unfolding map_map by (rule map_cong) (use q(4) notin in auto)
    with q A lm show ?thesis by metis
  qed
  then obtain q ts' where q: "move m pos (len m) = Some q" "same_meta m q" "lru_ok hash q {..<?n} ts'"
    "map (ents (elements q)) ts' = map (ents (elements m)) (us @ vs)" by blast
  have lq: "len q = ?n" using lru_okD(3) [OF q(3)] by simp
  have "?n \<notin> {..<?n}" "?n < size' q" using nsz sz q(2) by (auto simp: same_meta_def)
  from clear_ok [OF q(3) this] obtain l' where l': "clearKeyAndValue q ?n = Some l'" "same_meta q l'"
    "lru_ok hash l' {..<?n} ts'" "len l' = len q"
    "\<forall>j. j \<noteq> ?n \<longrightarrow> ents (elements l') j = ents (elements q) j" by blast
  have "map (ents (elements l')) ts' = map (ents (elements q)) ts'"
    using l'(5) lru_okD(5) [OF q(3)] by (intro map_cong) auto
  moreover have "same_meta l l'" using m(2) q(2) l'(2) by (meson same_meta_trans)
  moreover have "removeAt l pos = Some l'" using l'(1) by (simp add: removeAt_def m(1) q(1) lq)
  ultimately show ?thesis using l' lq q(4) m(4) by auto
qed

section \<open>Inserting\<close>

lemma insert_ok:
  assumes ok: "lru_ok hash l A ts" and pos: "pos \<notin> A" "pos < size' l"
    and m: "same_meta l m" "head m = head l" "len m = len l"
      "nxs (elements m) = nxs (elements l)" "pvs (elements m) = pvs (elements l)"
      "ents (elements m) = ents (elements l)"
      "bps (elements m) = (bps (elements l))(pos := hashToBucketPos l (hash k))"
      "buckets_ok (buckets m) (nbs (elements m)) (pbs (elements m)) (bps (elements m)) (insert pos A)"
    and k: "\<And>i. i \<in> A \<Longrightarrow> fst (ents (elements l) i) \<noteq> k"
  shows "\<exists>l'. insert' now m pos k v lifetime = Some l' \<and> same_meta l l' \<and>
     lru_ok hash l' (insert pos A) (ts @ [pos]) \<and>
     ents (elements l') = (ents (elements l))(pos := (k, v, expireAt now lifetime))"
proof -
  note D = lru_okD [OF ok]
  define e where "e = (elements m ! pos)\<lparr>key := k, value' := v, expire := expireAt now lifetime\<rparr>"
  define m1 where "m1 = m\<lparr>elements := (elements m)[pos := e]\<rparr>"
  have lt: "pos < length (elements m)" using pos(2) m(1) D(10) by (simp add: same_meta_def)
  have up: "upd m pos (\<lambda>e. e\<lparr>key := k, value' := v, expire := expireAt now lifetime\<rparr>) = Some m1"
    using lt by (simp add: upd_def m1_def e_def)
  have m1: "same_meta m m1" "head m1 = head m" "len m1 = len m" "buckets m1 = buckets m"
    "nxs (elements m1) = nxs (elements m)" "pvs (elements m1) = pvs (elements m)"
    "nbs (elements m1) = nbs (elements m)" "pbs (elements m1) = pbs (elements m)"
    "bps (elements m1) = bps (elements m)"
    "ents (elements m1) = (ents (elements m))(pos := (k, v, expireAt now lifetime))"
    using lt by (simp_all add: m1_def e_def same_meta_def)
  have sub: "set ts \<subseteq> {..<length (elements m1)}"
    using D(2,5,10) m(1) m1(1) by (auto simp: same_meta_def)
  have "\<exists>q. (if len m1 = 0 then do {
              l \<leftarrow> upd m1 pos (\<lambda>e. e\<lparr>prev := pos, next' := pos\<rparr>);
              Some (l\<lparr>head := pos\<rparr>) }
            else if pos \<noteq> head m1 then setHead m1 pos
            else Some m1) = Some q \<and> same_meta m1 q \<and> head q = pos \<and> len q = len m1 \<and>
       buckets q = buckets m1 \<and> nbs (elements q) = nbs (elements m1) \<and>
       pbs (elements q) = pbs (elements m1) \<and> bps (elements q) = bps (elements m1) \<and>
       ents (elements q) = ents (elements m1) \<and>
       ring (nxs (elements q)) (pvs (elements q)) (ts @ [pos])"
  proof (cases "A = {}")
    case True
    then have "ts = []" "len m1 = 0" using D(3,5) m(3) m1(3) by auto
    with lt m1(1) show ?thesis by (simp add: upd_def same_meta_def)
  next
    case False
    then have ne: "ts \<noteq> []" "len m1 \<noteq> 0" using D(3,5,16) m(3) m1(3) by auto
    have hd: "head m1 = last ts" using D(6) ne m(2) m1(2) by simp
    have "pos \<notin> set ts" using pos(1) D(5) by simp
    moreover from this have "pos \<noteq> head m1" using hd ne by auto
    ultimately show ?thesis
      using setHead_ring [of m1 ts pos] D(4) m m1 ne hd sub lt by (simp add: same_meta_def)
  qed
  then obtain q where q: "(if len m1 = 0 then do {
              l \<leftarrow> upd m1 pos (\<lambda>e. e\<lparr>prev := pos, next' := pos\<rparr>);
              Some (l\<lparr>head := pos\<rparr>) }
            else if pos \<noteq> head m1 then setHead m1 pos
            else Some m1) = Some q" "same_meta m1 q" "head q = pos" "len q = len m1"
       "buckets q = buckets m1" "nbs (elements q) = nbs (elements m1)"
       "pbs (elements q) = pbs (elements m1)" "bps (elements q) = bps (elements m1)"
       "ents (elements q) = ents (elements m1)"
       "ring (nxs (elements q)) (pvs (elements q)) (ts @ [pos])" by blast
  define l' where "l' = q\<lparr>len := (len q + 1) mod 4294967296\<rparr>"
  have run: "insert' now m pos k v lifetime = Some l'"
    unfolding insert'_def up by (simp add: q(1) l'_def)
  have meta: "same_meta l l'" using m(1) m1(1) q(2) by (simp add: same_meta_def l'_def)
  have ents': "ents (elements l') = (ents (elements l))(pos := (k, v, expireAt now lifetime))"
    using q(9) m1(10) m(6) by (simp add: l'_def)
  have len': "len l' = card (insert pos A)"
    using card_less_32 [OF ok] D(3,16) pos(1) q(4) m(3) m1(3) by (simp add: l'_def)
  have inj: "inj_on (\<lambda>i. fst (ents (elements l') i)) (insert pos A)"
    using D(9) k pos(1) unfolding ents' by (auto simp: inj_on_def)
  have hashpos: "bps (elements l') i = hashToBucketPos l (hash (fst (ents (elements l') i)))"
    if "i \<in> insert pos A" for i
    using that D(8) q(8) m1(9) m(7) unfolding ents' by (auto simp: l'_def)
  have "lru_ok hash l' (insert pos A) (ts @ [pos])"
    using shape_same_meta [OF D(1) meta] same_meta_hash [OF meta] len' inj hashpos D(2,5) pos(2)
      meta q m1 m(8)
    by (auto simp: lru_ok_def l'_def same_meta_def)
  with run meta ents' show ?thesis by blast
qed

end
