(* ===== verification/FreeLRU_Refine.thy ===== *)
theory FreeLRU_Refine
  imports FreeLRU_Ops
begin

text \<open>
  The LRU cache refines a list of entries, oldest first. The abstract cache is the contract
  that the rest of the program relies on: a lookup returns the live value of the key and
  makes it the most recent entry, an insertion replaces the entry of the key or appends one,
  evicting the oldest entry when the cache is full.
\<close>

section \<open>The abstract cache\<close>

type_synonym ('k, 'v) entries = "('k \<times> 'v \<times> int) list"

definition expired :: "int \<Rightarrow> int \<Rightarrow> bool" where
  "expired now x \<longleftrightarrow> x \<noteq> 0 \<and> x \<le> now"

definition a_del :: "'k \<Rightarrow> ('k, 'v) entries \<Rightarrow> ('k, 'v) entries" where
  "a_del k es = filter (\<lambda>e. fst e \<noteq> k) es"

definition a_get :: "int \<Rightarrow> ('k, 'v) entries \<Rightarrow> 'k \<Rightarrow> ('k, 'v) entries \<times> 'v option" where
  "a_get now es k = (case map_of es k of
       None \<Rightarrow> (es, None)
     | Some (v, x) \<Rightarrow> if expired now x then (a_del k es, None)
                     else (a_del k es @ [(k, v, x)], Some v))"

definition a_add ::
    "int \<Rightarrow> nat \<Rightarrow> ('k, 'v) entries \<Rightarrow> 'k \<Rightarrow> 'v \<Rightarrow> duration \<Rightarrow> ('k, 'v) entries \<times> bool" where
  "a_add now c es k v lifetime =
     (let e = (k, v, expireAt now lifetime)
      in if k \<in> fst ` set es then (a_del k es @ [e], False)
         else if length es = c then (tl es @ [e], True)
         else (es @ [e], False))"

text \<open>What a cache state stands for.\<close>

definition lru_abs :: "('k \<Rightarrow> u32) \<Rightarrow> ('k, 'v) LRU \<Rightarrow> ('k, 'v) entries \<Rightarrow> bool" where
  "lru_abs hash l es \<longleftrightarrow>
     (\<exists>ts. lru_ok hash l {..<len l} ts \<and> len l \<le> cap l \<and> es = map (ents (elements l)) ts)"

lemma lru_abs_length: "lru_abs hash l es \<Longrightarrow> length es = len l \<and> len l \<le> cap l"
  by (auto simp: lru_abs_def dest: lru_okD(17))

lemma lru_abs_distinct: "lru_abs hash l es \<Longrightarrow> distinct (map fst es)"
  unfolding lru_abs_def
  using lru_okD(5,9,12) by (fastforce simp: distinct_map comp_def)

section \<open>Walking a bucket\<close>

lemma addLoop_walk:
  assumes "ring nb pb (xs @ ys)" "ys \<noteq> []" "set (xs @ ys) \<subseteq> {..<length (elements l)}"
    "nb = nbs (elements l)"
  shows "addLoop l k (hd (xs @ ys)) (hd ys) = Some (find (\<lambda>i. fst (ents (elements l) i) = k) ys)"
  using assms
proof (induction ys arbitrary: xs)
  case (Cons y ys)
  have y: "elem l y = Some (elements l ! y)" using Cons.prems(3) by (simp add: elem_def)
  show ?case
  proof (cases "fst (ents (elements l) y) = k")
    case True
    with y show ?thesis by (subst addLoop.simps) simp
  next
    case False
    show ?thesis
    proof (cases "ys = []")
      case True
      then have "nbs (elements l) y = hd (xs @ [y])" using Cons.prems(1,4) by (simp add: ring_def)
      with True False y show ?thesis by (subst addLoop.simps) simp
    next
      case ne: False
      then have nx: "nbs (elements l) y = hd ys"
        using Cons.prems(1,4) by (simp add: ring_def linked_append linked_Cons)
      have "hd ys \<in> set ys" using ne by simp
      then have "hd ys \<noteq> hd (xs @ y # ys)"
        using Cons.prems(1) by (cases xs) (auto simp: ring_def)
      moreover have "addLoop l k (hd ((xs @ [y]) @ ys)) (hd ys) =
          Some (find (\<lambda>i. fst (ents (elements l) i) = k) ys)"
        using Cons.prems ne by (intro Cons.IH) auto
      ultimately show ?thesis using False nx y by (subst addLoop.simps) simp
    qed
  qed
qed simp

lemma findKeyLoop_walk:
  assumes "ring nb pb (xs @ ys)" "ys \<noteq> []" "set (xs @ ys) \<subseteq> {..<length (elements l)}"
    "nb = nbs (elements l)"
  shows "findKeyLoop now l k (hd (xs @ ys)) (hd ys) =
    (case find (\<lambda>i. fst (ents (elements l) i) = k) ys of
       None \<Rightarrow> Some (l, None)
     | Some i \<Rightarrow> if expired now (snd (snd (ents (elements l) i)))
                 then map_option (\<lambda>l'. (l', None)) (removeAt l i) else Some (l, Some i))"
  using assms
proof (induction ys arbitrary: xs)
  case (Cons y ys)
  have y: "elem l y = Some (elements l ! y)" using Cons.prems(3) by (simp add: elem_def)
  show ?case
  proof (cases "fst (ents (elements l) y) = k")
    case True
    with y show ?thesis
      by (subst findKeyLoop.simps) (auto simp: expired_def map_option_case split: option.splits)
  next
    case False
    show ?thesis
    proof (cases "ys = []")
      case True
      then have "nbs (elements l) y = hd (xs @ [y])" using Cons.prems(1,4) by (simp add: ring_def)
      with True False y show ?thesis by (subst findKeyLoop.simps) auto
    next
      case ne: False
      then have nx: "nbs (elements l) y = hd ys"
        using Cons.prems(1,4) by (simp add: ring_def linked_append linked_Cons)
      have "hd ys \<in> set ys" using ne by simp
      then have "hd ys \<noteq> hd (xs @ y # ys)"
        using Cons.prems(1) by (cases xs) (auto simp: ring_def)
      moreover have "findKeyLoop now l k (hd ((xs @ [y]) @ ys)) (hd ys) =
          (case find (\<lambda>i. fst (ents (elements l) i) = k) ys of
             None \<Rightarrow> Some (l, None)
           | Some i \<Rightarrow> if expired now (snd (snd (ents (elements l) i)))
                 then map_option (\<lambda>l'. (l', None)) (removeAt l i) else Some (l, Some i))"
        using Cons.prems ne by (intro Cons.IH) auto
      ultimately show ?thesis using False nx y by (subst findKeyLoop.simps) auto
    qed
  qed
qed simp

text \<open>The bucket of a key holds the position of the key, if the cache has it.\<close>

lemma key_bucket:
  assumes ok: "lru_ok hash l A ts"
  obtains bs where
    "ring (nbs (elements l)) (pbs (elements l)) bs"
    "set bs \<subseteq> {..<length (elements l)}" "set bs \<subseteq> A"
    "hashToPos l (hash k) = Some (hashToBucketPos l (hash k), if bs = [] then emptyBucket else hd bs)"
    "bs \<noteq> [] \<longrightarrow> hd bs \<noteq> emptyBucket"
    "\<forall>i \<in> A. fst (ents (elements l) i) = k \<longrightarrow> i \<in> set bs"
proof -
  note D = lru_okD [OF ok]
  let ?b = "hashToBucketPos l (hash k)"
  from buckets_okD [OF D(7) D(14)] obtain bs where bs: "ring (nbs (elements l)) (pbs (elements l)) bs"
    "set bs = {i \<in> A. bps (elements l) i = ?b}"
    "buckets l ! ?b = (if bs = [] then emptyBucket else hd bs)" by (rule bucket_okE)
  have "hd bs \<noteq> emptyBucket" if "bs \<noteq> []" using that bs(2) D(15) hd_in_set [OF that] by auto
  with bs D(8,13,14) show ?thesis
    by (intro that [of bs]) (auto simp: hashToPos_def bucket_def Let_def)
qed

lemma find_key:
  assumes "lru_ok hash l A ts" "set bs \<subseteq> A"
    "\<forall>i \<in> A. fst (ents (elements l) i) = k \<longrightarrow> i \<in> set bs"
  shows "find (\<lambda>i. fst (ents (elements l) i) = k) bs =
     find (\<lambda>i. fst (ents (elements l) i) = k) ts"
proof -
  note D = lru_okD [OF assms(1)]
  show ?thesis
  proof (cases "\<exists>i \<in> A. fst (ents (elements l) i) = k")
    case True
    then obtain i where i: "i \<in> A" "fst (ents (elements l) i) = k" by blast
    have uniq: "find (\<lambda>i. fst (ents (elements l) i) = k) xs = Some i" if "i \<in> set xs" "set xs \<subseteq> A" for xs
      using that
    proof (induction xs)
      case (Cons x xs)
      show ?case
      proof (cases "x = i")
        case False
        then have "fst (ents (elements l) x) \<noteq> k"
          using inj_onD [OF D(9), of x i] Cons.prems(2) i by auto
        with Cons False show ?thesis by simp
      qed (use i in simp)
    qed simp
    have "i \<in> set bs" "i \<in> set ts" "set ts \<subseteq> A" using assms(3) i D(5) by auto
    with uniq [of bs] uniq [of ts] assms(2) show ?thesis by simp
  next
    case False
    then have "find (\<lambda>i. fst (ents (elements l) i) = k) xs = None" if "set xs \<subseteq> A" for xs
      using that by (auto simp: find_None_iff)
    with assms(2) D(5) show ?thesis by simp
  qed
qed

lemma map_of_entries:
  assumes "lru_ok hash l A ts"
  shows "map_of (map (ents (elements l)) ts) k =
     map_option (\<lambda>i. snd (ents (elements l) i)) (find (\<lambda>i. fst (ents (elements l) i) = k) ts)"
  by (induction ts) auto

lemma find_split:
  assumes "lru_ok hash l A ts" "find (\<lambda>i. fst (ents (elements l) i) = k) ts = Some pos"
  shows "pos \<in> A \<and> fst (ents (elements l) pos) = k \<and>
     (\<forall>us vs. ts = us @ pos # vs \<longrightarrow>
        a_del k (map (ents (elements l)) ts) = map (ents (elements l)) (us @ vs))"
proof -
  note D = lru_okD [OF assms(1)]
  from assms(2) have pos: "pos \<in> set ts" "fst (ents (elements l) pos) = k"
    by (auto simp: find_Some_iff)
  have keep: "filter (\<lambda>e. fst e \<noteq> k) (map (ents (elements l)) xs) = map (ents (elements l)) xs"
    if "set xs \<subseteq> A" "pos \<notin> set xs" for xs
    using that pos D(5,9) by (auto simp: filter_id_conv dest: inj_onD)
  have "a_del k (map (ents (elements l)) ts) = map (ents (elements l)) (us @ vs)"
    if ts: "ts = us @ pos # vs" for us vs
  proof -
    have "set us \<subseteq> A" "pos \<notin> set us" "set vs \<subseteq> A" "pos \<notin> set vs" using D(5,12) ts by auto
    with keep show ?thesis using ts pos(2) by (simp add: a_del_def)
  qed
  with pos D(5) show ?thesis by blast
qed

section \<open>Refinement\<close>

theorem get_refines:
  assumes "lru_abs hash l es" and "a_get now es k = (es', r)"
  shows "\<exists>l'. get now l (hash k) k = Some (l', r) \<and> lru_abs hash l' es' \<and> same_meta l l'"
proof -
  from assms(1) obtain ts where ok: "lru_ok hash l {..<len l} ts" and le: "len l \<le> cap l"
    and es: "es = map (ents (elements l)) ts" by (auto simp: lru_abs_def)
  note D = lru_okD [OF ok]
  from ok obtain bs where bs: "ring (nbs (elements l)) (pbs (elements l)) bs"
    "set bs \<subseteq> {..<length (elements l)}" "set bs \<subseteq> {..<len l}"
    "hashToPos l (hash k) = Some (hashToBucketPos l (hash k), if bs = [] then emptyBucket else hd bs)"
    "bs \<noteq> [] \<longrightarrow> hd bs \<noteq> emptyBucket"
    "\<forall>i \<in> {..<len l}. fst (ents (elements l) i) = k \<longrightarrow> i \<in> set bs"
    by (rule key_bucket [where k = k])
  let ?f = "find (\<lambda>i. fst (ents (elements l) i) = k) ts"
  have f: "find (\<lambda>i. fst (ents (elements l) i) = k) bs = ?f" by (rule find_key [OF ok bs(3,6)])
  have fk: "findKey now l (hash k) k =
    (case ?f of None \<Rightarrow> Some (l, None)
     | Some i \<Rightarrow> if expired now (snd (snd (ents (elements l) i)))
                 then map_option (\<lambda>l'. (l', None)) (removeAt l i) else Some (l, Some i))"
  proof (cases "bs = []")
    case True
    with f bs(4) show ?thesis by (auto simp: findKey_def split: option.splits)
  next
    case False
    with findKeyLoop_walk [of "nbs (elements l)" "pbs (elements l)" "[]" bs l now k] bs f show ?thesis
      by (simp add: findKey_def)
  qed
  show ?thesis
  proof (cases ?f)
    case None
    with fk assms(2) map_of_entries [OF ok, of k] es assms(1) show ?thesis
      by (simp add: get_def a_get_def)
  next
    case (Some pos)
    note sp = find_split [OF ok Some]
    obtain v x where e: "ents (elements l) pos = (k, v, x)" using sp by (cases "ents (elements l) pos") auto
    have mo: "map_of es k = Some (v, x)" using map_of_entries [OF ok, of k] Some e es by simp
    from sp D(5) obtain us vs where ts: "ts = us @ pos # vs" by (metis split_list)
    have del: "a_del k es = map (ents (elements l)) (us @ vs)" using sp ts es by blast
    show ?thesis
    proof (cases "expired now x")
      case True
      from removeAt_ok [OF ok ts] obtain l' ts' where l': "removeAt l pos = Some l'" "same_meta l l'"
        "lru_ok hash l' {..<len l'} ts'" "len l' = len l - 1"
        "map (ents (elements l')) ts' = map (ents (elements l)) (us @ vs)" by blast
      have "lru_abs hash l' (a_del k es)"
        unfolding lru_abs_def using l' le del by (auto simp: same_meta_def)
      with True fk Some e l' assms(2) mo show ?thesis by (auto simp: get_def a_get_def)
    next
      case False
      have posA: "pos \<in> {..<len l}" using sp by blast
      from touch_ok [OF ok posA] obtain l' us' vs' where l': "touch l pos = Some l'"
        "ts = us' @ pos # vs'" "same_meta l l'" "lru_ok hash l' {..<len l} (us' @ vs' @ [pos])"
        "ents (elements l') = ents (elements l)" by blast
      have ll: "len l' = len l" using lru_okD(3) [OF l'(4)] by simp
      have del': "a_del k es = map (ents (elements l)) (us' @ vs')" using sp l'(2) es by blast
      then have "lru_abs hash l' (a_del k es @ [(k, v, x)])"
        unfolding lru_abs_def using l' ll le e by (auto simp: same_meta_def)
      moreover have "elem l' pos = Some (elements l' ! pos)" "value' (elements l' ! pos) = v"
        using lru_okD(13) [OF l'(4) posA] e l'(5) by (auto simp: elem_def)
      ultimately show ?thesis using False fk Some e l' assms(2) mo by (auto simp: get_def a_get_def)
    qed
  qed
qed

section \<open>Insertion\<close>

lemma evictIfFull_ok:
  assumes ok: "lru_ok hash l {..<len l} ts" and le: "len l \<le> cap l"
  shows "\<exists>m pos A us. evictIfFull l = Some (m, pos, len l = cap l) \<and> same_meta l m \<and>
     lru_ok hash m A us \<and> pos \<notin> A \<and> pos < size' l \<and> A \<subseteq> {..<len l} \<and> {..<len l} \<subseteq> insert pos A \<and>
     insert pos A = (if len l = cap l then {..<len l} else {..<Suc (len l)}) \<and>
     us = (if len l = cap l then tl ts else ts) \<and>
     ents (elements m) = ents (elements l) \<and> bps (elements m) = bps (elements l) \<and>
     (len l \<noteq> cap l \<longrightarrow> m = l) \<and>
     (len l = cap l \<longrightarrow> buckets m ! bps (elements l) pos = emptyBucket \<longrightarrow>
        nbs (elements m) pos = pos \<and> pbs (elements m) pos = pos)"
proof (cases "len l = cap l")
  case True
  note D = lru_okD [OF ok]
  have pos_cap: "0 < len l" using D(1) True by (simp add: shape_def)
  then have ne: "ts \<noteq> []" using D(17) by auto
  then obtain pos us where ts: "ts = pos # us" by (cases ts) auto
  have hd: "head l = last ts" using D(6) ne by simp
  have "nxs (elements l) (last ts) = pos" using D(4) ts by (simp add: ring_def)
  moreover have "last ts < length (elements l)" using D(5,13) last_in_set [OF ne] by blast
  ultimately have nx: "elem l (head l) = Some (elements l ! head l)" "next' (elements l ! head l) = pos"
    using hd by (auto simp: elem_def)
  from evict_ok [OF ok, of "[]" pos us] ts obtain m where m: "evict l pos = Some m" "same_meta l m"
    "lru_ok hash m ({..<len l} - {pos}) us" "ents (elements m) = ents (elements l)"
    "bps (elements m) = bps (elements l)"
    "buckets m ! bps (elements l) pos = emptyBucket \<longrightarrow>
        nbs (elements m) pos = pos \<and> pbs (elements m) pos = pos" by auto
  have posA: "pos \<in> {..<len l}" using D(5) ts by auto
  moreover have "pos < size' l" using D(2) posA by auto
  moreover have "insert pos ({..<len l} - {pos}) = {..<len l}" using posA by blast
  ultimately show ?thesis
    using True m ts nx by (intro exI [of _ m] exI [of _ pos] exI [of _ "{..<len l} - {pos}"] exI [of _ us])
      (auto simp: evictIfFull_def)
next
  case False
  note D = lru_okD [OF ok]
  have "len l < size' l" using False le D(1) by (simp add: shape_def)
  with False ok show ?thesis
    by (intro exI [of _ l] exI [of _ "len l"] exI [of _ "{..<len l}"] exI [of _ ts])
      (simp add: evictIfFull_def lessThan_Suc subset_insertI)
qed

lemma linkOnly_run:
  assumes "pos < length (elements l)" "bp < length (buckets l)"
  shows "\<exists>m. linkOnly l bp pos = Some m \<and> same_meta l m \<and> head m = head l \<and> len m = len l \<and>
     nxs (elements m) = nxs (elements l) \<and> pvs (elements m) = pvs (elements l) \<and>
     ents (elements m) = ents (elements l) \<and> bps (elements m) = (bps (elements l))(pos := bp) \<and>
     nbs (elements m) = (nbs (elements l))(pos := pos) \<and>
     pbs (elements m) = (pbs (elements l))(pos := pos) \<and> buckets m = (buckets l)[bp := pos]"
  using assms by (simp add: linkOnly_def op_defs same_meta_def)

lemma linkBefore_run:
  assumes "pos < length (elements l)" "bp < length (buckets l)" "s < length (elements l)"
    "pbs (elements l) s < length (elements l)" "s \<noteq> pos \<or> pbs (elements l) pos = pos"
    "s \<noteq> pos \<longrightarrow> pbs (elements l) s \<noteq> pos"
  shows "\<exists>m. linkBefore l bp s pos = Some m \<and> same_meta l m \<and> head m = head l \<and> len m = len l \<and>
     nxs (elements m) = nxs (elements l) \<and> pvs (elements m) = pvs (elements l) \<and>
     ents (elements m) = ents (elements l) \<and> bps (elements m) = (bps (elements l))(pos := bp) \<and>
     nbs (elements m) = (nbs (elements l))(pos := s, pbs (elements l) s := pos) \<and>
     pbs (elements m) = (pbs (elements l))(pos := pbs (elements l) s, s := pos) \<and>
     buckets m = (buckets l)[bp := pos]"
  using assms unfolding linkBefore_def op_defs
  by (cases "s = pos") (simp_all add: same_meta_def del: fun_upd_apply, auto simp: fun_eq_iff)

text \<open>All three ways of linking a free position into the bucket of a key establish what
  \<^const>\<open>insert'\<close> needs.\<close>

definition linked_new :: "('k, 'v) LRU \<Rightarrow> ('k, 'v) LRU \<Rightarrow> nat \<Rightarrow> nat \<Rightarrow> nat set \<Rightarrow> bool" where
  "linked_new m q pos b A \<longleftrightarrow> same_meta m q \<and> head q = head m \<and> len q = len m \<and>
     nxs (elements q) = nxs (elements m) \<and> pvs (elements q) = pvs (elements m) \<and>
     ents (elements q) = ents (elements m) \<and> bps (elements q) = (bps (elements m))(pos := b) \<and>
     buckets_ok (buckets q) (nbs (elements q)) (pbs (elements q)) (bps (elements q)) (insert pos A)"

lemma linkOnly_ok:
  assumes ok: "lru_ok hash m A us" and pos: "pos \<notin> A" "pos < size' m" and b: "b < length (buckets m)"
    and e: "buckets m ! b = emptyBucket"
  shows "\<exists>q. linkOnly m b pos = Some q \<and> linked_new m q pos b A"
  using linkOnly_run [of pos m b] buckets_link_empty [OF lru_okD(7) [OF ok] b pos(1) lru_okD(15) [OF ok] e]
    lru_okD(10) [OF ok] pos(2) b
  by (auto simp: linked_new_def)

lemma linkBefore_self_ok:
  assumes ok: "lru_ok hash m A us" and pos: "pos \<notin> A" "pos < size' m" and b: "b < length (buckets m)"
    and e: "buckets m ! b = emptyBucket" and pb: "pbs (elements m) pos = pos"
  shows "\<exists>q. linkBefore m b pos pos = Some q \<and> linked_new m q pos b A"
  using linkBefore_run [of pos m b pos] lru_okD(10) [OF ok] pos(2) b pb
    buckets_link_empty [OF lru_okD(7) [OF ok] b pos(1) lru_okD(15) [OF ok] e]
  by (auto simp: linked_new_def)

lemma linkBefore_ok:
  assumes ok: "lru_ok hash m A us" and pos: "pos \<notin> A" "pos < size' m" and b: "b < length (buckets m)"
    and s: "buckets m ! b \<noteq> emptyBucket"
  shows "\<exists>q. linkBefore m b (buckets m ! b) pos = Some q \<and> linked_new m q pos b A"
proof -
  note D = lru_okD [OF ok]
  let ?s = "buckets m ! b"
  from buckets_okD [OF D(7) b] obtain bs
    where bs: "ring (nbs (elements m)) (pbs (elements m)) bs" "set bs = {i \<in> A. bps (elements m) i = b}"
      "?s = (if bs = [] then emptyBucket else hd bs)" by (rule bucket_okE)
  have sbs: "?s \<in> set bs" using bs(3) s hd_in_set by (auto split: if_splits)
  then have "pbs (elements m) ?s \<in> A" "?s \<in> A" using ring_closed [OF bs(1) sbs] bs(2) by auto
  then have "?s < length (elements m)" "pbs (elements m) ?s < length (elements m)"
    "?s \<noteq> pos" "pbs (elements m) ?s \<noteq> pos" using D(13) pos(1) by auto
  then show ?thesis
    using linkBefore_run [of pos m b ?s] buckets_link [OF D(7) b pos(1) D(15) s] pos(2) b D(10)
    by (auto simp: linked_new_def)
qed

lemma insert_linked:
  assumes ok: "lru_ok hash m A us" and pos: "pos \<notin> A" "pos < size' m"
    and q: "linked_new m q pos (hashToBucketPos m (hash k)) A"
    and k: "\<And>i. i \<in> A \<Longrightarrow> fst (ents (elements m) i) \<noteq> k"
  shows "\<exists>l'. insert' now q pos k v lifetime = Some l' \<and> same_meta m l' \<and>
     lru_ok hash l' (insert pos A) (us @ [pos]) \<and>
     map (ents (elements l')) (us @ [pos]) =
       map (ents (elements m)) us @ [(k, v, expireAt now lifetime)]"
proof -
  from q have "\<exists>l'. insert' now q pos k v lifetime = Some l' \<and> same_meta m l' \<and>
     lru_ok hash l' (insert pos A) (us @ [pos]) \<and>
     ents (elements l') = (ents (elements m))(pos := (k, v, expireAt now lifetime))"
    unfolding linked_new_def by (intro insert_ok [OF ok pos] k) auto
  then obtain l' where l': "insert' now q pos k v lifetime = Some l'" "same_meta m l'"
     "lru_ok hash l' (insert pos A) (us @ [pos])"
     "ents (elements l') = (ents (elements m))(pos := (k, v, expireAt now lifetime))" by blast
  have "pos \<notin> set us" using lru_okD(5) [OF ok] pos(1) by simp
  then have "map (ents (elements l')) (us @ [pos]) =
      map (ents (elements m)) us @ [(k, v, expireAt now lifetime)]" using l'(4) by simp
  with l' show ?thesis by blast
qed

lemma add_update:
  assumes ok: "lru_ok hash l {..<len l} ts" and le: "len l \<le> cap l" and pos: "pos < len l"
    and k: "fst (ents (elements l) pos) = k"
    and del: "\<And>us vs. ts = us @ pos # vs \<Longrightarrow>
        a_del k (map (ents (elements l)) ts) = map (ents (elements l)) (us @ vs)"
  shows "\<exists>q l'. upd l pos (\<lambda>e. e\<lparr>value' := v, expire := x\<rparr>) = Some q \<and> touch q pos = Some l' \<and>
     same_meta l l' \<and> lru_abs hash l' (a_del k (map (ents (elements l)) ts) @ [(k, v, x)])"
proof -
  note D = lru_okD [OF ok]
  define q where "q = l\<lparr>elements := (elements l)[pos := (elements l ! pos)\<lparr>value' := v, expire := x\<rparr>]\<rparr>"
  have lt: "pos < length (elements l)" using D(13) pos by simp
  have q: "upd l pos (\<lambda>e. e\<lparr>value' := v, expire := x\<rparr>) = Some q" "same_meta l q" "len q = len l"
    "ents (elements q) = (ents (elements l))(pos := (k, v, x))"
    using lt k by (auto simp: upd_def q_def same_meta_def)
  have key: "fst (ents (elements q) i) = fst (ents (elements l) i)" for i
    using q(4) k by auto
  have "lru_ok hash q {..<len l} ts"
    using shape_same_meta [OF D(1) q(2)] same_meta_hash [OF q(2)] D(2-9) key lt
    by (auto simp: lru_ok_def q_def inj_on_def)
  moreover have "pos \<in> {..<len l}" using pos by simp
  ultimately obtain l' us vs where l': "touch q pos = Some l'" "ts = us @ pos # vs" "same_meta q l'"
    "lru_ok hash l' {..<len l} (us @ vs @ [pos])" "ents (elements l') = ents (elements q)"
    using touch_ok by blast
  have ll: "len l' = len l" using lru_okD(3) [OF l'(4)] by simp
  have "pos \<notin> set (us @ vs)" using D(12) l'(2) by auto
  then have "map (ents (elements l')) (us @ vs @ [pos]) =
      a_del k (map (ents (elements l)) ts) @ [(k, v, x)]"
    using del [OF l'(2)] l'(5) q(4) by simp
  moreover have "same_meta l l'" using q(2) l'(3) by (rule same_meta_trans)
  ultimately show ?thesis
    using q(1) l' ll le by (auto simp: lru_abs_def same_meta_def)
qed

lemma add_insert:
  assumes ok: "lru_ok hash l {..<len l} ts" and le: "len l \<le> cap l"
    and k: "\<And>i. i < len l \<Longrightarrow> fst (ents (elements l) i) \<noteq> k"
    and bs: "ring (nbs (elements l)) (pbs (elements l)) bs"
      "set bs = {i \<in> {..<len l}. bps (elements l) i = b}"
      "buckets l ! b = (if bs = [] then emptyBucket else hd bs)"
    and b: "b = hashToBucketPos l (hash k)"
  shows "\<exists>m pos s q l'. evictIfFull l = Some (m, pos, len l = cap l) \<and>
     s = (if len l = cap l then (if buckets m ! b = emptyBucket then pos else buckets m ! b) else hd bs) \<and>
     bucket m b = Some (buckets m ! b) \<and>
     (bs = [] \<longrightarrow> linkOnly m b pos = Some q) \<and> (bs \<noteq> [] \<longrightarrow> linkBefore m b s pos = Some q) \<and>
     insert' now q pos k v lifetime = Some l' \<and> same_meta l l' \<and>
     lru_abs hash l' ((if len l = cap l then tl else id) (map (ents (elements l)) ts) @
        [(k, v, expireAt now lifetime)])"
proof -
  note D = lru_okD [OF ok]
  from evictIfFull_ok [OF ok le] obtain m pos A us where m:
    "evictIfFull l = Some (m, pos, len l = cap l)" "same_meta l m" "lru_ok hash m A us" "pos \<notin> A"
    "pos < size' l" "A \<subseteq> {..<len l}" "{..<len l} \<subseteq> insert pos A"
    "insert pos A = (if len l = cap l then {..<len l} else {..<Suc (len l)})"
    "us = (if len l = cap l then tl ts else ts)"
    "ents (elements m) = ents (elements l)" "bps (elements m) = bps (elements l)"
    "len l \<noteq> cap l \<longrightarrow> m = l"
    "len l = cap l \<longrightarrow> buckets m ! bps (elements l) pos = emptyBucket \<longrightarrow>
        nbs (elements m) pos = pos \<and> pbs (elements m) pos = pos" by blast
  note M = lru_okD [OF m(3)]
  let ?s = "if len l = cap l then (if buckets m ! b = emptyBucket then pos else buckets m ! b) else hd bs"
  have bm: "b = hashToBucketPos m (hash k)" using b same_meta_hash [OF m(2)] by simp
  have blt: "b < length (buckets m)" using M(14) bm by simp
  have plt: "pos < size' m" using m(2,5) by (simp add: same_meta_def)
  from buckets_okD [OF M(7) blt] obtain cs where cs:
    "set cs = {i \<in> A. bps (elements m) i = b}"
    "buckets m ! b = (if cs = [] then emptyBucket else hd cs)" by (rule bucket_okE)
  have cs_hd: "hd cs \<noteq> emptyBucket" if "cs \<noteq> []"
    using hd_in_set [OF that] M(15) unfolding cs(1) by blast
  have q: "\<exists>q. (bs = [] \<longrightarrow> linkOnly m b pos = Some q) \<and> (bs \<noteq> [] \<longrightarrow> linkBefore m b ?s pos = Some q) \<and>
      linked_new m q pos b A"
  proof (cases "bs = []")
    case True
    have "set cs \<subseteq> set bs" unfolding cs(1) bs(2) m(11) using m(6) by blast
    with True have "cs = []" by simp
    with cs(2) have "buckets m ! b = emptyBucket" by simp
    from linkOnly_ok [OF m(3,4) plt blt this] True show ?thesis by blast
  next
    case ne: False
    show ?thesis
    proof (cases "buckets m ! b = emptyBucket")
      case True
      then have "cs = []" using cs(2) cs_hd by (metis (full_types))
      have hb: "hd bs \<in> {..<len l}" "bps (elements l) (hd bs) = b" using bs(2) hd_in_set [OF ne] by auto
      then have "hd bs \<notin> A" using cs(1) \<open>cs = []\<close> m(11) by auto
      with hb m(7) have "bps (elements l) pos = b" by auto
      moreover have full: "len l = cap l"
        using m(12) True bs(3) ne hb(1) D(15) by auto
      ultimately have "pbs (elements m) pos = pos" using m(13) True by simp
      from linkBefore_self_ok [OF m(3,4) plt blt True this] full True ne show ?thesis by auto
    next
      case False
      then have "?s = buckets m ! b" using m(12) bs(3) ne by auto
      with linkBefore_ok [OF m(3,4) plt blt False] ne show ?thesis by auto
    qed
  qed
  then obtain q where q: "bs = [] \<longrightarrow> linkOnly m b pos = Some q"
    "bs \<noteq> [] \<longrightarrow> linkBefore m b ?s pos = Some q" "linked_new m q pos b A" by blast
  have "\<And>i. i \<in> A \<Longrightarrow> fst (ents (elements m) i) \<noteq> k" using k m(6,10) by auto
  from insert_linked [OF m(3,4) plt _ this] q(3) bm obtain l' where l':
    "insert' now q pos k v lifetime = Some l'" "same_meta m l'" "lru_ok hash l' (insert pos A) (us @ [pos])"
    "map (ents (elements l')) (us @ [pos]) =
       map (ents (elements m)) us @ [(k, v, expireAt now lifetime)]" by blast
  have ll: "len l' = (if len l = cap l then len l else Suc (len l))"
    using lru_okD(3) [OF l'(3)] m(8) by simp
  have meta: "same_meta l l'" using m(2) l'(2) by (rule same_meta_trans)
  have "insert pos A = {..<len l'}" using m(8) ll by simp
  with l'(3) have "lru_ok hash l' {..<len l'} (us @ [pos])" by simp
  moreover have "len l' \<le> cap l'" using ll le meta by (auto simp: same_meta_def)
  moreover have "map (ents (elements m)) us =
      (if len l = cap l then tl else id) (map (ents (elements l)) ts)"
    using m(9,10) by (simp add: map_tl)
  then have "map (ents (elements l')) (us @ [pos]) =
      (if len l = cap l then tl else id) (map (ents (elements l)) ts) @ [(k, v, expireAt now lifetime)]"
    using l'(4) by (simp only:)
  ultimately have "lru_abs hash l' ((if len l = cap l then tl else id) (map (ents (elements l)) ts) @
        [(k, v, expireAt now lifetime)])" unfolding lru_abs_def by (intro exI [of _ "us @ [pos]"]) simp
  moreover have "bucket m b = Some (buckets m ! b)" using blt by (simp add: bucket_def)
  ultimately show ?thesis using m(1) q(1,2) l'(1) meta by blast
qed

theorem add_refines:
  assumes "lru_abs hash l es" and "a_add now (cap l) es k v lifetime = (es', ev)"
  shows "\<exists>l'. addWithLifetime now l (hash k) k v lifetime = Some (l', ev) \<and> lru_abs hash l' es' \<and>
     same_meta l l'"
proof -
  from assms(1) obtain ts where ok: "lru_ok hash l {..<len l} ts" and le: "len l \<le> cap l"
    and es: "es = map (ents (elements l)) ts" by (auto simp: lru_abs_def)
  note D = lru_okD [OF ok]
  let ?b = "hashToBucketPos l (hash k)"
  from buckets_okD [OF D(7) D(14)] obtain bs where bs:
    "ring (nbs (elements l)) (pbs (elements l)) bs"
    "set bs = {i \<in> {..<len l}. bps (elements l) i = ?b}"
    "buckets l ! ?b = (if bs = [] then emptyBucket else hd bs)" by (rule bucket_okE)
  have hp: "hashToPos l (hash k) = Some (?b, if bs = [] then emptyBucket else hd bs)"
    using bs(3) D(14) by (simp add: hashToPos_def bucket_def Let_def)
  have hd_ne: "hd bs \<noteq> emptyBucket" if "bs \<noteq> []"
    using hd_in_set [OF that] D(15) unfolding bs(2) by blast
  let ?f = "find (\<lambda>i. fst (ents (elements l) i) = k) ts"
  have f: "find (\<lambda>i. fst (ents (elements l) i) = k) bs = ?f"
  proof (rule find_key [OF ok])
    show "set bs \<subseteq> {..<len l}" using bs(2) by blast
    show "\<forall>i \<in> {..<len l}. fst (ents (elements l) i) = k \<longrightarrow> i \<in> set bs"
      unfolding bs(2) using D(8) by blast
  qed
  have "set ([] @ bs) \<subseteq> {..<length (elements l)}" using bs(2) D(13) by auto
  with addLoop_walk [of "nbs (elements l)" "pbs (elements l)" "[]" bs l k] bs(1) f
  have loop: "bs \<noteq> [] \<Longrightarrow> addLoop l k (hd bs) (hd bs) = Some ?f" by simp
  have len: "length es = len l" using es D(17) by simp
  show ?thesis
  proof (cases ?f)
    case (Some pos)
    note sp = find_split [OF ok Some]
    have "bs \<noteq> []" using f Some by auto
    moreover have "k \<in> fst ` set es" using map_of_entries [OF ok, of k] Some es
      by (metis map_of_eq_None_iff option.map_disc_iff option.distinct(1))
    moreover have p: "pos < len l" "fst (ents (elements l) pos) = k" using sp by blast+
    have del: "\<And>us vs. ts = us @ pos # vs \<Longrightarrow>
        a_del k (map (ents (elements l)) ts) = map (ents (elements l)) (us @ vs)" using sp by blast
    obtain q l' where "upd l pos (\<lambda>e. e\<lparr>value' := v, expire := expireAt now lifetime\<rparr>) = Some q"
      "touch q pos = Some l'" "same_meta l l'"
      "lru_abs hash l' (a_del k (map (ents (elements l)) ts) @ [(k, v, expireAt now lifetime)])"
      using add_update [OF ok le p del, where v = v and x = "expireAt now lifetime"] by blast
    ultimately show ?thesis
      using assms(2) hp hd_ne loop Some es by (auto simp: addWithLifetime_def a_add_def Let_def)
  next
    case None
    then have k: "fst (ents (elements l) i) \<noteq> k" if "i < len l" for i
      using that D(5) by (auto simp: find_None_iff)
    have notin: "k \<notin> fst ` set es"
      using map_of_entries [OF ok, of k] None es by (simp only: map_of_eq_None_iff [symmetric] option.map)
    from add_insert [OF ok le k bs refl, of now v lifetime] obtain m pos s q l' where r:
      "evictIfFull l = Some (m, pos, len l = cap l)"
      "s = (if len l = cap l then (if buckets m ! ?b = emptyBucket then pos else buckets m ! ?b) else hd bs)"
      "bucket m ?b = Some (buckets m ! ?b)"
      "bs = [] \<longrightarrow> linkOnly m ?b pos = Some q" "bs \<noteq> [] \<longrightarrow> linkBefore m ?b s pos = Some q"
      "insert' now q pos k v lifetime = Some l'" "same_meta l l'"
      "lru_abs hash l' ((if len l = cap l then tl else id) (map (ents (elements l)) ts) @
        [(k, v, expireAt now lifetime)])" by blast
    have spec: "es' = (if len l = cap l then tl else id) es @ [(k, v, expireAt now lifetime)]"
      "ev = (len l = cap l)"
      using assms(2) notin len by (auto simp: a_add_def Let_def split: if_splits)
    show ?thesis
    proof (cases "bs = []")
      case True
      with hp r es spec show ?thesis by (auto simp: addWithLifetime_def)
    next
      case False
      with hp r es spec hd_ne loop None show ?thesis
        by (cases "len l = cap l") (auto simp: addWithLifetime_def)
    qed
  qed
qed


section \<open>Sequences of operations\<close>

text \<open>A client's use of a cache is a sequence of timed operations; each yields an output, the
  eviction flag of an insertion or the result of a lookup.\<close>

datatype ('k, 'v) cache_op = OpAdd int 'k 'v duration | OpGet int 'k

datatype 'v cache_out = Evicted bool | Got "'v option"

fun run_ops ::
    "(int \<Rightarrow> 's \<Rightarrow> 'k \<Rightarrow> 'v \<Rightarrow> duration \<Rightarrow> ('s \<times> bool) option) \<Rightarrow>
     (int \<Rightarrow> 's \<Rightarrow> 'k \<Rightarrow> ('s \<times> 'v option) option) \<Rightarrow>
     ('k, 'v) cache_op list \<Rightarrow> 's \<Rightarrow> ('s \<times> 'v cache_out list) option" where
  "run_ops add gt [] s = Some (s, [])"
| "run_ops add gt (OpAdd now k v d # ops) s = do {
     (s', b) \<leftarrow> add now s k v d;
     (s'', outs) \<leftarrow> run_ops add gt ops s';
     Some (s'', Evicted b # outs) }"
| "run_ops add gt (OpGet now k # ops) s = do {
     (s', r) \<leftarrow> gt now s k;
     (s'', outs) \<leftarrow> run_ops add gt ops s';
     Some (s'', Got r # outs) }"

definition abs_run :: "nat \<Rightarrow> ('k, 'v) cache_op list \<Rightarrow> ('k, 'v) entries \<Rightarrow>
    (('k, 'v) entries \<times> 'v cache_out list) option" where
  "abs_run c = run_ops (\<lambda>now es k v d. Some (a_add now c es k v d)) (\<lambda>now es k. Some (a_get now es k))"

lemma abs_run_total: "\<exists>es' outs. abs_run c ops es = Some (es', outs)"
  unfolding abs_run_def
proof (induction ops arbitrary: es)
  case (Cons op ops)
  show ?case
  proof (cases op)
    case (OpAdd now k v d)
    then show ?thesis using Cons.IH [of "fst (a_add now c es k v d)"] by (auto simp: split_beta)
  next
    case (OpGet now k)
    then show ?thesis using Cons.IH [of "fst (a_get now es k)"] by (auto simp: split_beta)
  qed
qed simp

lemma same_meta_cap: "same_meta l l' \<Longrightarrow> cap l' = cap l"
  by (simp add: same_meta_def)

lemma run_refines:
  assumes "lru_abs hash l es" "cap l = c" "abs_run c ops es = Some (es', outs)"
  shows "\<exists>l'. run_ops (AddWithLifetime hash) (Get hash) ops l = Some (l', outs) \<and> lru_abs hash l' es'"
  using assms
proof (induction ops arbitrary: l es outs)
  case Nil
  then show ?case by (simp add: abs_run_def)
next
  case (Cons op ops)
  show ?case
  proof (cases op)
    case (OpAdd now k v d)
    obtain es1 b where a: "a_add now (cap l) es k v d = (es1, b)" by force
    obtain l1 where l1: "addWithLifetime now l (hash k) k v d = Some (l1, b)" "lru_abs hash l1 es1"
      "same_meta l l1" using add_refines [OF Cons.prems(1) a] by blast
    obtain outs1 where o: "abs_run c ops es1 = Some (es', outs1)" "outs = Evicted b # outs1"
      using Cons.prems(2,3) a OpAdd by (auto simp: abs_run_def res_iff)
    from Cons.IH [OF l1(2) _ o(1)] show ?thesis
      using l1 o(2) OpAdd Cons.prems(2) same_meta_cap [OF l1(3)] by (auto simp: AddWithLifetime_def)
  next
    case (OpGet now k)
    obtain es1 r where a: "a_get now es k = (es1, r)" by force
    obtain l1 where l1: "get now l (hash k) k = Some (l1, r)" "lru_abs hash l1 es1"
      "same_meta l l1" using get_refines [OF Cons.prems(1) a] by blast
    obtain outs1 where o: "abs_run c ops es1 = Some (es', outs1)" "outs = Got r # outs1"
      using Cons.prems(3) a OpGet by (auto simp: abs_run_def res_iff)
    from Cons.IH [OF l1(2) _ o(1)] show ?thesis
      using l1 o(2) OpGet Cons.prems(2) same_meta_cap [OF l1(3)] by (auto simp: Get_def)
  qed
qed


lemma a_add_length: "length es \<le> c \<Longrightarrow> 0 < c \<Longrightarrow> a_add now c es k v d = (es', b) \<Longrightarrow> length es' \<le> c"
proof -
  assume a: "length es \<le> c" "0 < c" "a_add now c es k v d = (es', b)"
  have "length (a_del k es) < length es" if "k \<in> fst ` set es"
    using that by (auto simp: a_del_def intro: length_filter_less)
  with a show ?thesis by (auto simp: a_add_def Let_def split: if_splits)
qed

lemma a_get_length: "length es \<le> c \<Longrightarrow> a_get now es k = (es', r) \<Longrightarrow> length es' \<le> c"
proof -
  assume a: "length es \<le> c" "a_get now es k = (es', r)"
  have "length (a_del k es) < length es" if "map_of es k = Some y" for y
    using map_of_SomeD [OF that] by (auto simp: a_del_def intro: length_filter_less)
  with a show ?thesis by (fastforce simp: a_get_def split: option.splits if_splits prod.splits)
qed

lemma run_cap: "abs_run c ops es = Some (es', outs) \<Longrightarrow> length es \<le> c \<Longrightarrow> 0 < c \<Longrightarrow> length es' \<le> c"
  unfolding abs_run_def
proof (induction ops arbitrary: es outs)
  case (Cons op ops)
  then show ?case
    by (cases op) (auto simp: res_iff split: prod.splits dest: a_add_length a_get_length)
qed simp

end
