(* ===== verification/ShardedLRU.thy ===== *)
theory ShardedLRU
  imports FreeLRU_Refine
begin

text \<open>
  The sharded cache \<^verbatim>\<open>internal/freelru/shardedlru.go\<close>: a power-of-two number of LRU caches,
  each behind a mutex, selected by the upper half of the key's hash. A call holds the mutex
  of its shard for its whole duration, so calls are atomic steps. The theory ends with the
  cache contract that the DNS, reverse-lookup and TTL caches of the program rely on,
  discharged for this implementation.
\<close>

section \<open>Construction\<close>

record ('k, 'v) ShardedLRU =
  lrus :: "('k, 'v) LRU list"
  shards :: nat
  smask :: u32

definition nextPowerOfTwo :: "u32 \<Rightarrow> u32" where
  "nextPowerOfTwo val = (if OnesCount32 val \<noteq> 1 then push_bit (Len32 val) 1 else val)"

function shrinkShards :: "nat \<Rightarrow> nat \<Rightarrow> nat" where
  "shrinkShards n sz = (if n > sz div 16 then shrinkShards (n div 16) sz else n)"
  by pat_completeness auto
termination
  by (relation "measure fst") auto

declare shrinkShards.simps [simp del]

definition NewShardedWithSize ::
    "nat \<Rightarrow> nat \<Rightarrow> nat \<Rightarrow> 'k \<Rightarrow> 'v \<Rightarrow> ('k, 'v) ShardedLRU res" where
  "NewShardedWithSize shards0 capacity0 size0 k v =
     (if capacity0 = 0 then Inl (ErrNew ''capacity must be positive'')
      else if size0 < capacity0 then Inl (ErrNew (''size ('' @ digitsOf size0 @ '') is smaller than capacity ('' @ digitsOf capacity0 @ '')''))
      else
        let sz = (if size0 < 2 ^ 31 then unat (nextPowerOfTwo (word_of_nat size0)) else 2 ^ 31);
            n = shrinkShards (unat (nextPowerOfTwo (word_of_nat shards0))) sz;
            n = (if n = 0 then 1 else n);
            sz = sz div n;
            sz = (if sz = 0 then 1 else sz);
            c = (capacity0 + n - 1) mod 2 ^ 32 div n;
            c = (if c = 0 then 1 else c)
        in Inr \<lparr>lrus = replicate n
                   (initLRU c sz k v (replicate sz 0) (replicate sz (zeroElement k v))),
                shards = n, smask = word_of_nat n - 1\<rparr>)"

text \<open>The number of shards comes from the number of processors the Go scheduler uses. The
  product of the capacity with 1.25 is exact in a \<^verbatim>\<open>float64\<close> and its conversion truncates; for
  capacities whose product does not fit 32 bits the conversion is left to the platform by
  the language, and the model reduces it modulo \<open>2 ^ 32\<close>.\<close>

definition NewSharded :: "nat \<Rightarrow> nat \<Rightarrow> 'k \<Rightarrow> 'v \<Rightarrow> ('k, 'v) ShardedLRU res" where
  "NewSharded gomaxprocs capacity k v =
     NewShardedWithSize (gomaxprocs * 16 mod 2 ^ 32) capacity (capacity * 5 div 4 mod 2 ^ 32) k v"

section \<open>Operations\<close>

definition shardOf :: "('k, 'v) ShardedLRU \<Rightarrow> u32 \<Rightarrow> nat" where
  "shardOf s h = unat (drop_bit 16 h AND smask s)"

definition sAddWithLifetime ::
    "('k \<Rightarrow> u32) \<Rightarrow> int \<Rightarrow> ('k, 'v) ShardedLRU \<Rightarrow> 'k \<Rightarrow> 'v \<Rightarrow> duration \<Rightarrow>
     (('k, 'v) ShardedLRU \<times> bool) option" where
  "sAddWithLifetime hash now s k v lifetime =
     (let h = hash k; i = shardOf s h in
      if i < length (lrus s) then do {
        (l, evicted) \<leftarrow> addWithLifetime now (lrus s ! i) h k v lifetime;
        Some (s\<lparr>lrus := (lrus s)[i := l]\<rparr>, evicted) }
      else None)"

definition sGet :: "('k \<Rightarrow> u32) \<Rightarrow> int \<Rightarrow> ('k, 'v) ShardedLRU \<Rightarrow> 'k \<Rightarrow> (('k, 'v) ShardedLRU \<times> 'v option) option" where
  "sGet hash now s k =
     (let h = hash k; i = shardOf s h in
      if i < length (lrus s) then do {
        (l, r) \<leftarrow> get now (lrus s ! i) h k;
        Some (s\<lparr>lrus := (lrus s)[i := l]\<rparr>, r) }
      else None)"

section \<open>Construction establishes the invariant\<close>

lemma OnesCount32_one:
  assumes "OnesCount32 w = 1"
  obtains k where "k < 32" "w = 2 ^ k"
proof -
  have "card (set (filter (bit w) [0..<32])) = 1"
    using assms distinct_card [of "filter (bit w) [0..<32]"] by (simp add: OnesCount32_def del: set_filter)
  then obtain k where k: "{i. i < 32 \<and> bit w i} = {k}"
    by (auto simp: card_1_singleton_iff)
  then have "k < 32" by blast
  moreover have "w = 2 ^ k"
  proof (rule bit_word_eqI)
    fix n assume "n < LENGTH(32)"
    with k \<open>k < 32\<close> show "bit w n = bit (2 ^ k :: u32) n"
      by (auto simp: bit_exp_iff set_eq_iff)
  qed
  ultimately show ?thesis by (rule that)
qed

lemma Len32_bits:
  shows "\<And>i. Len32 w \<le> i \<Longrightarrow> \<not> bit w i" and "Len32 w \<le> 32"
proof -
  let ?xs = "rev [0..<32]"
  have len: "Len32 w + length (takeWhile (\<lambda>i. \<not> bit w i) ?xs) = 32"
    unfolding Len32_def by (metis length_append length_rev length_upt takeWhile_dropWhile_id add.commute diff_zero)
  then show "Len32 w \<le> 32" by simp
  fix i assume i: "Len32 w \<le> i"
  show "\<not> bit w i"
  proof (cases "i < 32")
    case True
    let ?t = "takeWhile (\<lambda>i. \<not> bit w i) ?xs"
    have "31 - i < length ?t" using i len True by linarith
    then have "?t ! (31 - i) \<in> set ?t" and "?t ! (31 - i) = ?xs ! (31 - i)"
      by (rule nth_mem, rule takeWhile_nth)
    moreover have "?xs ! (31 - i) = i" using True by (simp add: rev_nth del: upt.simps)
    ultimately show ?thesis by (auto dest: set_takeWhileD)
  next
    case False
    then show ?thesis using bit_imp_le_length [of w i] by auto
  qed
qed

lemma Len32_le:
  assumes "\<And>i. n \<le> i \<Longrightarrow> \<not> bit w i" and "n \<le> 32"
  shows "Len32 w \<le> n"
proof -
  have "rev [0..<32] = rev [n..<32] @ rev [0..<n]"
    using assms(2) by (metis rev_append upt_add_eq_append le_add_diff_inverse zero_le)
  moreover have "dropWhile (\<lambda>i. \<not> bit w i) (rev [n..<32] @ ys) = dropWhile (\<lambda>i. \<not> bit w i) ys" for ys
    using assms(1) by (intro dropWhile_append2) simp
  ultimately have "Len32 w = length (dropWhile (\<lambda>i. \<not> bit w i) (rev [0..<n]))"
    by (simp only: Len32_def)
  then show ?thesis using length_dropWhile_le [of "\<lambda>i. \<not> bit w i" "rev [0..<n]"] by simp
qed

lemma unat_2p32: "k < 32 \<Longrightarrow> unat (2 ^ k :: u32) = 2 ^ k"
proof -
  assume "k < 32"
  then have "(2 :: nat) ^ k < 2 ^ LENGTH(32)" using power_strict_increasing [of k 32 "2 :: nat"] by simp
  then have "unat (word_of_nat (2 ^ k) :: u32) = 2 ^ k" by (simp only: unat_of_nat mod_less)
  then show ?thesis by simp
qed

lemma nextPowerOfTwo_ok:
  assumes "unat w < 2 ^ 31"
  obtains k where "k \<le> 31" "unat (nextPowerOfTwo w) = 2 ^ k" "unat w \<le> 2 ^ k"
proof (cases "OnesCount32 w = 1")
  case True
  then obtain k where k: "k < 32" "w = 2 ^ k" by (rule OnesCount32_one)
  have "unat (2 ^ k :: u32) = 2 ^ k" using k(1) by (rule unat_2p32)
  with k True show ?thesis by (intro that [of k]) (auto simp: nextPowerOfTwo_def)
next
  case False
  have "take_bit (Len32 w) w = w"
    by (rule bit_word_eqI) (auto simp: bit_take_bit_iff Len32_bits(1) not_le [symmetric])
  then have lt: "unat w < 2 ^ Len32 w"
    by (metis take_bit_nat_less_exp unsigned_take_bit_eq)
  have le: "Len32 w \<le> 31"
  proof (rule Len32_le)
    fix i :: nat assume i: "31 \<le> i"
    have "(2 :: nat) ^ 31 \<le> 2 ^ i" using i by (rule power_increasing) simp
    with assms have "unat w < 2 ^ i" by (rule less_le_trans)
    then have "\<not> bit (unat w) i" by (simp add: bit_iff_odd)
    then show "\<not> bit w i" using bit_imp_le_length [of w i] by (auto simp: bit_unsigned_iff)
  qed simp
  then have "unat (push_bit (Len32 w) (1 :: u32)) = 2 ^ Len32 w"
    by (simp add: push_bit_eq_mult unat_2p32)
  with False lt le show ?thesis by (intro that [of "Len32 w"]) (auto simp: nextPowerOfTwo_def)
qed


text \<open>Every hash selects a bucket of the table, by mask or by multiplication.\<close>

lemma and_mask_less:
  assumes "k < 32"
  shows "unat (h AND (2 ^ k - 1) :: u32) < 2 ^ k"
proof -
  have "h AND (2 ^ k - 1) = take_bit k h"
    by (simp add: take_bit_eq_mask mask_eq_exp_minus_1)
  then show ?thesis by (metis unsigned_take_bit_eq take_bit_nat_less_exp)
qed

lemma fastRange_less:
  assumes "0 < unat n"
  shows "unat (fastRange x n) < unat n"
proof -
  have x: "unat x < 2 ^ 32" and n: "unat n < 2 ^ 32"
    using unsigned_less [of x, where 'a = nat] unsigned_less [of n, where 'a = nat] by simp_all
  have lt: "unat x * unat n < 2 ^ 32 * unat n" using x assms by simp
  also have "\<dots> < 2 ^ 64" using n by simp
  finally have "unat (ucast x * ucast n :: 64 word) = unat x * unat n"
    using x n by (simp add: unat_word_ariths unsigned_ucast_eq take_bit_nat_eq_self)
  then have "unat (drop_bit 32 (ucast x * ucast n :: 64 word)) = unat x * unat n div 2 ^ 32"
    by (metis unat_drop_bit_eq drop_bit_eq_div)
  moreover have "unat x * unat n div 2 ^ 32 < unat n"
    using lt by (simp add: less_mult_imp_div_less mult.commute)
  ultimately show ?thesis using n by (simp add: fastRange_def unsigned_ucast_eq take_bit_nat_eq_self)
qed

lemma hashToBucketPos_initLRU:
  assumes "0 < sz" "sz < 2 ^ 32"
  shows "hashToBucketPos (initLRU c sz k v bs es) h < sz"
proof -
  have sz: "unat (word_of_nat sz :: u32) = sz" using assms(2) by (simp add: unat_of_nat)
  show ?thesis
  proof (cases "OnesCount32 (word_of_nat sz) = 1 \<and> (word_of_nat sz :: u32) - 1 \<noteq> 0")
    case True
    then obtain k where k: "k < 32" "(word_of_nat sz :: u32) = 2 ^ k" using OnesCount32_one by blast
    then have "sz = 2 ^ k" using sz unat_2p32 [OF k(1)] by simp
    with True k and_mask_less [OF k(1), of h] show ?thesis
      by (simp add: hashToBucketPos_def initLRU_def)
  next
    case False
    then show ?thesis using fastRange_less [of "word_of_nat sz" h] sz assms(1)
      by (auto simp: hashToBucketPos_def initLRU_def)
  qed
qed

lemma initLRU_abs:
  assumes "0 < c" "c \<le> sz" "sz < emptyBucket"
  shows "lru_abs hash (initLRU c sz k v (replicate sz 0) (replicate sz (zeroElement k v))) []"
proof -
  let ?l = "initLRU c sz k v (replicate sz 0) (replicate sz (zeroElement k v))"
  have "sz < 2 ^ 32" using assms(3) by (simp add: emptyBucket_def)
  then have "shape ?l"
    using assms hashToBucketPos_initLRU [of sz c k v "replicate sz 0" "replicate sz (zeroElement k v)"]
    unfolding shape_def by (intro conjI allI) (simp_all add: initLRU_def)
  moreover have "buckets_ok (buckets ?l) nb pb bp {}" for nb pb bp
    by (auto simp: buckets_ok_def initLRU_def intro!: bucket_okI [of _ _ "[]"])
  moreover have "len ?l = 0" "cap ?l = c" by (simp_all add: initLRU_def)
  ultimately show ?thesis by (auto simp: lru_abs_def lru_ok_def intro!: exI [of _ "[]"])
qed


text \<open>The number of shards is a power of two that divides the number of table slots.\<close>

definition pow2_or_0 :: "nat \<Rightarrow> bool" where
  "pow2_or_0 n \<longleftrightarrow> n = 0 \<or> (\<exists>k \<le> 31. n = 2 ^ k)"

lemma nextPowerOfTwo_pow2: "pow2_or_0 (unat (nextPowerOfTwo w))"
proof (cases "OnesCount32 w = 1 \<or> unat w < 2 ^ 31")
  case True
  then show ?thesis
  proof
    assume one: "OnesCount32 w = 1"
    then obtain k where "k < 32" "w = 2 ^ k" by (rule OnesCount32_one)
    with one unat_2p32 [of k] show ?thesis
      by (auto simp: pow2_or_0_def nextPowerOfTwo_def intro!: exI [of _ k])
  next
    assume "unat w < 2 ^ 31"
    then obtain k where "k \<le> 31" "unat (nextPowerOfTwo w) = 2 ^ k" by (rule nextPowerOfTwo_ok)
    then show ?thesis by (auto simp: pow2_or_0_def)
  qed
next
  case False
  then have "nextPowerOfTwo w = push_bit (Len32 w) 1" by (simp add: nextPowerOfTwo_def)
  moreover consider "Len32 w = 32" | "Len32 w < 32" using Len32_bits(2) [of w] by linarith
  then have "pow2_or_0 (unat (push_bit (Len32 w) (1 :: u32)))"
  proof cases
    case 1
    then show ?thesis by (simp add: pow2_or_0_def push_bit_eq_mult)
  next
    case 2
    then show ?thesis
      by (auto simp: pow2_or_0_def push_bit_eq_mult unat_2p32 intro!: exI [of _ "Len32 w"])
  qed
  ultimately show ?thesis by simp
qed

lemma pow2_div16: "pow2_or_0 n \<Longrightarrow> pow2_or_0 (n div 16)"
proof -
  assume "pow2_or_0 n"
  moreover have "pow2_or_0 (2 ^ k div 16)" if "k \<le> 31" for k
  proof (cases "k < 4")
    case True
    then have "(2 :: nat) ^ k < 2 ^ 4" by (intro power_strict_increasing) simp_all
    then show ?thesis by (simp add: pow2_or_0_def)
  next
    case False
    then have "(2 :: nat) ^ k div 16 = 2 ^ (k - 4)"
      using power_diff [of "2 :: nat" 4 k] by simp
    with that show ?thesis by (auto simp: pow2_or_0_def intro!: exI [of _ "k - 4"])
  qed
  ultimately show ?thesis by (auto simp: pow2_or_0_def)
qed

lemma shrinkShards_ok:
  "pow2_or_0 n \<Longrightarrow> pow2_or_0 (shrinkShards n sz) \<and> shrinkShards n sz \<le> sz div 16"
  by (induction n sz rule: shrinkShards.induct)
    (subst (1 2) shrinkShards.simps, auto simp: pow2_div16)

definition sharded_abs :: "('k \<Rightarrow> u32) \<Rightarrow> ('k, 'v) ShardedLRU \<Rightarrow> ('k, 'v) entries list \<Rightarrow> bool" where
  "sharded_abs hash s ess \<longleftrightarrow>
     (\<exists>k < 32. shards s = 2 ^ k \<and> smask s = 2 ^ k - 1) \<and> length (lrus s) = shards s \<and>
     list_all2 (lru_abs hash) (lrus s) ess \<and>
     (\<forall>i < length ess. \<forall>e \<in> set (ess ! i). shardOf s (hash (fst e)) = i)"

lemma shardOf_less:
  assumes "sharded_abs hash s ess"
  shows "shardOf s h < length (lrus s)"
  using assms and_mask_less by (auto simp: sharded_abs_def shardOf_def)

lemma shard_split:
  assumes "a \<le> 31" "n = (if m = 0 then 1 else m)" "pow2_or_0 m" "m \<le> 2 ^ a div 16"
    "0 < c" "c \<le> 2 ^ a"
  shows "\<exists>b \<le> 27. n = 2 ^ b \<and> 2 ^ a div n = 2 ^ (a - b) \<and> (c + n - 1) mod 2 ^ 32 = c + n - 1 \<and>
     0 < (c + n - 1) div n \<and> (c + n - 1) div n \<le> 2 ^ (a - b) \<and> c \<le> n * ((c + n - 1) div n)"
proof -
  obtain b where b: "n = 2 ^ b" "b \<le> a" "b \<le> 27"
  proof (cases "m = 0")
    case True
    then show ?thesis using assms(2) by (intro that [of 0]) simp_all
  next
    case False
    then obtain b where m: "m = 2 ^ b" using assms(3) by (auto simp: pow2_or_0_def)
    with assms(4) have "(2 :: nat) ^ b * 2 ^ 4 \<le> 2 ^ a" by simp
    then have "(2 :: nat) ^ (b + 4) \<le> 2 ^ a" by (simp only: power_add)
    then have "b + 4 \<le> a" by (simp only: power_increasing_iff)
    with assms(1,2) False m show ?thesis by (intro that [of b]) simp_all
  qed
  have split: "2 ^ a = n * 2 ^ (a - b)" using b by (simp flip: power_add)
  have n0: "0 < n" using b by simp
  have "n \<le> 2 ^ 27" using b power_increasing [of b 27 "2 :: nat"] by simp
  moreover have "c \<le> 2 ^ 31" using assms(1,6) power_increasing [of a 31 "2 :: nat"] by linarith
  ultimately have no: "(c + n - 1) mod 2 ^ 32 = c + n - 1" by simp
  have pos: "0 < (c + n - 1) div n" using assms(5) n0 by (simp add: div_greater_zero_iff)
  have "c + n - 1 < n * (2 ^ (a - b) + 1)" using assms(5,6) split n0 by simp
  then have up: "(c + n - 1) div n \<le> 2 ^ (a - b)"
    by (metis Suc_eq_plus1 less_mult_imp_div_less less_Suc_eq_le mult.commute)
  have "c + n - 1 < n * ((c + n - 1) div n) + n" using dividend_less_times_div [OF n0, of "c + n - 1"] by simp
  then have "c \<le> n * ((c + n - 1) div n)" by simp
  with b split no pos up n0 show ?thesis by (intro exI [of _ b]) simp
qed


lemma NewShardedWithSize_ok:
  assumes "0 < c" "c \<le> sz" "sz \<le> 2 ^ 31"
  shows "\<exists>s. NewShardedWithSize n0 c sz k v = Inr s \<and> sharded_abs hash s (replicate (shards s) []) \<and>
     (\<forall>l \<in> set (lrus s). c \<le> shards s * cap l)"
proof -
  define z where "z = (if sz < 2 ^ 31 then unat (nextPowerOfTwo (word_of_nat sz)) else 2 ^ 31)"
  obtain a where a: "a \<le> 31" "z = 2 ^ a" "c \<le> 2 ^ a"
  proof (cases "sz < 2 ^ 31")
    case True
    then have u: "unat (word_of_nat sz :: u32) = sz" by (simp add: unat_of_nat)
    obtain a where "a \<le> 31" "unat (nextPowerOfTwo (word_of_nat sz)) = 2 ^ a" "sz \<le> 2 ^ a"
      using nextPowerOfTwo_ok [of "word_of_nat sz"] True u by metis
    with assms(2) True show ?thesis by (intro that [of a]) (simp_all add: z_def)
  next
    case False
    with assms show ?thesis by (intro that [of 31]) (simp_all add: z_def)
  qed
  define m where "m = shrinkShards (unat (nextPowerOfTwo (word_of_nat n0))) z"
  define n where "n = (if m = 0 then 1 else m)"
  have m: "pow2_or_0 m" "m \<le> 2 ^ a div 16"
    using shrinkShards_ok [OF nextPowerOfTwo_pow2] a(2) by (simp_all add: m_def)
  obtain b where b: "b \<le> 27" "n = 2 ^ b" "2 ^ a div n = 2 ^ (a - b)" "(c + n - 1) mod 2 ^ 32 = c + n - 1"
    "0 < (c + n - 1) div n" "(c + n - 1) div n \<le> 2 ^ (a - b)" "c \<le> n * ((c + n - 1) div n)"
    using shard_split [OF a(1) n_def m assms(1) a(3)] by blast
  let ?c = "(c + n - 1) div n" and ?z = "2 ^ (a - b) :: nat"
  let ?l = "initLRU ?c ?z k v (replicate ?z 0) (replicate ?z (zeroElement k v))"
  let ?s = "\<lparr>lrus = replicate n ?l, shards = n, smask = word_of_nat n - 1\<rparr>"
  have run: "NewShardedWithSize n0 c sz k v = Inr ?s"
    using assms b(3-5)
    unfolding NewShardedWithSize_def z_def [symmetric] m_def [symmetric] n_def [symmetric] Let_def a(2) [symmetric]
    by (simp add: a(2))
  have "?z \<le> 2 ^ 31" using a(1) by (intro power_increasing) simp_all
  then have "lru_abs hash ?l []" using b(5,6) by (intro initLRU_abs) (simp_all add: emptyBucket_def)
  then have "sharded_abs hash ?s (replicate n [])"
    using b(1,2) by (auto simp: sharded_abs_def list_all2_conv_all_nth intro!: exI [of _ b])
  moreover have "cap ?l = ?c" by (simp add: initLRU_def)
  ultimately show ?thesis using run b(7) by (intro exI [of _ ?s]) auto
qed

section \<open>Refinement of the abstract cache, shard by shard\<close>

lemma sharded_upd:
  assumes abs: "sharded_abs hash s ess" and l: "lru_abs hash l es" and i: "i < length (lrus s)"
    and keys: "\<And>e. e \<in> set es \<Longrightarrow> shardOf s (hash (fst e)) = i"
  shows "sharded_abs hash (s\<lparr>lrus := (lrus s)[i := l]\<rparr>) (ess[i := es])"
proof -
  have "shardOf (s\<lparr>lrus := m\<rparr>) = shardOf s" for m by (simp add: shardOf_def fun_eq_iff)
  moreover have "list_all2 (lru_abs hash) ((lrus s)[i := l]) (ess[i := es])"
    using abs l by (auto simp: sharded_abs_def intro!: list_all2_update_cong)
  moreover have "shardOf s (hash (fst e)) = j" if "j < length ess" "e \<in> set (ess[i := es] ! j)" for j e
    using that keys abs by (cases "i = j") (auto simp: sharded_abs_def)
  ultimately show ?thesis using abs by (auto simp: sharded_abs_def)
qed

lemma sharded_nth:
  assumes "sharded_abs hash s ess" "i < length (lrus s)"
  shows "lru_abs hash (lrus s ! i) (ess ! i)" "\<And>e. e \<in> set (ess ! i) \<Longrightarrow> shardOf s (hash (fst e)) = i"
    "i < length ess"
  using assms by (auto simp: sharded_abs_def list_all2_conv_all_nth)

lemma a_get_keys: "a_get now es k = (es', r) \<Longrightarrow> e \<in> set es' \<Longrightarrow> fst e \<in> fst ` set es"
  by (auto simp: a_get_def a_del_def split: option.splits if_splits prod.splits
      dest!: map_of_SomeD intro: rev_image_eqI)

lemma a_add_keys: "a_add now c es k v d = (es', r) \<Longrightarrow> e \<in> set es' \<Longrightarrow> fst e = k \<or> fst e \<in> fst ` set es"
  by (auto simp: a_add_def a_del_def Let_def split: if_splits dest!: in_set_tlD)

lemma sGet_refines:
  assumes abs: "sharded_abs hash s ess" and i: "i = shardOf s (hash k)"
    and get: "a_get now (ess ! i) k = (es', r)"
  shows "\<exists>s'. sGet hash now s k = Some (s', r) \<and> sharded_abs hash s' (ess[i := es'])"
proof -
  have il: "i < length (lrus s)" using shardOf_less [OF abs] i by simp
  note nth = sharded_nth [OF abs il]
  obtain l' where l': "FreeLRU.get now (lrus s ! i) (hash k) k = Some (l', r)" "lru_abs hash l' es'"
    using get_refines [OF nth(1) get] by blast
  have "shardOf s (hash (fst e)) = i" if "e \<in> set es'" for e
    using a_get_keys [OF get that] nth(2) by auto
  from sharded_upd [OF abs l'(2) il this] show ?thesis
    using l'(1) il i by (simp add: sGet_def)
qed

lemma sAdd_refines:
  assumes abs: "sharded_abs hash s ess" and i: "i = shardOf s (hash k)"
    and add: "a_add now (cap (lrus s ! i)) (ess ! i) k v d = (es', r)"
  shows "\<exists>s'. sAddWithLifetime hash now s k v d = Some (s', r) \<and> sharded_abs hash s' (ess[i := es'])"
proof -
  have il: "i < length (lrus s)" using shardOf_less [OF abs] i by simp
  note nth = sharded_nth [OF abs il]
  obtain l' where l': "addWithLifetime now (lrus s ! i) (hash k) k v d = Some (l', r)" "lru_abs hash l' es'"
    using add_refines [OF nth(1) add] by blast
  have "shardOf s (hash (fst e)) = i" if "e \<in> set es'" for e
    using a_add_keys [OF add that] nth(2) i by auto
  from sharded_upd [OF abs l'(2) il this] show ?thesis
    using l'(1) il i by (simp add: sAddWithLifetime_def)
qed


section \<open>The cache contract\<close>

text \<open>What a client may assume of a cache: \<open>look\<close> is the content, a value with its expiry
  time. Adding a key stores it and may drop others (eviction) but never changes them;
  getting a key returns the stored value unless it has expired, in which case the entry is
  dropped. Both always return.\<close>

definition live :: "int \<Rightarrow> ('v \<times> int) option \<Rightarrow> 'v option" where
  "live now e = (case e of None \<Rightarrow> None | Some (v, x) \<Rightarrow> if expired now x then None else Some v)"

fun last_added :: "('k, 'v) cache_op list \<Rightarrow> 'k \<Rightarrow> ('v \<times> int) option" where
  "last_added [] k = None"
| "last_added (OpAdd now k' v d # ops) k =
     (case last_added ops k of Some e \<Rightarrow> Some e
      | None \<Rightarrow> if k' = k then Some (v, expireAt now d) else None)"
| "last_added (OpGet now k' # ops) k = last_added ops k"

locale cache =
  fixes add :: "int \<Rightarrow> 's \<Rightarrow> 'k \<Rightarrow> 'v \<Rightarrow> duration \<Rightarrow> ('s \<times> bool) option"
    and get :: "int \<Rightarrow> 's \<Rightarrow> 'k \<Rightarrow> ('s \<times> 'v option) option"
    and look :: "'s \<Rightarrow> 'k \<Rightarrow> ('v \<times> int) option"
    and inv :: "'s \<Rightarrow> bool"
  assumes add_law: "inv s \<Longrightarrow> \<exists>s' b. add now s k v d = Some (s', b) \<and> inv s' \<and>
      look s' k = Some (v, expireAt now d) \<and>
      (\<forall>k'. k' \<noteq> k \<longrightarrow> look s' k' = look s k' \<or> look s' k' = None)"
    and get_law: "inv s \<Longrightarrow> \<exists>s'. get now s k = Some (s', live now (look s k)) \<and> inv s' \<and>
      (\<forall>k'. look s' k' = (if k' = k \<and> live now (look s k) = None then None else look s k'))"
begin

lemma get_after_add:
  assumes "inv s" "\<not> expired now' (expireAt now d)"
  shows "\<exists>s' b s''. add now s k v d = Some (s', b) \<and> get now' s' k = Some (s'', Some v)"
proof -
  obtain s' b where s': "add now s k v d = Some (s', b)" "inv s'" "look s' k = Some (v, expireAt now d)"
    using add_law [OF assms(1)] by metis
  then show ?thesis using get_law [OF s'(2), of now' k] assms(2) by (auto simp: live_def)
qed

lemma run_sound:
  assumes "inv s"
  shows "\<exists>s' outs. run_ops add get ops s = Some (s', outs) \<and> inv s' \<and>
    (\<forall>k. look s' k = None \<or> look s' k = last_added ops k \<or> last_added ops k = None \<and> look s' k = look s k)"
  using assms
proof (induction ops arbitrary: s)
  case Nil
  then show ?case by simp
next
  case (Cons op ops)
  show ?case
  proof (cases op)
    case (OpAdd now k v d)
    obtain s1 b where s1: "add now s k v d = Some (s1, b)" "inv s1"
      "look s1 k = Some (v, expireAt now d)"
      "\<And>k'. k' \<noteq> k \<Longrightarrow> look s1 k' = look s k' \<or> look s1 k' = None"
      using add_law [OF Cons.prems] by metis
    obtain s' outs where s': "run_ops add get ops s1 = Some (s', outs)" "inv s'" "\<And>k. look s' k = None \<or>
        look s' k = last_added ops k \<or> last_added ops k = None \<and> look s' k = look s1 k"
      using Cons.IH [OF s1(2)] by blast
    have "look s' k' = None \<or> look s' k' = last_added (op # ops) k' \<or>
        last_added (op # ops) k' = None \<and> look s' k' = look s k'" for k'
      using s'(3) [of k'] s1(3) s1(4) [of k'] OpAdd by (cases "k' = k") (auto split: option.splits)
    with s1(1) s' OpAdd show ?thesis by auto
  next
    case (OpGet now k)
    obtain s1 r where s1: "get now s k = Some (s1, r)" "inv s1"
      "\<And>k'. look s1 k' = look s k' \<or> look s1 k' = None"
      using get_law [OF Cons.prems, of now k] by metis
    obtain s' outs where s': "run_ops add get ops s1 = Some (s', outs)" "inv s'" "\<And>k. look s' k = None \<or>
        look s' k = last_added ops k \<or> last_added ops k = None \<and> look s' k = look s1 k"
      using Cons.IH [OF s1(2)] by blast
    have "look s' k' = None \<or> look s' k' = last_added (op # ops) k' \<or>
        last_added (op # ops) k' = None \<and> look s' k' = look s k'" for k'
      using s'(3) [of k'] s1(3) [of k'] OpGet by auto
    with s1(1) s' OpGet show ?thesis by auto
  qed
qed

lemma get_sound:
  assumes "inv s" "\<And>k. look s k = None" "run_ops add get ops s = Some (s1, outs)" "get now s1 k = Some (s2, Some v)"
  shows "\<exists>x. last_added ops k = Some (v, x) \<and> \<not> expired now x"
proof -
  have s1: "inv s1" "look s1 k = None \<or> look s1 k = last_added ops k"
    using run_sound [OF assms(1), of ops] assms(2,3) by auto
  have "live now (look s1 k) = Some v" using get_law [OF s1(1), of now k] assms(4) by auto
  with s1(2) show ?thesis by (cases "last_added ops k") (auto simp: live_def split: if_splits)
qed

end


definition lookL :: "('k, 'v) LRU \<Rightarrow> 'k \<Rightarrow> ('v \<times> int) option" where
  "lookL l = map_of (map (ents (elements l)) [0..<len l])"

definition sLook :: "('k \<Rightarrow> u32) \<Rightarrow> ('k, 'v) ShardedLRU \<Rightarrow> 'k \<Rightarrow> ('v \<times> int) option" where
  "sLook hash s k = lookL (lrus s ! shardOf s (hash k)) k"

definition sInv :: "('k \<Rightarrow> u32) \<Rightarrow> ('k, 'v) ShardedLRU \<Rightarrow> bool" where
  "sInv hash s \<longleftrightarrow> (\<exists>ess. sharded_abs hash s ess)"

lemma lookL_abs:
  assumes "lru_abs hash l es"
  shows "lookL l = map_of es"
proof -
  obtain ts where ts: "lru_ok hash l {..<len l} ts" "es = map (ents (elements l)) ts"
    using assms by (auto simp: lru_abs_def)
  have "set ts = {..<len l}" and inj: "inj_on (\<lambda>i. fst (ents (elements l) i)) {..<len l}"
    using lru_okD(5,9) [OF ts(1)] by auto
  then have "set (map (ents (elements l)) [0..<len l]) = set es" using ts(2) by (auto simp: lessThan_atLeast0)
  moreover have "distinct (map fst (map (ents (elements l)) [0..<len l]))"
    using inj by (simp add: distinct_map comp_def lessThan_atLeast0)
  ultimately show ?thesis
    using lru_abs_distinct [OF assms] by (simp add: lookL_def map_of_inject_set del: set_map)
qed

lemma sLook_abs:
  assumes "sharded_abs hash s ess"
  shows "sLook hash s k = map_of (ess ! shardOf s (hash k)) k"
  using lookL_abs [OF sharded_nth(1) [OF assms shardOf_less [OF assms, of "hash k"]]]
  by (simp add: sLook_def)

lemma map_of_del: "map_of (a_del k es) k' = (if k' = k then None else map_of es k')"
  by (induction es) (auto simp: a_del_def)

lemma a_get_look:
  assumes "a_get now es k = (es', r)"
  shows "r = live now (map_of es k) \<and>
    map_of es' k' = (if k' = k \<and> live now (map_of es k) = None then None else map_of es k')"
  using assms
  by (auto simp: a_get_def live_def map_of_del map_add_def split: option.splits if_splits prod.splits)

lemma a_add_look:
  assumes "a_add now c es k v d = (es', r)" "distinct (map fst es)"
  shows "map_of es' k = Some (v, expireAt now d) \<and>
    (k' \<noteq> k \<longrightarrow> map_of es' k' = map_of es k' \<or> map_of es' k' = None)"
proof -
  have k: "map_of es k = None" if "k \<notin> fst ` set es" using that by (simp add: map_of_eq_None_iff)
  have "map_of es k' = map_of (tl es) k' \<or> map_of (tl es) k' = None"
    using assms(2) by (cases es) (auto simp: map_of_eq_None_iff)
  moreover have "map_of (tl es) k = None" if "k \<notin> fst ` set es"
    using that by (cases es) (auto simp: map_of_eq_None_iff)
  ultimately show ?thesis using assms(1) k
    by (auto simp: a_add_def Let_def map_of_del map_add_def split: if_splits option.splits)
qed

lemma sLook_upd:
  assumes abs: "sharded_abs hash s ess" "sharded_abs hash s' (ess[i := es'])"
    and i: "i = shardOf s (hash k)" and same: "shardOf s' = shardOf s"
  shows "sLook hash s' k' = (if shardOf s (hash k') = i then map_of es' k' else sLook hash s k')"
proof -
  have "shardOf s (hash k') < length ess"
    using sharded_nth(3) [OF abs(1) shardOf_less [OF abs(1)]] .
  then show ?thesis using sLook_abs [OF abs(2), of k'] sLook_abs [OF abs(1), of k'] same
    by (auto simp: nth_list_update)
qed

lemma sShard_kept:
  "sGet hash now s k = Some (s', r) \<Longrightarrow> shardOf s' = shardOf s"
  "sAddWithLifetime hash now s k v d = Some (s', b) \<Longrightarrow> shardOf s' = shardOf s"
  by (auto simp: sGet_def sAddWithLifetime_def shardOf_def fun_eq_iff Let_def res_iff split: if_splits)

lemma sAdd_law:
  assumes "sInv hash s"
  shows "\<exists>s' b. sAddWithLifetime hash now s k v d = Some (s', b) \<and> sInv hash s' \<and>
      sLook hash s' k = Some (v, expireAt now d) \<and>
      (\<forall>k'. k' \<noteq> k \<longrightarrow> sLook hash s' k' = sLook hash s k' \<or> sLook hash s' k' = None)"
proof -
  obtain ess where abs: "sharded_abs hash s ess" using assms by (auto simp: sInv_def)
  define i where "i = shardOf s (hash k)"
  obtain es' b where add: "a_add now (cap (lrus s ! i)) (ess ! i) k v d = (es', b)" by force
  obtain s' where s': "sAddWithLifetime hash now s k v d = Some (s', b)" "sharded_abs hash s' (ess[i := es'])"
    using sAdd_refines [OF abs i_def add] by blast
  have "distinct (map fst (ess ! i))"
    using lru_abs_distinct [OF sharded_nth(1) [OF abs shardOf_less [OF abs, of "hash k"]]] i_def by simp
  note look = a_add_look [OF add this] and upd = sLook_upd [OF abs s'(2) i_def sShard_kept(2) [OF s'(1)]]
  have "sLook hash s' k = Some (v, expireAt now d)" using look upd [of k] by (simp add: i_def)
  moreover have "sLook hash s' k' = sLook hash s k' \<or> sLook hash s' k' = None" if "k' \<noteq> k" for k'
    using look [of k'] upd [of k'] that sLook_abs [OF abs, of k'] by auto
  ultimately show ?thesis using s' by (auto simp: sInv_def)
qed

lemma sGet_law:
  assumes "sInv hash s"
  shows "\<exists>s'. sGet hash now s k = Some (s', live now (sLook hash s k)) \<and> sInv hash s' \<and>
      (\<forall>k'. sLook hash s' k' =
        (if k' = k \<and> live now (sLook hash s k) = None then None else sLook hash s k'))"
proof -
  obtain ess where abs: "sharded_abs hash s ess" using assms by (auto simp: sInv_def)
  define i where "i = shardOf s (hash k)"
  obtain es' r where get: "a_get now (ess ! i) k = (es', r)" by force
  obtain s' where s': "sGet hash now s k = Some (s', r)" "sharded_abs hash s' (ess[i := es'])"
    using sGet_refines [OF abs i_def get] by blast
  note look = a_get_look [OF get] and upd = sLook_upd [OF abs s'(2) i_def sShard_kept(1) [OF s'(1)]]
  have "r = live now (sLook hash s k)" using look sLook_abs [OF abs, of k] by (simp add: i_def)
  moreover have "sLook hash s' k' =
      (if k' = k \<and> live now (sLook hash s k) = None then None else sLook hash s k')" for k'
    using look [of k'] upd [of k'] sLook_abs [OF abs, of k'] sLook_abs [OF abs, of k]
    by (auto simp: i_def)
  ultimately show ?thesis using s' by (auto simp: sInv_def)
qed

interpretation sharded: cache "sAddWithLifetime hash" "sGet hash" "sLook hash" "sInv hash" for hash
  by unfold_locales (rule sAdd_law sGet_law, assumption)+

lemma NewSharded_inv:
  assumes "NewSharded procs c k v = Inr s" "c \<le> 1717986918"
  shows "sInv hash s \<and> sLook hash s k' = None"
proof -
  have c: "0 < c" "c \<le> c * 5 div 4" using assms(1)
    by (auto simp: NewSharded_def NewShardedWithSize_def split: if_splits)
  have z: "c * 5 div 4 mod 2 ^ 32 = c * 5 div 4" "c * 5 div 4 \<le> 2 ^ 31" using assms(2) by simp_all
  have abs: "sharded_abs hash s (replicate (shards s) [])"
    using NewShardedWithSize_ok [OF c z(2), of "procs * 16 mod 2 ^ 32" k v hash] assms(1) z(1)
    by (auto simp: NewSharded_def)
  then have "length (lrus s) = shards s" by (simp add: sharded_abs_def)
  with abs show ?thesis
    using sLook_abs [OF abs, of k'] shardOf_less [OF abs, of "hash k'"] by (auto simp: sInv_def)
qed

section \<open>Properties\<close>

text \<open>
  C1. The array-and-links implementation of the LRU cache refines the list of entries: from
  the cache that \<^verbatim>\<open>New\<close> builds, every sequence of \<^verbatim>\<open>AddWithLifetime\<close> and \<^verbatim>\<open>Get\<close> calls returns (no
  panic, no endless bucket walk), yields exactly the eviction flags and the results of the
  abstract LRU cache of the same capacity, and ends in a state that represents the abstract
  one, for every hash function.
\<close>

theorem lru_trace_refines:
  assumes "New c k0 v0 = Inr l" "c < 2 ^ 32"
  shows "\<exists>l' es' outs. run_ops (AddWithLifetime hash) (Get hash) ops l = Some (l', outs) \<and>
    abs_run c ops [] = Some (es', outs) \<and> lru_abs hash l' es' \<and> length es' \<le> c"
proof -
  have l: "0 < c" "c < emptyBucket" "l = initLRU c c k0 v0 (replicate c 0) (replicate c (zeroElement k0 v0))"
    using assms by (auto simp: New_def NewWithSize_def emptyBucket_def split: if_splits)
  then have init: "lru_abs hash l []" "cap l = c" using initLRU_abs [of c c hash k0 v0] by simp_all (simp add: initLRU_def)
  obtain es' outs where a: "abs_run c ops [] = Some (es', outs)" using abs_run_total by blast
  with l(1) run_refines [OF init a] run_cap [of c ops "[]" es' outs] show ?thesis by auto
qed


theorem lru_trace_refines_witness:
  "\<exists>l l'. New 1 (0 :: nat) (0 :: nat) = Inr l \<and>
    run_ops (AddWithLifetime (\<lambda>_. 7)) (Get (\<lambda>_. 7))
      [OpAdd 0 5 50 0, OpAdd 0 6 60 millisecond, OpGet 0 5, OpGet 0 6, OpGet 1 6] l =
    Some (l', [Evicted False, Evicted True, Got None, Got (Some 60), Got None])"
proof -
  obtain l where l: "New 1 (0 :: nat) (0 :: nat) = Inr l"
    by (auto simp: New_def NewWithSize_def emptyBucket_def)
  show ?thesis
    using l lru_trace_refines [OF l, of "\<lambda>_. 7"
      "[OpAdd 0 5 50 0, OpAdd 0 6 60 millisecond, OpGet 0 5, OpGet 0 6, OpGet 1 6]"]
    by (auto simp: abs_run_def a_add_def a_get_def a_del_def expireAt_def millisecond_def expired_def)
qed

text \<open>
  C2. The sharded cache never returns a stale or a foreign value: after any sequence of
  operations on a fresh cache, all of which return, a lookup returns, and a value it yields
  is the one most recently added under that very key, not yet expired. This holds for every
  hash function and number of processors.
\<close>

theorem sharded_get_sound:
  assumes "NewSharded procs c k0 v0 = Inr s" "c \<le> 1717986918"
  shows "\<exists>s1 outs s2 r. run_ops (sAddWithLifetime hash) (sGet hash) ops s = Some (s1, outs) \<and>
    sGet hash now s1 k = Some (s2, r) \<and>
    (\<forall>v. r = Some v \<longrightarrow> (\<exists>x. last_added ops k = Some (v, x) \<and> \<not> expired now x))"
proof -
  have s: "sInv hash s" "\<And>k'. sLook hash s k' = None" using NewSharded_inv [OF assms] by blast+
  obtain s1 outs where s1: "run_ops (sAddWithLifetime hash) (sGet hash) ops s = Some (s1, outs)" "sInv hash s1"
    using sharded.run_sound [OF s(1)] by blast
  then obtain s2 r where "sGet hash now s1 k = Some (s2, r)" using sGet_law [OF s1(2)] by blast
  with s1(1) sharded.get_sound [OF s s1(1), of now k s2] show ?thesis by auto
qed

theorem sharded_get_sound_witness:
  "\<exists>s s1 outs s2 r. NewSharded 4 1 (0 :: nat) (0 :: nat) = Inr s \<and>
    run_ops (sAddWithLifetime (\<lambda>_. 9)) (sGet (\<lambda>_. 9)) [OpAdd 0 5 50 0, OpAdd 3 6 60 0] s = Some (s1, outs) \<and>
    sGet (\<lambda>_. 9) 4 s1 5 = Some (s2, r) \<and> (\<forall>v. r = Some v \<longrightarrow> v = 50)"
proof -
  obtain s where s: "NewSharded 4 1 (0 :: nat) (0 :: nat) = Inr s"
    by (auto simp: NewSharded_def NewShardedWithSize_def Let_def)
  show ?thesis
    using s sharded_get_sound [OF s, of "\<lambda>_. 9" "[OpAdd 0 5 50 0, OpAdd 3 6 60 0]" 4 5] by auto
qed

text \<open>
  C3. A value just added is found: in any state a fresh sharded cache can reach, adding a
  key and looking it up before its lifetime ends yields the added value, however full the
  cache is and whatever its keys collide with.
\<close>

theorem sharded_get_after_add:
  assumes "NewSharded procs c k0 v0 = Inr s" "c \<le> 1717986918"
    and "run_ops (sAddWithLifetime hash) (sGet hash) ops s = Some (s1, outs)"
    and "\<not> expired now' (expireAt now d)"
  shows "\<exists>s2 b s3. sAddWithLifetime hash now s1 k v d = Some (s2, b) \<and> sGet hash now' s2 k = Some (s3, Some v)"
proof -
  have "sInv hash s1" using sharded.run_sound [of hash s ops] NewSharded_inv [OF assms(1,2)] assms(3) by auto
  from sharded.get_after_add [OF this assms(4)] show ?thesis .
qed

theorem sharded_get_after_add_witness:
  "\<exists>s s2 b s3. NewSharded 4 1 (0 :: nat) (0 :: nat) = Inr s \<and>
    sAddWithLifetime (\<lambda>_. 9) 100 s 5 50 second = Some (s2, b) \<and> sGet (\<lambda>_. 9) 1099 s2 5 = Some (s3, Some 50)"
proof -
  obtain s where s: "NewSharded 4 1 (0 :: nat) (0 :: nat) = Inr s"
    by (auto simp: NewSharded_def NewShardedWithSize_def Let_def)
  show ?thesis
    using s sharded_get_after_add [OF s, of "\<lambda>_. 9" "[]" s "[]" 1099 100 second 5 50]
    by (auto simp: expired_def expireAt_def second_def millisecond_def)
qed

end
