(* ===== verification/DNS_Client.thy ===== *)
theory DNS_Client
  imports Go_Net Effects
begin

text \<open>
  The clients that send a DNS query to one upstream server (\<^verbatim>\<open>core/dns.go\<close>): the UDP client that
  waits for replies after the first one, DNS over HTTPS and DNS over QUIC. Messages are records
  of the fields the code reads. What the libraries below do (packing of messages, sockets, HTTP,
  QUIC) and what the network answers are arguments.
\<close>

section \<open>Messages\<close>

datatype EDNS0 = EDNS0_SUBNET nat nat netIP | EDNS0_Other nat

definition EDNS0SUBNET :: nat where "EDNS0SUBNET = 8"

fun Option_code :: "EDNS0 \<Rightarrow> nat" where
  "Option_code (EDNS0_SUBNET _ _ _) = EDNS0SUBNET"
| "Option_code (EDNS0_Other c) = c"

text \<open>Resource records; the UDP payload size of an \<^verbatim>\<open>OPT\<close> record is the class in its header.\<close>

record RR_Header =
  Name :: string
  Rrtype :: nat
  Class :: nat
  Ttl :: nat

datatype RR = RR_A (Header: RR_Header) "netIP option" | RR_AAAA (Header: RR_Header) "netIP option"
  | RR_OPT (Header: RR_Header) "EDNS0 list" | RR_Other (Header: RR_Header)

definition newHeader :: "string \<Rightarrow> nat \<Rightarrow> RR_Header" where
  "newHeader name rrtype = \<lparr>Name = name, Rrtype = rrtype, Class = 0, Ttl = 0\<rparr>"

record Question =
  QName :: string
  Qtype :: nat
  Qclass :: nat

record Msg =
  Id :: nat
  Rcode :: nat
  Questions :: "Question list"
  Answer :: "RR list"
  Ns :: "RR list"
  Extra :: "RR list"

definition newMsg :: Msg where
  "newMsg = \<lparr>Id = 0, Rcode = 0, Questions = [], Answer = [], Ns = [], Extra = []\<rparr>"

fun pickFirstARecord :: "RR list \<Rightarrow> netIP option" where
  "pickFirstARecord [] = None"
| "pickFirstARecord (RR_A _ ip # _) = ip"
| "pickFirstARecord (_ # rrs) = pickFirstARecord rrs"

fun pickFirstAAAARecord :: "RR list \<Rightarrow> netIP option" where
  "pickFirstAAAARecord [] = None"
| "pickFirstAAAARecord (RR_AAAA _ ip # _) = ip"
| "pickFirstAAAARecord (_ # rrs) = pickFirstAAAARecord rrs"

definition hasEDNS0Subnet :: "Msg \<Rightarrow> bool" where
  "hasEDNS0Subnet resp =
     list_ex (\<lambda>rr. case rr of RR_OPT _ opts \<Rightarrow> list_ex (\<lambda>o'. Option_code o' = EDNS0SUBNET) opts | _ \<Rightarrow> False) (Extra resp)"

section \<open>The client that waits out injected replies\<close>

text \<open>The fields of the library's client that are read; \<open>dialerTimeout\<close> is absent without a dialer.\<close>

record dnsClient =
  Net :: string
  UDPSize :: nat
  Timeout :: duration
  ReadTimeout :: duration
  WriteTimeout :: duration
  dialerTimeout :: "duration option"

record antiHijackDNSClient = dnsClient +
  waitTimeout :: duration
  minRTT :: duration

definition dnsRWTimeout :: duration where "dnsRWTimeout = 2 * second"

definition readTimeout :: "antiHijackDNSClient \<Rightarrow> duration" where
  "readTimeout c = (if Timeout c \<noteq> 0 then Timeout c else if ReadTimeout c \<noteq> 0 then ReadTimeout c else dnsRWTimeout)"

definition writeTimeout :: "antiHijackDNSClient \<Rightarrow> duration" where
  "writeTimeout c = (if Timeout c \<noteq> 0 then Timeout c else if WriteTimeout c \<noteq> 0 then WriteTimeout c else dnsRWTimeout)"

definition getTimeoutForRequest :: "antiHijackDNSClient \<Rightarrow> duration \<Rightarrow> duration" where
  "getTimeoutForRequest c timeout =
     (let requestTimeout = (if Timeout c \<noteq> 0 then Timeout c else timeout) in
      case dialerTimeout c of
        None \<Rightarrow> requestTimeout
      | Some d \<Rightarrow> if d \<noteq> 0 \<and> d < requestTimeout then d else requestTimeout)"

definition MinMsgSize :: nat where "MinMsgSize = 512"

text \<open>The payload size of the connection, from the query's \<^verbatim>\<open>OPT\<close> record or else from the client.\<close>

definition connUDPSize :: "antiHijackDNSClient \<Rightarrow> nat option \<Rightarrow> nat \<Rightarrow> nat" where
  "connUDPSize c opt dflt = (case opt of
       Some sz \<Rightarrow> if sz \<ge> MinMsgSize then sz else dflt
     | None \<Rightarrow> if UDPSize c \<ge> MinMsgSize then UDPSize c else dflt)"

definition connDeadlines :: "antiHijackDNSClient \<Rightarrow> int \<Rightarrow> int option \<Rightarrow> int \<times> int" where
  "connDeadlines c t deadline =
     (let wd = t + getTimeoutForRequest c (writeTimeout c);
          rd = t + getTimeoutForRequest c (readTimeout c);
          wd = (case deadline of Some d \<Rightarrow> if d < wd then d else wd | None \<Rightarrow> wd);
          rd = (case deadline of Some d \<Rightarrow> if d < rd then d else rd | None \<Rightarrow> rd);
          rd = (if waitTimeout c \<noteq> 0 then let w = t + waitTimeout c in if w < rd then w else rd else rd)
      in (wd, rd))"

text \<open>The reading loop. The list holds what the successive reads give, each with the time since the
  query; \<open>kept\<close> is the reply to keep so far with its number of records. The result is the
  message returned or the error; a list that ends before the loop does means the loop is still
  waiting.\<close>

fun antiLoop :: "antiHijackDNSClient \<Rightarrow> bool \<Rightarrow> nat \<Rightarrow> (Msg option \<times> nat \<times> duration) \<Rightarrow> duration \<Rightarrow>
    (Msg res \<times> duration) list \<Rightarrow> (Msg \<times> duration) res option" where
  "antiLoop c edns0 qid kept since [] = None"
| "antiLoop c edns0 qid (bestR, bestCount, bestRTT) since ((r, curRTT) # reads) = (case r of
       Inl e \<Rightarrow> Some (case bestR of Some m \<Rightarrow> Inr (m, bestRTT) | None \<Rightarrow> Inl e)
     | Inr m \<Rightarrow>
         if minRTT c \<noteq> 0 \<and> curRTT < minRTT c then antiLoop c edns0 qid (bestR, bestCount, bestRTT) since reads
         else if Id m = qid \<and> (waitTimeout c \<le> 0 \<or> edns0 \<and> hasEDNS0Subnet m) then Some (Inr (m, curRTT))
         else
           let count = length (Answer m) + length (Ns m) + length (Extra m);
               kept' = (if Id m = qid \<and> count \<ge> bestCount then (Some m, count, curRTT) else (bestR, bestCount, bestRTT))
           in if waitTimeout c > 0 \<and> curRTT \<ge> waitTimeout c
              then Some (case kept' of (Some m', _, rtt) \<Rightarrow> Inr (m', rtt) | (None, _, _) \<Rightarrow> Inr (m, since))
              else antiLoop c edns0 qid kept' since reads)"

text \<open>What the network does with a query sent over a connection with given payload size and
  deadlines: whether it could be written, what the reads give, and the time at the end.\<close>

record conversation =
  writeErr :: "err option"
  replies :: "(Msg res \<times> duration) list"
  endTime :: duration

definition ExchangeWithConnContext ::
    "antiHijackDNSClient \<Rightarrow> bool \<Rightarrow> nat option \<Rightarrow> int option \<Rightarrow> int \<Rightarrow> Msg \<Rightarrow> (nat \<Rightarrow> int \<Rightarrow> int \<Rightarrow> conversation) \<Rightarrow>
     (Msg \<times> duration) res option" where
  "ExchangeWithConnContext c edns0 opt deadline t m co =
     (let size = connUDPSize c opt 0; (wd, rd) = connDeadlines c t deadline; talk = co size wd rd in
      case writeErr talk of
        Some e \<Rightarrow> Some (Inl e)
      | None \<Rightarrow> antiLoop c edns0 (Id m) (None, 0, 0) (endTime talk) (replies talk))"

definition antiExchange ::
    "antiHijackDNSClient \<Rightarrow> bool \<Rightarrow> nat option \<Rightarrow> int \<Rightarrow> Msg \<Rightarrow> (nat \<Rightarrow> int \<Rightarrow> int \<Rightarrow> conversation) res \<Rightarrow>
     (Msg \<times> duration) res option" where
  "antiExchange c edns0 opt t m dialled = (case dialled of
       Inl e \<Rightarrow> Some (Inl e)
     | Inr co \<Rightarrow> ExchangeWithConnContext c edns0 opt None t m co)"

section \<open>DNS over HTTPS\<close>

text \<open>\<^verbatim>\<open>base64.RawURLEncoding\<close>: six bits at a time, without padding.\<close>

definition b64Char :: "nat \<Rightarrow> char" where
  "b64Char n = (if n < 26 then char_of (65 + n) else if n < 52 then char_of (71 + n)
     else if n < 62 then char_of (n - 4) else if n = 62 then CHR ''-'' else CHR ''_'')"

fun base64url :: "nat list \<Rightarrow> string" where
  "base64url [] = []"
| "base64url [a] = [b64Char (a div 4), b64Char (a mod 4 * 16)]"
| "base64url [a, b'] = [b64Char (a div 4), b64Char (a mod 4 * 16 + b' div 16), b64Char (b' mod 16 * 4)]"
| "base64url (a # b' # c # r) =
     b64Char (a div 4) # b64Char (a mod 4 * 16 + b' div 16) # b64Char (b' mod 16 * 4 + c div 64) # b64Char (c mod 64) # base64url r"

record httpResponse =
  StatusCode :: nat
  Status :: string
  Body :: "nat list res"

text \<open>The library functions of the message format, and the HTTP client: whether a URL makes a
  request, and what the server answers.\<close>

record 'w httpClient =
  NewRequest :: "string \<Rightarrow> err option"
  Do :: "string \<Rightarrow> 'w \<Rightarrow> httpResponse res \<times> 'w"

record wireFormat =
  Pack :: "Msg \<Rightarrow> nat list res"
  Unpack :: "nat list \<Rightarrow> Msg res"

definition dohReply :: "wireFormat \<Rightarrow> httpResponse res \<Rightarrow> Msg res" where
  "dohReply fm r = (case r of
       Inl e \<Rightarrow> Inl (OpError ''http request'' e)
     | Inr resp \<Rightarrow>
         if StatusCode resp \<noteq> 200 then Inl (ErrNew (''bad http status: '' @ Status resp))
         else case Body resp of
           Inl e \<Rightarrow> Inl (OpError ''read http body'' e)
         | Inr respWire \<Rightarrow> (case Unpack fm respWire of
             Inl e \<Rightarrow> Inl (OpError ''unpack dns response'' e)
           | Inr m \<Rightarrow> Inr m))"

definition dohURL :: "string \<Rightarrow> nat list \<Rightarrow> string" where
  "dohURL ep wire = ep @ ''?dns='' @ base64url wire"

definition dohExchangeWith :: "wireFormat \<Rightarrow> 'w httpClient \<Rightarrow> string \<Rightarrow> Msg \<Rightarrow> 'w \<Rightarrow> Msg res \<times> 'w" where
  "dohExchangeWith fm hc ep req w = (case Pack fm req of
       Inl e \<Rightarrow> (Inl (OpError ''pack dns request'' e), w)
     | Inr wire \<Rightarrow> (case NewRequest hc (dohURL ep wire) of
         Some e \<Rightarrow> (Inl (OpError ''build http request'' e), w)
       | None \<Rightarrow> (case Do hc (dohURL ep wire) w of (r, w') \<Rightarrow> (dohReply fm r, w'))))"

section \<open>DNS over QUIC\<close>

record doQClient =
  endpoint :: string
  server :: string
  qTimeout :: duration
  conn :: "nat option"

definition newDoQClient :: "string \<Rightarrow> doQClient" where
  "newDoQClient ep =
     \<lparr>endpoint = ep, server = (case SplitHostPort ep of Inl _ \<Rightarrow> ep | Inr (host, _) \<Rightarrow> host),
      qTimeout = 6 * second, conn = None\<rparr>"

text \<open>The QUIC library: connections and streams are handles.\<close>

record 'w quic =
  DialAddr :: "string \<Rightarrow> string \<Rightarrow> 'w \<Rightarrow> nat res \<times> 'w"
  OpenStreamSync :: "nat \<Rightarrow> 'w \<Rightarrow> nat res \<times> 'w"
  CloseWithError :: "nat \<Rightarrow> string \<Rightarrow> 'w \<Rightarrow> 'w"
  StreamWrite :: "nat \<Rightarrow> nat list \<Rightarrow> 'w \<Rightarrow> err option \<times> 'w"
  StreamClose :: "nat \<Rightarrow> 'w \<Rightarrow> err option \<times> 'w"
  StreamReadAll :: "nat \<Rightarrow> 'w \<Rightarrow> nat list res \<times> 'w"

text \<open>After the stream is open: write the query, close the sending side, read the reply.\<close>

definition doqTalk :: "wireFormat \<Rightarrow> 'w quic \<Rightarrow> doQClient \<Rightarrow> nat \<Rightarrow> nat \<Rightarrow> nat list \<Rightarrow> 'w \<Rightarrow> Msg res \<times> doQClient \<times> 'w" where
  "doqTalk fm Q q cn stream wire w = (case StreamWrite Q stream wire w of
       (Some e, w) \<Rightarrow> (Inl (OpError ''quic write'' e), q\<lparr>conn := None\<rparr>, CloseWithError Q cn ''write failed'' w)
     | (None, w) \<Rightarrow> (case StreamClose Q stream w of
         (Some e, w) \<Rightarrow> (Inl (OpError ''quic close write'' e), q, w)
       | (None, w) \<Rightarrow> (case StreamReadAll Q stream w of
           (Inl e, w) \<Rightarrow> (Inl (OpError ''quic read'' e), q\<lparr>conn := None\<rparr>, CloseWithError Q cn ''read failed'' w)
         | (Inr respWire, w) \<Rightarrow>
             (case Unpack fm respWire of Inl e \<Rightarrow> Inl (OpError ''unpack dns response'' e) | Inr m \<Rightarrow> Inr m, q, w))))"

definition doqExchange :: "wireFormat \<Rightarrow> 'w quic \<Rightarrow> doQClient \<Rightarrow> Msg \<Rightarrow> 'w \<Rightarrow> Msg res \<times> doQClient \<times> 'w" where
  "doqExchange fm Q q req w = (case Pack fm req of
       Inl e \<Rightarrow> (Inl (OpError ''pack dns request'' e), q, w)
     | Inr wire \<Rightarrow>
         let dial = DialAddr Q (endpoint q) (server q);
             (c, w) = (case conn q of Some cn \<Rightarrow> (Inr cn, w) | None \<Rightarrow> dial w)
         in case c of
           Inl e \<Rightarrow> (Inl (OpError ''quic dial'' e), q\<lparr>conn := None\<rparr>, w)
         | Inr cn \<Rightarrow> (case OpenStreamSync Q cn w of
             (Inr stream, w) \<Rightarrow> doqTalk fm Q (q\<lparr>conn := Some cn\<rparr>) cn stream wire w
           | (Inl _, w) \<Rightarrow> (case dial (CloseWithError Q cn ''stream open failed'' w) of
               (Inl e, w) \<Rightarrow> (Inl (OpError ''quic redial'' e), q\<lparr>conn := None\<rparr>, w)
             | (Inr cn2, w) \<Rightarrow> (case OpenStreamSync Q cn2 w of
                 (Inl e, w) \<Rightarrow> (Inl (OpError ''quic open stream'' e), q\<lparr>conn := Some cn2\<rparr>, w)
               | (Inr stream, w) \<Rightarrow> doqTalk fm Q (q\<lparr>conn := Some cn2\<rparr>) cn2 stream wire w))))"

section \<open>Which reply is returned\<close>

text \<open>A reply that answers the query and did not come too early.\<close>

definition acceptable :: "antiHijackDNSClient \<Rightarrow> nat \<Rightarrow> Msg \<Rightarrow> duration \<Rightarrow> bool" where
  "acceptable c qid m rtt \<longleftrightarrow> Id m = qid \<and> (minRTT c = 0 \<or> minRTT c \<le> rtt)"

definition records :: "Msg \<Rightarrow> nat" where
  "records m = length (Answer m) + length (Ns m) + length (Extra m)"

lemma antiLoop_sound:
  assumes "antiLoop c edns0 qid kept since rs = Some (Inr (m, d))"
    "\<And>k. fst kept = Some k \<Longrightarrow> \<exists>rtt. (Inr k, rtt) \<in> R \<and> acceptable c qid k rtt"
    "set rs \<subseteq> R"
  shows "\<exists>rtt. (Inr m, rtt) \<in> R \<and>
    (acceptable c qid m rtt \<or> 0 < waitTimeout c \<and> waitTimeout c \<le> rtt \<and> (minRTT c = 0 \<or> minRTT c \<le> rtt))"
  using assms
proof (induction c edns0 qid kept since rs rule: antiLoop.induct)
  case (2 c edns0 qid bestR n t since r rtt rs)
  show ?case
  proof (cases r)
    case (Inl e)
    then show ?thesis using 2(3,4) by (auto split: option.splits)
  next
    case (Inr m')
    consider (early) "minRTT c \<noteq> 0" "rtt < minRTT c"
      | (direct) "acceptable c qid m' rtt" "waitTimeout c \<le> 0 \<or> edns0 \<and> hasEDNS0Subnet m'"
      | (wait) "minRTT c = 0 \<or> minRTT c \<le> rtt" "\<not> (Id m' = qid \<and> (waitTimeout c \<le> 0 \<or> edns0 \<and> hasEDNS0Subnet m'))"
      unfolding acceptable_def not_less [symmetric] by blast
    then show ?thesis
    proof cases
      case early
      then show ?thesis using 2(1) [OF Inr] 2(3-5) Inr by simp
    next
      case direct
      then show ?thesis using 2(3,5) Inr by (auto simp: acceptable_def)
    next
      case wait
      define kept' where "kept' = (if Id m' = qid \<and> records m' \<ge> n then (Some m', records m', rtt) else (bestR, n, t))"
      have k: "\<exists>rtt. (Inr k, rtt) \<in> R \<and> acceptable c qid k rtt" if "fst kept' = Some k" for k
        using that 2(4,5) wait(1) Inr by (auto simp: kept'_def acceptable_def split: if_splits)
      have run: "antiLoop c edns0 qid (bestR, n, t) since ((r, rtt) # rs) =
          (if waitTimeout c > 0 \<and> rtt \<ge> waitTimeout c
           then Some (case kept' of (Some m'', _, x) \<Rightarrow> Inr (m'', x) | (None, _, _) \<Rightarrow> Inr (m', since))
           else antiLoop c edns0 qid kept' since rs)"
        using wait Inr by (auto simp: kept'_def records_def Let_def)
      show ?thesis
      proof (cases "waitTimeout c > 0 \<and> rtt \<ge> waitTimeout c")
        case True
        then show ?thesis using 2(3,5) run k wait(1) Inr by (cases "fst kept'"; cases kept') auto
      next
        case False
        then show ?thesis using 2(2) [OF Inr _ _ refl, of kept'] 2(3,5) wait run k Inr
          by (auto simp: kept'_def records_def)
      qed
    qed
  qed
qed simp

fun better :: "(Msg option \<times> nat \<times> duration) \<Rightarrow> Msg \<times> duration \<Rightarrow> (Msg option \<times> nat \<times> duration)" where
  "better (k, n, t) (m, rtt) = (if records m \<ge> n then (Some m, records m, rtt) else (k, n, t))"

lemma antiLoop_wait:
  assumes "0 < waitTimeout c" "\<forall>(m, rtt) \<in> set oks. rtt < waitTimeout c"
  shows "antiLoop c False qid kept since (map (\<lambda>(m, rtt). (Inr m, rtt)) oks @ (Inl e, t) # rest) =
    Some (case foldl better kept (filter (\<lambda>(m, rtt). acceptable c qid m rtt) oks) of
            (Some m, _, rtt) \<Rightarrow> Inr (m, rtt) | (None, _, _) \<Rightarrow> Inl e)"
  using assms(2)
proof (induction oks arbitrary: kept)
  case Nil
  then show ?case by (cases kept) (auto split: option.split)
next
  case (Cons x oks)
  obtain m rtt k n tk where x: "x = (m, rtt)" "kept = (k, n, tk)" by (cases x; cases kept)
  have IH: "antiLoop c False qid kp since (map (\<lambda>(m, rtt). (Inr m, rtt)) oks @ (Inl e, t) # rest) =
    Some (case foldl better kp (filter (\<lambda>(m, rtt). acceptable c qid m rtt) oks) of
            (Some m, _, rtt) \<Rightarrow> Inr (m, rtt) | (None, _, _) \<Rightarrow> Inl e)" for kp
    using Cons by simp
  show ?case using Cons.prems assms(1) by (auto simp: x IH acceptable_def records_def Let_def)
qed

lemma foldl_better:
  "xs \<noteq> [] \<Longrightarrow> \<exists>m rtt. foldl better (None, 0, 0) xs = (Some m, records m, rtt) \<and> (m, rtt) \<in> set xs \<and>
     (\<forall>(m', _) \<in> set xs. records m' \<le> records m)"
proof (induction xs rule: rev_induct)
  case (snoc x xs)
  obtain a b where x: "x = (a, b)" by force
  show ?case
  proof (cases "xs = []")
    case True
    then show ?thesis by (simp add: x)
  next
    case False
    with snoc.IH obtain m rtt where m: "foldl better (None, 0, 0) xs = (Some m, records m, rtt)" "(m, rtt) \<in> set xs"
      "\<forall>(m', _) \<in> set xs. records m' \<le> records m" by blast
    show ?thesis
      by (rule exI [of _ "if records m \<le> records a then a else m"], rule exI [of _ "if records m \<le> records a then b else rtt"])
        (use m in \<open>fastforce simp: x split: if_splits\<close>)
  qed
qed simp

section \<open>Properties\<close>

text \<open>C25. What the waiting UDP client accepts. A reply it returns was received on the connection, not
  earlier than the minimal round-trip time, and carries the identifier of the query, except
  for one that arrives when the waiting time is already over. In particular an injected reply
  with another identifier is never returned if reads fail once the read deadline (which is at
  most the waiting time) has passed.\<close>

theorem anti_reply_genuine:
  assumes "ExchangeWithConnContext c edns0 opt deadline t m co = Some (Inr (r, d))"
    "talk = co (connUDPSize c opt 0) (fst (connDeadlines c t deadline)) (snd (connDeadlines c t deadline))"
  shows "(\<exists>rtt. (Inr r, rtt) \<in> set (replies talk) \<and> (minRTT c = 0 \<or> minRTT c \<le> rtt) \<and>
      (Id r = Id m \<or> 0 < waitTimeout c \<and> waitTimeout c \<le> rtt)) \<and>
    ((\<forall>x rtt. (x, rtt) \<in> set (replies talk) \<longrightarrow> 0 < waitTimeout c \<longrightarrow> waitTimeout c \<le> rtt \<longrightarrow> isl x) \<longrightarrow> Id r = Id m) \<and>
    (waitTimeout c \<noteq> 0 \<longrightarrow> snd (connDeadlines c t deadline) \<le> t + waitTimeout c)"
proof -
  have "antiLoop c edns0 (Id m) (None, 0, 0) (endTime talk) (replies talk) = Some (Inr (r, d))"
    using assms by (auto simp: ExchangeWithConnContext_def Let_def split: prod.splits option.splits)
  from antiLoop_sound [OF this _ subset_refl]
  have "\<exists>rtt. (Inr r, rtt) \<in> set (replies talk) \<and> (minRTT c = 0 \<or> minRTT c \<le> rtt) \<and>
      (Id r = Id m \<or> 0 < waitTimeout c \<and> waitTimeout c \<le> rtt)"
    by (auto simp: acceptable_def)
  moreover from this have "(\<forall>x rtt. (x, rtt) \<in> set (replies talk) \<longrightarrow> 0 < waitTimeout c \<longrightarrow> waitTimeout c \<le> rtt \<longrightarrow> isl x) \<longrightarrow> Id r = Id m"
    by (metis sum.disc(2))
  moreover have "waitTimeout c \<noteq> 0 \<longrightarrow> snd (connDeadlines c t deadline) \<le> t + waitTimeout c"
    by (simp add: connDeadlines_def Let_def)
  ultimately show ?thesis by blast
qed

definition exampleClient :: antiHijackDNSClient where
  "exampleClient = \<lparr>Net = [], UDPSize = 0, Timeout = 0, ReadTimeout = 0, WriteTimeout = 0, dialerTimeout = None,
     waitTimeout = second, minRTT = 5 * millisecond\<rparr>"

definition exampleTalk :: conversation where
  "exampleTalk = \<lparr>writeErr = None,
     replies = [(Inr (newMsg\<lparr>Id := 7\<rparr>), millisecond), (Inr (newMsg\<lparr>Id := 9\<rparr>), 30 * millisecond),
       (Inr (newMsg\<lparr>Id := 7, Answer := [RR_A (newHeader ''example.org.'' 1) None]\<rparr>), 40 * millisecond), (Inl (ErrNew ''i/o timeout''), second)],
     endTime = second\<rparr>"

theorem anti_reply_genuine_witness:
  "ExchangeWithConnContext exampleClient False None None 0 (newMsg\<lparr>Id := 7\<rparr>) (\<lambda>_ _ _. exampleTalk) =
     Some (Inr (newMsg\<lparr>Id := 7, Answer := [RR_A (newHeader ''example.org.'' 1) None]\<rparr>, 40 * millisecond)) \<and>
   Id (newMsg\<lparr>Id := 7, Answer := [RR_A (newHeader ''example.org.'' 1) None]\<rparr>) = Id (newMsg\<lparr>Id := 7\<rparr>)"
proof -
  have run: "ExchangeWithConnContext exampleClient False None None 0 (newMsg\<lparr>Id := 7\<rparr>) (\<lambda>_ _ _. exampleTalk) =
     Some (Inr (newMsg\<lparr>Id := 7, Answer := [RR_A (newHeader ''example.org.'' 1) None]\<rparr>, 40 * millisecond))"
    by (simp add: ExchangeWithConnContext_def exampleClient_def exampleTalk_def millisecond_def second_def newMsg_def Let_def
        split: prod.split)
  have "\<forall>x rtt. (x, rtt) \<in> set (replies exampleTalk) \<longrightarrow> 0 < waitTimeout exampleClient \<longrightarrow> waitTimeout exampleClient \<le> rtt \<longrightarrow> isl x"
    by (auto simp: exampleTalk_def exampleClient_def millisecond_def second_def)
  then show ?thesis using run anti_reply_genuine [OF run refl] by blast
qed

text \<open>C26. The reply that is kept. With a waiting time and no client-subnet option configured, when the
  reads give replies until one fails and all replies come before the waiting time is over, the
  call returns, namely an acceptable reply with the largest number of records, or the error
  of the failed read when no reply is acceptable.\<close>

theorem anti_wait_best:
  assumes "0 < waitTimeout c" "\<forall>(m, rtt) \<in> set oks. rtt < waitTimeout c" "writeErr talk = None"
    "replies talk = map (\<lambda>(m, rtt). (Inr m, rtt)) oks @ (Inl e, t') # rest"
    "xs = filter (\<lambda>(r, rtt). acceptable c (Id m) r rtt) oks"
  shows "if xs = [] then antiExchange c False opt t m (Inr (\<lambda>_ _ _. talk)) = Some (Inl e)
    else \<exists>r rtt. antiExchange c False opt t m (Inr (\<lambda>_ _ _. talk)) = Some (Inr (r, rtt)) \<and> (r, rtt) \<in> set xs \<and>
      (\<forall>(r', _) \<in> set xs. records r' \<le> records r)"
proof -
  have run: "antiExchange c False opt t m (Inr (\<lambda>_ _ _. talk)) =
      Some (case foldl better (None, 0, 0) xs of (Some m, _, rtt) \<Rightarrow> Inr (m, rtt) | (None, _, _) \<Rightarrow> Inl e)"
    using assms(3) antiLoop_wait [OF assms(1,2), of "Id m" "(None, 0, 0)" "endTime talk" e t' rest]
    by (simp add: antiExchange_def ExchangeWithConnContext_def Let_def assms(4,5) split: prod.split)
  show ?thesis
  proof (cases "xs = []")
    case True
    then show ?thesis by (simp add: run)
  next
    case False
    from foldl_better [OF this] show ?thesis using False by (auto simp: run)
  qed
qed

theorem anti_wait_best_witness:
  "antiExchange exampleClient False None 0 (newMsg\<lparr>Id := 8\<rparr>) (Inr (\<lambda>_ _ _. exampleTalk)) = Some (Inl (ErrNew ''i/o timeout''))"
proof -
  let ?oks = "[(newMsg\<lparr>Id := 7\<rparr>, millisecond), (newMsg\<lparr>Id := 9\<rparr>, 30 * millisecond), (newMsg\<lparr>Id := 7, Answer := [RR_A (newHeader ''example.org.'' 1) None]\<rparr>, 40 * millisecond)]"
  have "0 < waitTimeout exampleClient" "\<forall>(m, rtt) \<in> set ?oks. rtt < waitTimeout exampleClient" "writeErr exampleTalk = None"
    "replies exampleTalk = map (\<lambda>(m, rtt). (Inr m, rtt)) ?oks @ (Inl (ErrNew ''i/o timeout''), second) # []"
    "[] = filter (\<lambda>(r, rtt). acceptable exampleClient (Id (newMsg\<lparr>Id := 8\<rparr>)) r rtt) ?oks"
    by (simp_all add: exampleClient_def exampleTalk_def millisecond_def second_def acceptable_def)
  from anti_wait_best [OF this, of None 0] show ?thesis by simp
qed

text \<open>A reply with a wrong identifier is returned without an error when it is read at the very end of
  the waiting time and nothing acceptable came before: the loop is left with no error set, and
  the last message read is returned as it is.\<close>

lemma anti_accepts_foreign_reply:
  assumes "0 < waitTimeout c" "waitTimeout c \<le> rtt" "minRTT c = 0 \<or> minRTT c \<le> rtt" "Id r \<noteq> Id m"
    "writeErr talk = None" "replies talk = (Inr r, rtt) # rest"
  shows "antiExchange c edns0 opt t m (Inr (\<lambda>_ _ _. talk)) = Some (Inr (r, endTime talk))"
  using assms by (auto simp: antiExchange_def ExchangeWithConnContext_def Let_def split: prod.split)

lemma anti_accepts_foreign_reply_witness:
  "antiExchange exampleClient True None 0 (newMsg\<lparr>Id := 7\<rparr>)
     (Inr (\<lambda>_ _ _. \<lparr>writeErr = None, replies = [(Inr (newMsg\<lparr>Id := 9\<rparr>), second)], endTime = second\<rparr>)) =
   Some (Inr (newMsg\<lparr>Id := 9\<rparr>, second))"
  using anti_accepts_foreign_reply [of exampleClient second "newMsg\<lparr>Id := 9\<rparr>" "newMsg\<lparr>Id := 7\<rparr>"
      "\<lparr>writeErr = None, replies = [(Inr (newMsg\<lparr>Id := 9\<rparr>), second)], endTime = second\<rparr>" "[]" True None 0]
  by (simp add: exampleClient_def second_def millisecond_def)

end
