(* ===== verification/Go_URL.thy ===== *)
theory Go_URL
  imports Go_Net
begin

text \<open>
  The part of Go's package \<^verbatim>\<open>net/url\<close> the program uses: \<^verbatim>\<open>Parse\<close> as far as the scheme, the host and the
  success of parsing go, \<^verbatim>\<open>Hostname\<close> and \<^verbatim>\<open>Port\<close>. \<^const>\<open>None\<close> is any error of \<^verbatim>\<open>Parse\<close>; its text is
  not modelled.
\<close>

record URL =
  Scheme :: string
  uHost :: string

definition isAlpha :: "char \<Rightarrow> bool" where
  "isAlpha c \<longleftrightarrow> 65 \<le> code c \<and> code c \<le> 90 \<or> 97 \<le> code c \<and> code c \<le> 122"

definition isAlnum :: "char \<Rightarrow> bool" where
  "isAlnum c \<longleftrightarrow> isAlpha c \<or> isDigit c"

fun getScheme :: "string \<Rightarrow> string \<Rightarrow> (string \<times> string) option" where
  "getScheme pre [] = Some ([], rev pre)"
| "getScheme pre (c # s) =
     (if isAlpha c then getScheme (c # pre) s
      else if isDigit c \<or> c \<in> set ''+-.'' then (if pre = [] then Some ([], c # s) else getScheme (c # pre) s)
      else if c = CHR '':'' then (if pre = [] then None else Some (rev pre, s))
      else Some ([], rev pre @ c # s))"

datatype encoding = encodePath | encodeHost | encodeZone | encodeUserPassword | encodeFragment

text \<open>The characters of a host that need no escape.\<close>

definition hostChar :: "char \<Rightarrow> bool" where
  "hostChar c \<longleftrightarrow> isAlnum c \<or> c \<in> set ''!$&()*+,;=:[]<>-_.~'' \<or> code c = 34 \<or> code c = 39"

fun unescape :: "encoding \<Rightarrow> string \<Rightarrow> string option" where
  "unescape mode [] = Some []"
| "unescape mode (c # s) =
     (if c = CHR ''%'' then (case s of
          x # y # r \<Rightarrow> (case (hexVal x, hexVal y) of
            (Some a, Some b') \<Rightarrow>
              if mode = encodeHost \<and> a < 8 \<and> \<not> (x = CHR ''2'' \<and> y = CHR ''5'') then None
              else if mode = encodeZone \<and> \<not> (x = CHR ''2'' \<and> y = CHR ''5'') \<and> a * 16 + b' \<noteq> 32 \<and> \<not> hostChar (char_of (a * 16 + b')) then None
              else map_option (Cons (char_of (a * 16 + b'))) (unescape mode r)
          | _ \<Rightarrow> None)
        | _ \<Rightarrow> None)
      else if (mode = encodeHost \<or> mode = encodeZone) \<and> code c < 128 \<and> \<not> hostChar c then None
      else map_option (Cons c) (unescape mode s))"

definition validOptionalPort :: "string \<Rightarrow> bool" where
  "validOptionalPort port \<longleftrightarrow> port = [] \<or> hd port = CHR '':'' \<and> list_all isDigit (tl port)"

text \<open>The position of \<^verbatim>\<open>%25\<close>, which starts a zone.\<close>

fun indexZone :: "nat \<Rightarrow> string \<Rightarrow> nat option" where
  "indexZone i [] = None"
| "indexZone i (c # s) = (if HasPrefix (c # s) (CHR ''%'' # ''25'') then Some i else indexZone (i + 1) s)"

text \<open>A host in square brackets must be an IPv6 address (since Go 1.26).\<close>

definition parseHost :: "string \<Rightarrow> string option" where
  "parseHost host = (case LastIndexByte host (CHR ''['') of
       Some (Suc _) \<Rightarrow> None
     | Some 0 \<Rightarrow> (case LastIndexByte host (CHR '']'') of
         None \<Rightarrow> None
       | Some i \<Rightarrow>
           if \<not> validOptionalPort (drop (i + 1) host) then None
           else
             let hostname = take (i - 1) (drop 1 host);
                 name = (case indexZone 0 hostname of
                     None \<Rightarrow> unescape encodeHost hostname
                   | Some z \<Rightarrow> (case (unescape encodeHost (take z hostname), unescape encodeZone (drop z hostname)) of
                       (Some h1, Some h2) \<Rightarrow> Some (h1 @ h2)
                     | _ \<Rightarrow> None))
             in (case (unescape encodeHost (drop (i + 1) host), name) of
                 (Some port, Some n) \<Rightarrow> (case ParseAddr n of
                     Inl _ \<Rightarrow> None
                   | Inr ip \<Rightarrow> if Is4 ip then None else Some (''['' @ n @ '']'' @ port))
               | _ \<Rightarrow> None))
     | None \<Rightarrow> (case IndexByte host (CHR '':'') of
         Some i \<Rightarrow> if validOptionalPort (drop i host) then unescape encodeHost host else None
       | None \<Rightarrow> unescape encodeHost host))"

definition validUserinfo :: "string \<Rightarrow> bool" where
  "validUserinfo s \<longleftrightarrow> list_all (\<lambda>c. isAlnum c \<or> c \<in> set ''-._:~!$&()*+,;=%@'' \<or> code c = 39) s"

definition parseAuthority :: "string \<Rightarrow> string option" where
  "parseAuthority authority = (case LastIndexByte authority (CHR ''@'') of
       None \<Rightarrow> parseHost authority
     | Some i \<Rightarrow> (case parseHost (drop (i + 1) authority) of
         None \<Rightarrow> None
       | Some host \<Rightarrow>
           if validUserinfo (take i authority) \<and> unescape encodeUserPassword (take i authority) \<noteq> None then Some host else None))"

definition cutByte :: "string \<Rightarrow> char \<Rightarrow> string \<times> string" where
  "cutByte s c = (case IndexByte s c of None \<Rightarrow> (s, []) | Some i \<Rightarrow> (take i s, drop (i + 1) s))"

definition parseURL :: "string \<Rightarrow> URL option" where
  "parseURL rawURL =
     (if list_ex (\<lambda>c. code c < 32 \<or> code c = 127) rawURL then None
      else if rawURL = ''*'' then Some \<lparr>Scheme = [], uHost = []\<rparr>
      else case getScheme [] rawURL of
        None \<Rightarrow> None
      | Some (scheme0, rest0) \<Rightarrow>
          let scheme = ToLower scheme0; rest = fst (cutByte rest0 (CHR ''?'')) in
          if \<not> HasPrefix rest ''/'' \<and> scheme \<noteq> [] then Some \<lparr>Scheme = scheme, uHost = []\<rparr>
          else if \<not> HasPrefix rest ''/'' \<and> CHR '':'' \<in> set (fst (cutByte rest (CHR ''/''))) then None
          else if (scheme \<noteq> [] \<or> \<not> HasPrefix rest ''///'') \<and> HasPrefix rest ''//'' then
            let authority = takeWhile (\<lambda>c. c \<noteq> CHR ''/'') (drop 2 rest);
                path = dropWhile (\<lambda>c. c \<noteq> CHR ''/'') (drop 2 rest) in
            (case (parseAuthority authority, unescape encodePath path) of
               (Some host, Some _) \<Rightarrow> Some \<lparr>Scheme = scheme, uHost = host\<rparr>
             | _ \<Rightarrow> None)
          else case unescape encodePath rest of
            None \<Rightarrow> None
          | Some _ \<Rightarrow> Some \<lparr>Scheme = scheme, uHost = []\<rparr>)"

definition ParseURL :: "string \<Rightarrow> URL option" where
  "ParseURL rawURL =
     (case cutByte rawURL (CHR ''#'') of (u, frag) \<Rightarrow>
        (case parseURL u of
           None \<Rightarrow> None
         | Some url \<Rightarrow> if unescape encodeFragment frag = None then None else Some url))"

text \<open>\<^verbatim>\<open>Hostname\<close> and \<^verbatim>\<open>Port\<close>.\<close>

definition splitHostPort :: "string \<Rightarrow> string \<times> string" where
  "splitHostPort hostPort =
     (let (host, port) = (case LastIndexByte hostPort (CHR '':'') of
            Some i \<Rightarrow> if validOptionalPort (drop i hostPort) then (take i hostPort, drop (i + 1) hostPort) else (hostPort, [])
          | None \<Rightarrow> (hostPort, []))
      in (if HasPrefix host ''['' \<and> HasSuffix host '']'' then butlast (drop 1 host) else host, port))"

definition Hostname :: "URL \<Rightarrow> string" where "Hostname u = fst (splitHostPort (uHost u))"
definition urlPort :: "URL \<Rightarrow> string" where "urlPort u = snd (splitHostPort (uHost u))"

lemma url_examples:
  "ParseURL ''https://dns.example:8443/dns-query?x=1'' = Some \<lparr>Scheme = ''https'', uHost = ''dns.example:8443''\<rparr>"
  "map_option Hostname (ParseURL ''HTTPS://[2001:db8::1]:853/'') = Some ''2001:db8::1''"
  "map_option urlPort (ParseURL ''https://a.b/%7Ec'') = Some []"
  "ParseURL ''https://a b/'' = None"
  "ParseURL ''https://a/%zz'' = None"
  by code_simp+

end
