(* ===== verification/TTL_Rules.thy ===== *)
theory TTL_Rules
  imports Go_Strings "HOL-Library.Multiset"
begin

text \<open>
  The rules that turn the measured distance of a server into the time to live of a decoy packet
  (\<^verbatim>\<open>core/desync.go\<close>: \<^verbatim>\<open>parseTTLRules\<close>, \<^verbatim>\<open>buildCalcTTL\<close>). Go's \<^verbatim>\<open>int\<close> has 64 bits and wraps around;
  \<^verbatim>\<open>sort.Slice\<close> is not stable, so the sorting function is an argument of which only its
  documented behaviour is known.
\<close>

section \<open>Rules\<close>

definition wrapInt :: "int \<Rightarrow> int" where
  "wrapInt x = (x + 2 ^ 63) mod 2 ^ 64 - 2 ^ 63"

record ttlRule =
  threshold :: int
  ruleOp :: char
  val :: int

definition digitsValue :: "string \<Rightarrow> int" where
  "digitsValue ds = foldl (\<lambda>a c. wrapInt (a * 10 + int (digitVal c))) 0 ds"

function parseLoop :: "string \<Rightarrow> ttlRule list \<Rightarrow> ttlRule list res" where
  "parseLoop b rules =
     (if b = [] then Inr rules
      else
        let ds = takeWhile isDigit b; r1 = dropWhile isDigit b in
        if ds = [] then Inl (ErrNew ''invalid rule: missing left number'')
        else case r1 of
          [] \<Rightarrow> Inl (ErrNew ''invalid rule: missing operator'')
        | op # r2 \<Rightarrow>
            if op \<noteq> CHR ''-'' \<and> op \<noteq> CHR ''='' then Inl (ErrNew ''invalid operator'')
            else
              let vs = takeWhile isDigit r2; r3 = dropWhile isDigit r2 in
              if vs = [] then Inl (ErrNew ''invalid rule: missing right number'')
              else parseLoop (if r3 \<noteq> [] \<and> hd r3 = CHR '';'' then tl r3 else r3)
                     (rules @ [\<lparr>threshold = digitsValue ds, ruleOp = op, val = digitsValue vs\<rparr>]))"
  by pat_completeness auto
termination
proof (relation "measure (\<lambda>(b, _). length b)", goal_cases)
  case (2 b rules ds r1 op r2 vs r3)
  have "length r3 \<le> length r2" "length r1 \<le> length b" using 2 by (simp_all add: length_dropWhile_le)
  moreover have "length r1 = Suc (length r2)" using 2(5) by simp
  ultimately show ?case by (auto simp: less_Suc_eq_le)
qed simp

declare parseLoop.simps [simp del]

definition parseTTLRules :: "(ttlRule list \<Rightarrow> ttlRule list) \<Rightarrow> string \<Rightarrow> ttlRule list res" where
  "parseTTLRules sortSlice conf = (case parseLoop conf [] of Inl e \<Rightarrow> Inl e | Inr rules \<Rightarrow> Inr (sortSlice rules))"

text \<open>The closure that \<^verbatim>\<open>buildCalcTTL\<close> returns, as the data it captures, and a call of it.\<close>

datatype ttlCalc = MinusOne | ByRules "ttlRule list"

definition buildCalcTTL :: "(ttlRule list \<Rightarrow> ttlRule list) \<Rightarrow> string \<Rightarrow> ttlCalc res" where
  "buildCalcTTL sortSlice conf =
     (if conf = [] then Inr MinusOne
      else case parseTTLRules sortSlice conf of
        Inl e \<Rightarrow> Inl (OpError ''parse ttl rules'' e)
      | Inr rules \<Rightarrow> Inr (ByRules rules))"

fun applyRules :: "ttlRule list \<Rightarrow> int \<Rightarrow> int res" where
  "applyRules [] ttl = Inl (ErrNew ''no matching ttl rule'')"
| "applyRules (r # rs) ttl =
     (if ttl \<ge> threshold r then Inr (if ruleOp r = CHR ''-'' then wrapInt (ttl - val r) else val r)
      else applyRules rs ttl)"

fun runCalc :: "ttlCalc \<Rightarrow> int \<Rightarrow> int res" where
  "runCalc MinusOne ttl = Inr (wrapInt (ttl - 1))"
| "runCalc (ByRules rules) ttl = applyRules rules ttl"

section \<open>What sorting promises\<close>

definition sortsDown :: "(ttlRule list \<Rightarrow> ttlRule list) \<Rightarrow> bool" where
  "sortsDown f \<longleftrightarrow> (\<forall>rs. mset (f rs) = mset rs \<and> sorted_wrt (\<lambda>a b. threshold b \<le> threshold a) (f rs))"

definition stableDown :: "ttlRule list \<Rightarrow> ttlRule list" where
  "stableDown rs = sort_key (\<lambda>r. - threshold r) rs"

lemma stableDown_sorts: "sortsDown stableDown"
proof -
  have "sorted_wrt (\<lambda>a b. threshold b \<le> threshold a) (stableDown rs)" for rs
    using sorted_sort_key [of "\<lambda>r. - threshold r" rs] by (simp add: stableDown_def sorted_map)
  then show ?thesis by (simp add: sortsDown_def stableDown_def)
qed

section \<open>Reading back printed rules\<close>

definition renderRule :: "ttlRule \<Rightarrow> string" where
  "renderRule r = Itoa (threshold r) @ [ruleOp r] @ Itoa (val r)"

fun renderRules :: "ttlRule list \<Rightarrow> string" where
  "renderRules [] = []"
| "renderRules [r] = renderRule r"
| "renderRules (r # rs) = renderRule r @ '';'' @ renderRules rs"

definition ruleOK :: "ttlRule \<Rightarrow> bool" where
  "ruleOK r \<longleftrightarrow> 0 \<le> threshold r \<and> threshold r < 2 ^ 63 \<and> 0 \<le> val r \<and> val r < 2 ^ 63 \<and> ruleOp r \<in> {CHR ''-'', CHR ''=''}"

lemma wrapInt_id: "- (2 ^ 63) \<le> x \<Longrightarrow> x < 2 ^ 63 \<Longrightarrow> wrapInt x = x"
  by (simp add: wrapInt_def)

lemma digitsValue_digitsOf:
  assumes "int n < 2 ^ 63"
  shows "digitsValue (digitsOf n) = int n"
  using assms
proof (induction n rule: digitsOf.induct)
  case (1 n)
  show ?case
  proof (cases "n < 10")
    case True
    then show ?thesis using isDigit_digit [of n] by (subst digitsOf.simps) (simp add: digitsValue_def wrapInt_id)
  next
    case False
    have "int (n div 10) < 2 ^ 63" using 1(2) by (simp add: zdiv_int)
    from 1(1) [OF False this] have ih: "digitsValue (digitsOf (n div 10)) = int (n div 10)" .
    have n: "int (n div 10) * 10 + int (n mod 10) = int n"
      by (metis div_mult_mod_eq of_nat_add of_nat_mult of_nat_numeral)
    have "digitsValue (digitsOf n) = wrapInt (digitsValue (digitsOf (n div 10)) * 10 + int (n mod 10))"
      using False isDigit_digit [of "n mod 10"] by (subst digitsOf.simps) (simp add: digitsValue_def)
    then show ?thesis unfolding ih n using 1(2) by (simp add: wrapInt_id)
  qed
qed

lemma takeWhile_digits:
  assumes "list_all isDigit ds" "rest = [] \<or> \<not> isDigit (hd rest)"
  shows "takeWhile isDigit (ds @ rest) = ds" "dropWhile isDigit (ds @ rest) = rest"
proof -
  have d: "\<And>x. x \<in> set ds \<Longrightarrow> isDigit x" using assms(1) by (simp add: list_all_iff)
  show "takeWhile isDigit (ds @ rest) = ds" "dropWhile isDigit (ds @ rest) = rest"
    using d assms(2) by (cases rest; simp add: takeWhile_append2 dropWhile_append2)+
qed

lemma Itoa_digits: "0 \<le> i \<Longrightarrow> Itoa i = digitsOf (nat i) \<and> list_all isDigit (Itoa i) \<and> Itoa i \<noteq> []"
  using decimal_digitsOf [of "nat i"] by (auto simp: Itoa_def decimal_def split: if_splits)

lemma parse_rule:
  assumes "ruleOK r" "rest = [] \<or> \<not> isDigit (hd rest)"
  shows "parseLoop (renderRule r @ rest) acc = parseLoop (if rest \<noteq> [] \<and> hd rest = CHR '';'' then tl rest else rest) (acc @ [r])"
proof -
  note t = Itoa_digits [of "threshold r"] and v = Itoa_digits [of "val r"]
  have op: "\<not> isDigit (ruleOp r)" "ruleOp r = CHR ''-'' \<or> ruleOp r = CHR ''=''"
    using assms(1) by (auto simp: ruleOK_def isDigit_def code_def)
  let ?r2 = "Itoa (val r) @ rest" and ?r1 = "ruleOp r # Itoa (val r) @ rest"
  have b: "renderRule r @ rest = Itoa (threshold r) @ ?r1" by (simp add: renderRule_def)
  have t': "list_all isDigit (Itoa (threshold r))" "Itoa (threshold r) \<noteq> []" "digitsValue (Itoa (threshold r)) = threshold r"
    and v': "list_all isDigit (Itoa (val r))" "Itoa (val r) \<noteq> []" "digitsValue (Itoa (val r)) = val r"
    using t v assms(1) digitsValue_digitsOf [of "nat (threshold r)"] digitsValue_digitsOf [of "nat (val r)"] by (auto simp: ruleOK_def)
  have s1: "takeWhile isDigit (Itoa (threshold r) @ ?r1) = Itoa (threshold r)" "dropWhile isDigit (Itoa (threshold r) @ ?r1) = ?r1"
    by (rule takeWhile_digits [OF t'(1)]; simp add: op)+
  have s2: "takeWhile isDigit ?r2 = Itoa (val r)" "dropWhile isDigit ?r2 = rest"
    by (rule takeWhile_digits [OF v'(1) assms(2)])+
  have nop: "\<not> (ruleOp r \<noteq> CHR ''-'' \<and> ruleOp r \<noteq> CHR ''='')" using op(2) by blast
  have "\<lparr>threshold = threshold r, ruleOp = ruleOp r, val = val r\<rparr> = r" by simp
  then show ?thesis unfolding b using t'(2,3) v'(2,3)
    by (subst parseLoop.simps) (simp only: s1 s2 nop Let_def if_False list.case append_is_Nil_conv list.distinct simp_thms)
qed

lemma parse_rules: "list_all ruleOK rs \<Longrightarrow> parseLoop (renderRules rs) acc = Inr (acc @ rs)"
proof (induction rs arbitrary: acc rule: renderRules.induct)
  case 1
  then show ?case by (subst parseLoop.simps) simp
next
  case (2 r)
  have "parseLoop [] (acc @ [r]) = Inr (acc @ [r])" by (subst parseLoop.simps) simp
  then show ?case using parse_rule [of r "[]" acc] 2 by simp
next
  case (3 r r' rs)
  have "\<not> isDigit (CHR '';'')" by (simp add: isDigit_def code_def)
  then show ?case using parse_rule [of r "'';'' @ renderRules (r' # rs)" acc] 3 by simp
qed

lemma applyRules_first:
  assumes "sorted_wrt (\<lambda>a b. threshold b \<le> threshold a) rs"
  shows "if \<exists>r \<in> set rs. threshold r \<le> ttl
    then \<exists>r \<in> set rs. threshold r \<le> ttl \<and> (\<forall>r' \<in> set rs. threshold r' \<le> ttl \<longrightarrow> threshold r' \<le> threshold r) \<and>
      applyRules rs ttl = Inr (if ruleOp r = CHR ''-'' then wrapInt (ttl - val r) else val r)
    else applyRules rs ttl = Inl (ErrNew ''no matching ttl rule'')"
  using assms by (induction rs) auto

text \<open>C37. The rules for the time to live of decoys. Rules written as text are read back, and a call
  of the resulting function applies a rule with the largest threshold that does not exceed the measured
  distance (subtracting from it or replacing it), or reports that there is none; this holds for every
  sorting function, stable or not.\<close>

theorem ttl_rules_apply:
  assumes "sortsDown sortSlice" "list_all ruleOK rs" "rs \<noteq> []" "ttl < 2 ^ 63"
  shows "\<exists>calc. buildCalcTTL sortSlice (renderRules rs) = Inr calc \<and>
    (if \<exists>r \<in> set rs. threshold r \<le> ttl
     then \<exists>r \<in> set rs. threshold r \<le> ttl \<and> (\<forall>r' \<in> set rs. threshold r' \<le> ttl \<longrightarrow> threshold r' \<le> threshold r) \<and>
       runCalc calc ttl = Inr (if ruleOp r = CHR ''-'' then ttl - val r else val r)
     else runCalc calc ttl = Inl (ErrNew ''no matching ttl rule''))"
proof -
  let ?rs = "sortSlice rs"
  have s: "set ?rs = set rs" "sorted_wrt (\<lambda>a b. threshold b \<le> threshold a) ?rs"
    using assms(1) unfolding sortsDown_def by (metis mset_eq_setD, blast)
  obtain r rs' where "rs = r # rs'" using assms(3) by (cases rs) auto
  then have "renderRules rs \<noteq> []" by (cases rs') (auto simp: renderRule_def)
  then have calc: "buildCalcTTL sortSlice (renderRules rs) = Inr (ByRules ?rs)"
    using parse_rules [OF assms(2), of "[]"] by (simp add: buildCalcTTL_def parseTTLRules_def)
  have w: "wrapInt (ttl - val r) = ttl - val r" if "r \<in> set rs" "threshold r \<le> ttl" for r
    using that assms(2,4) by (intro wrapInt_id) (auto simp: list_all_iff ruleOK_def)
  note f = applyRules_first [OF s(2), of ttl, unfolded s(1)]
  show ?thesis
  proof (cases "\<exists>r \<in> set rs. threshold r \<le> ttl")
    case True
    then obtain r where "r \<in> set rs" "threshold r \<le> ttl" "\<forall>r' \<in> set rs. threshold r' \<le> ttl \<longrightarrow> threshold r' \<le> threshold r"
        "applyRules ?rs ttl = Inr (if ruleOp r = CHR ''-'' then wrapInt (ttl - val r) else val r)"
      using f by auto
    then show ?thesis using True calc w [of r] by (intro exI [of _ "ByRules ?rs"]) auto
  qed (use f calc in auto)
qed

theorem ttl_rules_apply_witness:
  "\<exists>calc. buildCalcTTL stableDown ''3=2;10-4;0=1'' = Inr calc \<and> runCalc calc 12 = Inr 8"
proof -
  let ?rs = "[\<lparr>threshold = 3, ruleOp = CHR ''='', val = 2\<rparr>, \<lparr>threshold = 10, ruleOp = CHR ''-'', val = 4\<rparr>, \<lparr>threshold = 0, ruleOp = CHR ''='', val = 1\<rparr>]"
  have "list_all ruleOK ?rs" by (simp add: ruleOK_def)
  moreover have "renderRules ?rs = ''3=2;10-4;0=1''" by code_simp
  ultimately show ?thesis using ttl_rules_apply [OF stableDown_sorts, of ?rs 12] by auto
qed

end
