(* ===== verification/Core_State.thy ===== *)
theory Core_State
  imports Redirect Fake_IP ShardedLRU DNS_Client Go_URL TTL_Rules
begin

text \<open>
  The package-level variables of \<^verbatim>\<open>core\<close> as one record, and the libraries and the network as another.
  The state of everything outside the program (clock, network, random numbers) is the field
  \<open>world\<close>, which the external functions read and change. A closure stored by the code is the
  data it captures. Locks are not modelled: each operation is a step of its own.
\<close>

section \<open>Stored closures\<close>

datatype DNSClient = PlainClient dnsClient | AntiHijack antiHijackDNSClient

text \<open>How a DNS-over-HTTPS connection is dialled: to an address with a policy, or through a SOCKS
  server.\<close>

datatype dialSpec = DialPolicy string duration Policy | DialSocks5 string

datatype exchange = ExClient DNSClient string | ExDoH dialSpec string | ExDoQ nat

section \<open>Configuration of DNS\<close>

record DNSConfig =
  Type :: string
  Addr' :: string
  Resolvers :: "string list"
  SingleFlight :: bool
  DisableCache :: bool
  CacheCapacity :: nat
  EDNS0Subnet :: string
  UDPSize' :: nat
  ClientTimeout :: string
  WaitTimeout :: string
  MinRTT :: string
  DoHSocks5Addr :: string

record TTLProbingConfig =
  FakeTTLRules :: string
  ttlSingleFlight :: bool
  ttlDisableCache :: bool
  ttlCacheCapacity :: nat

section \<open>The state\<close>

type_synonym stringCache = "(string, string) ShardedLRU"

record 'w core =
  tables :: Tables
  ipPools :: pools
  fakes :: fakeStores
  gfwDomainMatcher :: "unit DomainMatcher option"
  gfwBypassMatcher :: "unit DomainMatcher option"
  dnsAddr :: string
  dnsClient' :: "DNSClient option"
  httpClient' :: bool
  dnsExchanges :: "exchange list"
  dnsExchange :: "exchange option"
  dnsExchangeIdx :: nat
  doqs :: "doQClient list"
  dnsCache :: "stringCache option"
  ipDomainCache :: "stringCache option"
  dnsResolveGroup :: bool
  edns0SubnetOpt :: "RR option"
  lastDNSConfig :: DNSConfig
  calcTTL :: "ttlCalc option"
  ttlCache :: "(string, int) ShardedLRU option"
  ttlProbingGroup :: bool
  lastTTLProbingConfig :: TTLProbingConfig
  history :: hist
  world :: 'w

text \<open>An HTTP request as the handlers read it, with the bytes that writing it sends.\<close>

record httpRequest =
  rqHost :: string
  rqURLHost :: string
  rqRequestURI :: string
  rqBytes :: bytes

text \<open>The libraries: hashing, the number of processors, the clock, the order in which a map is
  visited, sorting, the DNS library, HTTP and QUIC, the resolver of the operating system, the
  constructor of SOCKS dialers, dialling (with a limited time to live; a failure tells whether it is a timeout)
  and connections.\<close>

record 'w lib =
  hashString :: "string \<Rightarrow> 32 word"
  gomaxprocs :: nat
  Now :: "'w \<Rightarrow> int \<times> 'w"
  MapOrder :: "'w \<Rightarrow> string list \<times> 'w"
  SortRules :: "ttlRule list \<Rightarrow> ttlRule list"
  SetQuestion :: "Msg \<Rightarrow> string \<Rightarrow> nat \<Rightarrow> 'w \<Rightarrow> Msg \<times> 'w"
  RcodeToString :: "nat \<Rightarrow> string"
  IsEdns0 :: "Msg \<Rightarrow> nat option"
  ClientExchange :: "dnsClient \<Rightarrow> Msg \<Rightarrow> string \<Rightarrow> 'w \<Rightarrow> Msg res \<times> 'w"
  DialDNS :: "antiHijackDNSClient \<Rightarrow> string \<Rightarrow> 'w \<Rightarrow> (nat \<Rightarrow> int \<Rightarrow> int \<Rightarrow> conversation) res \<times> 'w"
  wire :: wireFormat
  http :: "dialSpec \<Rightarrow> 'w httpClient"
  quicLib :: "'w quic"
  LookupIPAddr :: "string \<Rightarrow> 'w \<Rightarrow> netIP option list res \<times> 'w"
  SOCKS5 :: "string \<Rightarrow> err option"
  DialTTL :: "bool \<Rightarrow> duration \<Rightarrow> int \<Rightarrow> string \<Rightarrow> 'w \<Rightarrow> (bool \<times> err) option \<times> 'w"
  DialTCP :: "string \<Rightarrow> duration \<Rightarrow> 'w \<Rightarrow> nat res \<times> 'w"
  kern :: kernel
  GetTTL :: "hist \<Rightarrow> nat \<Rightarrow> bool \<Rightarrow> int res"
  SendWithNoise :: "hist \<Rightarrow> nat \<Rightarrow> bool \<Rightarrow> bytes \<Rightarrow> bytes \<Rightarrow> int \<Rightarrow> int \<Rightarrow> duration \<Rightarrow> (hist \<times> err option) option"
  ReadRequest :: "bytes \<Rightarrow> nat \<times> httpRequest res"
  ResponseBytes :: "int \<Rightarrow> string option \<Rightarrow> bytes"

type_synonym ('w, 'a) act = "('w core, 'a) eff"

definition ext :: "('w \<Rightarrow> 'a \<times> 'w) \<Rightarrow> ('w, 'a) act" where
  "ext f s = (case f (world s) of (x, w) \<Rightarrow> Some (x, s\<lparr>world := w\<rparr>))"

definition onPools :: "(pools, 'a) eff \<Rightarrow> ('w, 'a) act" where
  "onPools = on ipPools (\<lambda>p s. s\<lparr>ipPools := p\<rparr>)"

text \<open>The caches; a cache that is switched off holds nothing. Their clock counts milliseconds.\<close>

definition millis :: "int \<Rightarrow> int" where
  "millis t = t div millisecond"

definition dnsCacheGet :: "'w lib \<Rightarrow> string \<Rightarrow> ('w, string option) act" where
  "dnsCacheGet L k s = (case dnsCache s of
       None \<Rightarrow> Some (None, s)
     | Some c \<Rightarrow> bindS (ext (Now L)) (\<lambda>t s'. case sGet (hashString L) (millis t) c k of
         None \<Rightarrow> None
       | Some (c', r) \<Rightarrow> Some (r, s'\<lparr>dnsCache := Some c'\<rparr>)) s)"

definition dnsCacheAdd :: "'w lib \<Rightarrow> string \<Rightarrow> string \<Rightarrow> duration \<Rightarrow> ('w, unit) act" where
  "dnsCacheAdd L k v lifetime s = (case dnsCache s of
       None \<Rightarrow> Some ((), s)
     | Some c \<Rightarrow> bindS (ext (Now L)) (\<lambda>t s'. case sAddWithLifetime (hashString L) (millis t) c k v lifetime of
         None \<Rightarrow> None
       | Some (c', _) \<Rightarrow> Some ((), s'\<lparr>dnsCache := Some c'\<rparr>)) s)"

definition ipDomainCacheGet :: "'w lib \<Rightarrow> string \<Rightarrow> ('w, string option) act" where
  "ipDomainCacheGet L k s = (case ipDomainCache s of
       None \<Rightarrow> Some (None, s)
     | Some c \<Rightarrow> bindS (ext (Now L)) (\<lambda>t s'. case sGet (hashString L) (millis t) c k of
         None \<Rightarrow> None
       | Some (c', r) \<Rightarrow> Some (r, s'\<lparr>ipDomainCache := Some c'\<rparr>)) s)"

definition ipDomainCacheAdd :: "'w lib \<Rightarrow> string \<Rightarrow> string \<Rightarrow> duration \<Rightarrow> ('w, unit) act" where
  "ipDomainCacheAdd L k v lifetime s = (case ipDomainCache s of
       None \<Rightarrow> Some ((), s)
     | Some c \<Rightarrow> bindS (ext (Now L)) (\<lambda>t s'. case sAddWithLifetime (hashString L) (millis t) c k v lifetime of
         None \<Rightarrow> None
       | Some (c', _) \<Rightarrow> Some ((), s'\<lparr>ipDomainCache := Some c'\<rparr>)) s)"

end
