(* ===== verification/DNS.thy ===== *)
theory DNS
  imports Core_State
begin

text \<open>
  Name resolution (\<^verbatim>\<open>core/dns.go\<close>, \<^verbatim>\<open>core/bootstrap.go\<close>, \<^verbatim>\<open>core/resolver.go\<close>): configuration of the
  upstream servers, failover between them, resolution with its cache, and the reverse cache.
\<close>

section \<open>Bootstrap resolution\<close>

definition reverseMappingTTL :: duration where "reverseMappingTTL = 5 * minute"

definition netIPTo4 :: "netIP \<Rightarrow> 32 word option" where
  "netIPTo4 ip = (case ip of IP4 a \<Rightarrow> Some a | IP16 a \<Rightarrow> To4 a)"

definition netIPString :: "netIP \<Rightarrow> string" where
  "netIPString ip = (case ip of IP4 a \<Rightarrow> string4 a | IP16 a \<Rightarrow> IPString a)"

fun pickBootstrapLoop :: "string \<Rightarrow> netIP option list \<Rightarrow> string" where
  "pickBootstrapLoop first [] = first"
| "pickBootstrapLoop first (None # addrs) = pickBootstrapLoop first addrs"
| "pickBootstrapLoop first (Some ip # addrs) =
     (let first' = (if first = [] then netIPString ip else first) in
      case netIPTo4 ip of Some v4 \<Rightarrow> string4 v4 | None \<Rightarrow> pickBootstrapLoop first' addrs)"

definition pickBootstrapIP :: "netIP option list \<Rightarrow> string" where
  "pickBootstrapIP addrs = pickBootstrapLoop [] addrs"

definition resolveBootstrapHost :: "'w lib \<Rightarrow> string \<Rightarrow> ('w, string res) act" where
  "resolveBootstrapHost L host =
     (if host = [] \<or> ParseIP host \<noteq> None then ret (Inr host)
      else bindS (dnsCacheGet L host) (\<lambda>hit. case hit of
        Some ip \<Rightarrow> ret (Inr ip)
      | None \<Rightarrow> bindE (wrapE (''bootstrap resolve '' @ host) (ext (LookupIPAddr L host))) (\<lambda>addrs.
          let ip = pickBootstrapIP addrs in
          if ip = [] then ret (Inl (ErrNew (''bootstrap resolve '' @ host @ '': no address found'')))
          else bindS (dnsCacheAdd L host ip reverseMappingTTL) (\<lambda>_. ret (Inr ip)))))"

section \<open>Dialling DNS over HTTPS\<close>

text \<open>The host a DNS-over-HTTPS server's name leads to under its policy, before bootstrap resolution.\<close>

definition dohNameHost :: "string \<Rightarrow> Policy \<Rightarrow> ('w, string res) act" where
  "dohNameHost host pol = bindS (gets tables) (\<lambda>t.
     let policyHost = (if HasPrefix (Host pol) ''^'' then drop 1 (Host pol) else Host pol);
          selectedHost =
            (if policyHost = [] \<or> policyHost = unsetString
             then (case FindDomain (hostsMatcher t) host of
                 Some h \<Rightarrow> if HasPrefix h ''^'' then drop 1 h else h
               | None \<Rightarrow> [])
             else policyHost)
      in if selectedHost = ''self'' then ret (Inr host)
         else if HasPrefix selectedHost ''$'' then onPools (\<lambda>ps. getFromIPPool ps (drop 1 selectedHost))
         else if HasPrefix selectedHost ''?'' then ret (Inr host)
         else ret (Inr selectedHost))"

text \<open>The host to connect to and the policy, for a server given by address and by name.\<close>

definition dohHostPolicy :: "string \<Rightarrow> ('w, (string \<times> Policy) res) act" where
  "dohHostPolicy host = bindS (gets tables) (\<lambda>t.
     let dflt = defaultPolicy t in
     if ParseIP host \<noteq> None
     then bindE (wrapE ''ip redirect'' (onPools (ipRedirect t host))) (\<lambda>(h, ipPolicy).
       ret (Inr (h, case ipPolicy of None \<Rightarrow> dflt | Some p \<Rightarrow> mergePolicies [p, dflt])))
     else
       let pol = (case FindDomain (domainMatcher t) host of Some p \<Rightarrow> mergePolicies [p, dflt] | None \<Rightarrow> dflt)
       in bindE (dohNameHost host pol) (\<lambda>h. ret (Inr (h, pol))))"

definition genDoHDialFuncFor :: "'w lib \<Rightarrow> string \<Rightarrow> ('w, dialSpec res) act" where
  "genDoHDialFuncFor L url = (case ParseURL url of
       None \<Rightarrow> ret (Inl (OpError ''invalid DoH URL'' (ErrNew ''parse'')))
     | Some parsedURL \<Rightarrow>
         bindE (dohHostPolicy (Hostname parsedURL)) (\<lambda>(host, pol).
         bindE (if ParseIP host = None then resolveBootstrapHost L host else ret (Inr host)) (\<lambda>host.
           if Mode' pol = ModeBlock \<or> Mode' pol = ModeTLSAlert
           then ret (Inl (ErrNew ''the mode of the DoH cannot be `block`''))
           else
             let port = (if urlPort parsedURL = [] then ''443'' else urlPort parsedURL);
                 port = (if Port pol \<noteq> unsetInt then Itoa (Port pol) else port)
             in ret (Inr (DialPolicy (JoinHostPort host port) (ConnectTimeout pol) pol)))))"

section \<open>Upstream servers\<close>

text \<open>A computation that does not return or panics.\<close>

definition liftO :: "'a option \<Rightarrow> ('s, 'a) eff" where
  "liftO x s = map_option (\<lambda>v. (v, s)) x"

definition clientExchange :: "'w lib \<Rightarrow> DNSClient \<Rightarrow> string \<Rightarrow> Msg \<Rightarrow> ('w, Msg res) act" where
  "clientExchange L cli addr req = (case cli of
       PlainClient c \<Rightarrow> ext (ClientExchange L c req addr)
     | AntiHijack c \<Rightarrow>
         bindS (ext (DialDNS L c addr)) (\<lambda>dialled.
         bindS (ext (Now L)) (\<lambda>t.
         bindS (gets edns0SubnetOpt) (\<lambda>edns0.
         bindS (liftO (antiExchange c (edns0 \<noteq> None) (IsEdns0 L req) t req dialled)) (\<lambda>r.
           ret (map_sum id fst r))))))"

definition doqCall :: "'w lib \<Rightarrow> nat \<Rightarrow> Msg \<Rightarrow> ('w, Msg res) act" where
  "doqCall L i req s =
     (if i < length (doqs s) then
        (case doqExchange (wire L) (quicLib L) (doqs s ! i) req (world s) of
           (r, q, w) \<Rightarrow> Some (r, s\<lparr>doqs := (doqs s)[i := q], world := w\<rparr>))
      else None)"

fun runExchange :: "'w lib \<Rightarrow> exchange \<Rightarrow> Msg \<Rightarrow> ('w, Msg res) act" where
  "runExchange L (ExClient cli addr) req = clientExchange L cli addr req"
| "runExchange L (ExDoH spec ep) req = ext (dohExchangeWith (wire L) (http L spec) ep req)"
| "runExchange L (ExDoQ i) req = doqCall L i req"

definition exchangeUpstream :: "'w lib \<Rightarrow> Msg \<Rightarrow> ('w, Msg res) act" where
  "exchangeUpstream L req = bindS (gets dnsExchange) (\<lambda>single. case single of
       None \<Rightarrow> ret (Inl (ErrNew ''no dns upstream configured''))
     | Some x \<Rightarrow> runExchange L x req)"

text \<open>The loop over the upstream servers; the list holds the indices still to be tried.\<close>

fun exchangeLoop :: "'w lib \<Rightarrow> Msg \<Rightarrow> exchange list \<Rightarrow> nat list \<Rightarrow> err option \<Rightarrow> ('w, Msg res) act" where
  "exchangeLoop L req exchanges [] lastErr =
     bindS (modify (\<lambda>s. s\<lparr>dnsExchangeIdx := 0\<rparr>)) (\<lambda>_. bindS (liftO lastErr) (\<lambda>e. ret (Inl e)))"
| "exchangeLoop L req exchanges (idx # idxs) lastErr =
     bindS (runExchange L (exchanges ! idx) req) (\<lambda>r. case r of
         Inr resp \<Rightarrow> bindS (modify (\<lambda>s. s\<lparr>dnsExchangeIdx := idx\<rparr>)) (\<lambda>_. ret (Inr resp))
       | Inl e \<Rightarrow> exchangeLoop L req exchanges idxs (Some e))"

definition exchangeMsg :: "'w lib \<Rightarrow> Msg \<Rightarrow> ('w, Msg res) act" where
  "exchangeMsg L req =
     bindS (gets dnsExchanges) (\<lambda>exchanges.
     let n = length exchanges in
     if n = 0 then exchangeUpstream L req
     else bindS (gets dnsExchangeIdx) (\<lambda>i0.
       let start = i0 mod n in
       exchangeLoop L req exchanges (map (\<lambda>i. (start + i) mod n) [0..<n]) None))"

definition dnsClientExchange :: "'w lib \<Rightarrow> Msg \<Rightarrow> ('w, Msg res) act" where
  "dnsClientExchange L req =
     bindS (gets dnsClient') (\<lambda>client. bindS (gets dnsAddr) (\<lambda>addr. case client of
       None \<Rightarrow> ret (Inl (ErrNew ''no dns client configured''))
     | Some cli \<Rightarrow> clientExchange L cli addr req))"

definition dohExchange :: "'w lib \<Rightarrow> 'w httpClient \<Rightarrow> Msg \<Rightarrow> ('w, Msg res) act" where
  "dohExchange L hc req =
     bindS (gets dnsAddr) (\<lambda>addr. bindS (gets httpClient') (\<lambda>present.
       if \<not> present then ret (Inl (ErrNew ''no doh client configured''))
       else ext (dohExchangeWith (wire L) hc addr req)))"

section \<open>Configuration\<close>

definition dnsEndpoints :: "DNSConfig \<Rightarrow> string list" where
  "dnsEndpoints c = Addr' c # filter (\<lambda>r. r \<noteq> [] \<and> r \<noteq> Addr' c) (map TrimSpace (Resolvers c))"

definition positiveDuration :: "string \<Rightarrow> string \<Rightarrow> duration res" where
  "positiveDuration name s = (case ParseDuration s of
       Inl e \<Rightarrow> Inl (OpError (''invalid '' @ name) e)
     | Inr d \<Rightarrow> if d \<le> 0 then Inl (ErrNew (name @ '' must be greater than 0'')) else Inr d)"

definition plainClient :: "string \<Rightarrow> dnsClient" where
  "plainClient net = \<lparr>Net = net, UDPSize = 0, Timeout = 0, ReadTimeout = 0, WriteTimeout = 0, dialerTimeout = None\<rparr>"

definition udpClient :: "DNSConfig \<Rightarrow> DNSClient res" where
  "udpClient c =
     bind_res (if ClientTimeout c \<noteq> [] then positiveDuration ''dns.client_timeout'' (ClientTimeout c) else Inr 0) (\<lambda>timeout.
     let cli = (plainClient [])\<lparr>UDPSize := UDPSize' c, Timeout := timeout\<rparr> in
     if WaitTimeout c \<noteq> [] \<or> MinRTT c \<noteq> [] then
       bind_res (if WaitTimeout c \<noteq> [] then positiveDuration ''dns.wait_timeout'' (WaitTimeout c) else Inr 0) (\<lambda>wt.
       bind_res (if MinRTT c \<noteq> [] then positiveDuration ''dns.min_rtt'' (MinRTT c) else Inr 0) (\<lambda>rtt.
         Inr (AntiHijack (dnsClient.extend cli \<lparr>waitTimeout = wt, minRTT = rtt\<rparr>))))
     else Inr (PlainClient cli))"

text \<open>The exchanges of the address-based transports.\<close>

definition clientExchanges :: "DNSClient \<Rightarrow> string list \<Rightarrow> exchange list res" where
  "clientExchanges cli eps = foldRes (\<lambda>ep exs. case ParseAddrPort ep of
       Inl e \<Rightarrow> Inl (OpError ''invalid dns.addr'' e)
     | Inr _ \<Rightarrow> Inr (exs @ [ExClient cli ep])) eps []"

definition isValidHTTPSURL :: "string \<Rightarrow> bool" where
  "isValidHTTPSURL s = (case ParseURL s of None \<Rightarrow> False | Some u \<Rightarrow> Scheme u = ''https'' \<and> uHost u \<noteq> [])"

fun dohExchanges :: "'w lib \<Rightarrow> DNSConfig \<Rightarrow> string list \<Rightarrow> exchange list \<Rightarrow> ('w, exchange list res) act" where
  "dohExchanges L c [] exs = ret (Inr exs)"
| "dohExchanges L c (ep # eps) exs =
     (if \<not> isValidHTTPSURL ep then ret (Inl (ErrNew (''invalid dns resolver url: '' @ ep)))
      else if DoHSocks5Addr c = [] then
        bindE (wrapE ''generate DoH dial function'' (genDoHDialFuncFor L ep)) (\<lambda>spec.
          dohExchanges L c eps (exs @ [ExDoH spec ep]))
      else case SOCKS5 L (DoHSocks5Addr c) of
        Some e \<Rightarrow> ret (Inl (OpError ''create socks5 dialer'' e))
      | None \<Rightarrow> dohExchanges L c eps (exs @ [ExDoH (DialSocks5 (DoHSocks5Addr c)) ep]))"

definition doqEndpoint :: "string \<Rightarrow> string" where
  "doqEndpoint ep = (case SplitHostPort ep of Inl _ \<Rightarrow> JoinHostPort ep ''853'' | Inr _ \<Rightarrow> ep)"

text \<open>New clients are added to those in use; the code leaves the old ones to the garbage collector.\<close>

definition doqExchanges :: "string list \<Rightarrow> ('w, exchange list res) act" where
  "doqExchanges eps s =
     Some (Inr (map (\<lambda>i. ExDoQ (length (doqs s) + i)) [0..<length eps]),
           s\<lparr>doqs := doqs s @ map (newDoQClient \<circ> doqEndpoint) eps\<rparr>)"

text \<open>The client, whether there is an HTTP client, and the exchanges, by the type of the servers.\<close>

definition plainUpstreams :: "DNSConfig \<Rightarrow> DNSClient \<Rightarrow> (DNSClient option \<times> bool \<times> exchange list) res" where
  "plainUpstreams c cli = (case clientExchanges cli (dnsEndpoints c) of Inl e \<Rightarrow> Inl e | Inr exs \<Rightarrow> Inr (Some cli, False, exs))"

definition dnsUpstreams :: "'w lib \<Rightarrow> DNSConfig \<Rightarrow> ('w, (DNSClient option \<times> bool \<times> exchange list) res) act" where
  "dnsUpstreams L c =
     (let eps = dnsEndpoints c in
      if Type c = [] \<or> Type c = ''udp'' then ret (bind_res (udpClient c) (plainUpstreams c))
      else if Type c = ''tcp'' then ret (plainUpstreams c (PlainClient (plainClient ''tcp'')))
      else if Type c = ''tls'' then ret (plainUpstreams c (PlainClient (plainClient ''tcp-tls'')))
      else if Type c = ''https'' then
        (if \<not> isValidHTTPSURL (Addr' c) then ret (Inl (ErrNew ''invalid dns.addr''))
         else bindE (dohExchanges L c eps []) (\<lambda>exs. ret (Inr (None, True, exs))))
      else if Type c = ''quic'' then bindE (doqExchanges eps) (\<lambda>exs. ret (Inr (None, False, exs)))
      else ret (Inl (ErrNew (''unknown dns.type: '' @ Type c))))"

definition newDNSCaches :: "'w lib \<Rightarrow> DNSConfig \<Rightarrow> (stringCache option \<times> stringCache option) res" where
  "newDNSCaches L c =
     (if DisableCache c then Inr (None, None)
      else let capacity = (if CacheCapacity c = 0 then 4096 else CacheCapacity c) in
        (case NewSharded (gomaxprocs L) capacity [] [] of
           Inl e \<Rightarrow> Inl (OpError ''init DNS cache'' e)
         | Inr dc \<Rightarrow> (case NewSharded (gomaxprocs L) capacity [] [] of
             Inl e \<Rightarrow> Inl (OpError ''init ip-domain cache'' e)
           | Inr ic \<Rightarrow> Inr (Some dc, Some ic))))"

definition addrSlice :: "Addr \<Rightarrow> netIP" where
  "addrSlice a = (case a of V4 x \<Rightarrow> IP4 x | _ \<Rightarrow> IP16 (As16 a))"

definition newEDNS0 :: "DNSConfig \<Rightarrow> RR option res" where
  "newEDNS0 c =
     (if EDNS0Subnet c = [] then Inr None
      else case ParsePrefix (EDNS0Subnet c) of
        Inl e \<Rightarrow> Inl (OpError (''invalid edns0_subnet '' @ EDNS0Subnet c) e)
      | Inr prefix \<Rightarrow>
          let family = (if Is6 (Unmap (pAddr prefix)) then 2 else 1) in
          Inr (Some (RR_OPT (newHeader ''.'' 41) [EDNS0_SUBNET family (pBits prefix mod 256) (addrSlice (pAddr prefix))])))"

definition setDNS :: "'w lib \<Rightarrow> DNSConfig \<Rightarrow> ('w, unit res) act" where
  "setDNS L c =
     (if Addr' c = [] then ret (Inl (ErrNew ''dns.addr cannot be empty''))
      else bindE (dnsUpstreams L c) (\<lambda>(client, hClient, exchanges).
        bindE (ret (newDNSCaches L c)) (\<lambda>(dc, ic).
        bindE (ret (newEDNS0 c)) (\<lambda>edns0.
        bindS (modify (\<lambda>s. s\<lparr>lastDNSConfig := c, dnsAddr := Addr' c, dnsClient' := client, httpClient' := hClient,
            dnsExchanges := exchanges,
            dnsExchange := (case exchanges of [] \<Rightarrow> None | x # _ \<Rightarrow> Some x),
            dnsResolveGroup := SingleFlight c, dnsCache := dc, ipDomainCache := ic, edns0SubnetOpt := edns0\<rparr>))
          (\<lambda>_. ret (Inr ()))))))"

section \<open>Resolution\<close>

text \<open>What a reply gives for the two families, with the error of a reply without the record.\<close>

definition replyIP :: "'w lib \<Rightarrow> (RR list \<Rightarrow> netIP option) \<Rightarrow> string \<Rightarrow> Msg \<Rightarrow> netIP res" where
  "replyIP L pk missing resp =
     (if Rcode resp \<noteq> 0 then Inl (ErrNew (''bad rcode: '' @ RcodeToString L (Rcode resp)))
      else case pk (Answer resp) of None \<Rightarrow> Inl (ErrNew missing) | Some ip \<Rightarrow> Inr ip)"

text \<open>The second query, for the other family.\<close>

definition secondQuery :: "'w lib \<Rightarrow> string \<Rightarrow> nat \<Rightarrow> (RR list \<Rightarrow> netIP option) \<Rightarrow> Msg \<Rightarrow> ('w, netIP res) act" where
  "secondQuery L domain qtype pk msg =
     bindS (ext (SetQuestion L msg (domain @ ''.'') qtype)) (\<lambda>msg2.
     bindS (exchangeMsg L msg2) (\<lambda>r. case r of
         Inl e \<Rightarrow> ret (Inl (OpError ''dns exchange'' (JoinError [e])))
       | Inr resp \<Rightarrow> ret (replyIP L pk ''record not found'' resp)))"

definition firstQuestion :: "'w lib \<Rightarrow> string \<Rightarrow> DNSMode \<Rightarrow> ('w, Msg) act" where
  "firstQuestion L domain mode =
     (if mode = DNSModePreferIPv4 \<or> mode = DNSModeIPv4Only then ext (SetQuestion L newMsg (domain @ ''.'') TypeA)
      else if mode = DNSModePreferIPv6 \<or> mode = DNSModeIPv6Only then ext (SetQuestion L newMsg (domain @ ''.'') TypeAAAA)
      else ret newMsg)"

text \<open>The address, \<^const>\<open>None\<close> for a nil one, which only the unset mode gives.\<close>

definition pickByMode :: "'w lib \<Rightarrow> string \<Rightarrow> DNSMode \<Rightarrow> Msg \<Rightarrow> Msg \<Rightarrow> ('w, netIP option res) act" where
  "pickByMode L domain mode msg resp = (case mode of
       DNSModeUnset \<Rightarrow> ret (Inr None)
     | DNSModeIPv4Only \<Rightarrow> ret (map_sum id Some (replyIP L pickFirstARecord ''A record not found'' resp))
     | DNSModeIPv6Only \<Rightarrow> ret (map_sum id Some (replyIP L pickFirstAAAARecord ''AAAA record not found'' resp))
     | DNSModePreferIPv4 \<Rightarrow> (case pickFirstARecord (Answer resp) of
         Some ip \<Rightarrow> ret (Inr (Some ip))
       | None \<Rightarrow> bindE (secondQuery L domain TypeAAAA pickFirstAAAARecord msg) (\<lambda>ip. ret (Inr (Some ip))))
     | DNSModePreferIPv6 \<Rightarrow> (case pickFirstAAAARecord (Answer resp) of
         Some ip \<Rightarrow> ret (Inr (Some ip))
       | None \<Rightarrow> bindE (secondQuery L domain TypeA pickFirstARecord msg) (\<lambda>ip. ret (Inr (Some ip)))))"

definition doDNSResolve :: "'w lib \<Rightarrow> string \<Rightarrow> DNSMode \<Rightarrow> duration \<Rightarrow> ('w, string res) act" where
  "doDNSResolve L domain mode cacheTTL =
     bindS (firstQuestion L domain mode) (\<lambda>msg0.
     bindS (gets edns0SubnetOpt) (\<lambda>edns0.
     let msg = (case edns0 of Some opt \<Rightarrow> msg0\<lparr>Extra := [opt]\<rparr> | None \<Rightarrow> msg0) in
     bindE (wrapE ''dns exchange'' (exchangeMsg L msg)) (\<lambda>resp.
       if Rcode resp \<noteq> 0 then ret (Inl (ErrNew (''bad rcode: '' @ RcodeToString L (Rcode resp))))
       else bindE (pickByMode L domain mode msg resp) (\<lambda>ip.
         let ipStr = (case ip of Some a \<Rightarrow> netIPString a | None \<Rightarrow> ''<nil>'') in
         bindS (if cacheTTL \<noteq> 0 \<and> cacheTTL \<noteq> unsetInt then dnsCacheAdd L domain ipStr cacheTTL else ret ()) (\<lambda>_.
           ret (Inr ipStr))))))"

text \<open>The result tells whether it came from the cache. With a single caller \<^verbatim>\<open>group.Do\<close> calls the
  function it is given.\<close>

definition dnsResolve :: "'w lib \<Rightarrow> string \<Rightarrow> DNSMode \<Rightarrow> duration \<Rightarrow> ('w, (string \<times> bool) res) act" where
  "dnsResolve L domain mode cacheTTL =
     bindS (dnsCacheGet L domain) (\<lambda>hit. case hit of
       Some ip \<Rightarrow> ret (Inr (ip, True))
     | None \<Rightarrow> bindE (doDNSResolve L domain mode cacheTTL) (\<lambda>ip. ret (Inr (ip, False))))"

section \<open>The resolver interface\<close>

definition rememberDomainIPMapping :: "'w lib \<Rightarrow> string \<Rightarrow> string \<Rightarrow> ('w, unit) act" where
  "rememberDomainIPMapping L domain ip =
     (if domain = [] \<or> ip = [] then ret () else ipDomainCacheAdd L ip domain reverseMappingTTL)"

definition fakeLookup :: "'w lib \<Rightarrow> string \<Rightarrow> ('w, string option) act" where
  "fakeLookup L ip = bindS (ext (Now L)) (\<lambda>t s.
     case lookupFakeDomainByIP (fakes s) t ip of (r, f) \<Rightarrow> Some (r, s\<lparr>fakes := f\<rparr>))"

definition lookupDomainByIP :: "'w lib \<Rightarrow> string \<Rightarrow> ('w, string option) act" where
  "lookupDomainByIP L ip = bindS (fakeLookup L ip) (\<lambda>hit. case hit of
       Some d \<Rightarrow> ret (Some d)
     | None \<Rightarrow> if ip = [] then ret None else ipDomainCacheGet L ip)"

definition Resolve :: "'w lib \<Rightarrow> string \<Rightarrow> DNSMode \<Rightarrow> ('w, (string \<times> bool) res) act" where
  "Resolve L domain mode = bindE (dnsResolve L domain mode reverseMappingTTL) (\<lambda>(ip, cached).
     bindS (rememberDomainIPMapping L domain ip) (\<lambda>_. ret (Inr (ip, cached))))"

section \<open>Operations that return and keep the state well formed\<close>

text \<open>The well-formed states: the pools and the caches satisfy their invariants, the single
  upstream server is the first of the list, and the QUIC clients it names exist.\<close>

definition wfCore :: "'w lib \<Rightarrow> 'w core \<Rightarrow> bool" where
  "wfCore L s \<longleftrightarrow>
     (\<forall>(t, p) \<in> set (ipPools s). poolOK p) \<and>
     (\<forall>c. dnsCache s = Some c \<longrightarrow> sInv (hashString L) c) \<and>
     (\<forall>c. ipDomainCache s = Some c \<longrightarrow> sInv (hashString L) c) \<and>
     (\<forall>c. ttlCache s = Some c \<longrightarrow> sInv (hashString L) c) \<and>
     dnsExchange s = (case dnsExchanges s of [] \<Rightarrow> None | x # _ \<Rightarrow> Some x) \<and>
     (\<forall>i. ExDoQ i \<in> set (dnsExchanges s) \<longrightarrow> i < length (doqs s)) \<and>
     fakeReach (fakes s)"

text \<open>The configuration: what only a change of the configuration may change.\<close>

definition conf :: "'w core \<Rightarrow> _" where
  "conf s = (tables s, gfwDomainMatcher s, gfwBypassMatcher s, dnsAddr s, dnsClient' s, httpClient' s, dnsExchanges s, dnsExchange s,
     dnsResolveGroup s, edns0SubnetOpt s, lastDNSConfig s, map_option (\<lambda>_. ()) (dnsCache s), map_option (\<lambda>_. ()) (ipDomainCache s),
     calcTTL s, map_option (\<lambda>_. ()) (ttlCache s), ttlProbingGroup s, lastTTLProbingConfig s)"

definition good :: "'w lib \<Rightarrow> 'w core \<Rightarrow> 'w core \<Rightarrow> bool" where
  "good L s s' \<longleftrightarrow> wfCore L s' \<and> conf s' = conf s \<and> length (doqs s) \<le> length (doqs s')"

definition safe :: "'w lib \<Rightarrow> ('w, 'a) act \<Rightarrow> bool" where
  "safe L m \<longleftrightarrow> (\<forall>s. wfCore L s \<longrightarrow> returns m s (\<lambda>_. good L s))"

named_theorems safe_rules

lemma safeD: "safe L m \<Longrightarrow> wfCore L s \<Longrightarrow> returns m s (\<lambda>_. good L s)"
  by (simp add: safe_def)

lemma good_refl: "wfCore L s \<Longrightarrow> good L s s"
  by (simp add: good_def)

lemma good_trans: "good L s t \<Longrightarrow> good L t u \<Longrightarrow> good L s u"
  by (auto simp: good_def)

lemma safe_ret [safe_rules]: "safe L (ret x)"
  by (simp add: safe_def good_refl returns_ret)

lemma safe_gets [safe_rules]: "safe L (gets f)"
  by (simp add: safe_def good_refl returns_gets)

lemma safe_bindS [safe_rules]: "safe L m \<Longrightarrow> (\<And>x. safe L (f x)) \<Longrightarrow> safe L (bindS m f)"
  unfolding safe_def
  by (intro allI impI returns_bindS, rule returns_mono, blast) (metis good_def good_trans returns_mono)

lemma safe_sum [safe_rules]: "(\<And>e. safe L (f e)) \<Longrightarrow> (\<And>x. safe L (g x)) \<Longrightarrow> safe L (case r of Inl e \<Rightarrow> f e | Inr x \<Rightarrow> g x)"
  by (cases r) simp_all

lemma safe_option [safe_rules]: "safe L f \<Longrightarrow> (\<And>x. safe L (g x)) \<Longrightarrow> safe L (case r of None \<Rightarrow> f | Some x \<Rightarrow> g x)"
  by (cases r) simp_all

lemma safe_prod [safe_rules]: "(\<And>x y. safe L (f x y)) \<Longrightarrow> safe L (case p of (x, y) \<Rightarrow> f x y)"
  by (cases p) simp

lemma safe_if [safe_rules]: "(b \<Longrightarrow> safe L f) \<Longrightarrow> (\<not> b \<Longrightarrow> safe L g) \<Longrightarrow> safe L (if b then f else g)"
  by simp

lemma safe_Let [safe_rules]: "(\<And>x. safe L (f x)) \<Longrightarrow> safe L (Let v f)"
  by (simp add: Let_def)

lemma safe_bindE [safe_rules]: "safe L m \<Longrightarrow> (\<And>x. safe L (f x)) \<Longrightarrow> safe L (bindE m f)"
  unfolding bindE_def by (intro safe_rules)

lemma safe_wrapE [safe_rules]: "safe L m \<Longrightarrow> safe L (wrapE msg m)"
  unfolding wrapE_def by (intro safe_rules)

lemma good_world [simp]: "good L s (s\<lparr>world := w\<rparr>) = wfCore L s"
  by (simp add: good_def conf_def wfCore_def)

lemma safe_ext [safe_rules]: "safe L (ext f)"
  by (auto simp: safe_def returns_def ext_def split: prod.split)

lemma getFromIPPool_ok:
  assumes "\<forall>(t, p) \<in> set pools. poolOK p"
  shows "\<exists>r pools'. getFromIPPool pools tag = Some (r, pools') \<and> (\<forall>(t, p) \<in> set pools'. poolOK p)"
proof (cases "pools = [] \<or> map_of pools tag = None")
  case True
  then show ?thesis using assms by (auto simp: getFromIPPool_def)
next
  case False
  then obtain p where p: "pools \<noteq> []" "map_of pools tag = Some p" by auto
  then have ok: "poolOK p" using assms map_of_SomeD by fastforce
  obtain ip p' where g: "IP_Pool.Get p = Some (ip, p')"
    using Get_run [OF ok] by (cases "curValidIPs p = 0") (auto simp: IP_Pool.Get_def)
  have "poolOK p'" using pool_step_ok [OF pool_step.got [OF g] ok] by simp
  then show ?thesis using p g assms by (auto simp: getFromIPPool_def)
qed

lemma safe_onPools:
  assumes "\<And>ps. \<forall>(t, p) \<in> set ps. poolOK p \<Longrightarrow> \<exists>r ps'. m ps = Some (r, ps') \<and> (\<forall>(t, p) \<in> set ps'. poolOK p)"
  shows "safe L (onPools m)"
proof -
  have "returns (onPools m) s (\<lambda>_. good L s)" if w: "wfCore L s" for s
  proof -
    have "\<forall>(t, p) \<in> set (ipPools s). poolOK p" using w by (simp add: wfCore_def)
    from assms [OF this] obtain r ps' where ps': "m (ipPools s) = Some (r, ps')" "\<forall>(t, p) \<in> set ps'. poolOK p" by blast
    show ?thesis unfolding onPools_def
      by (rule returns_on) (use ps' w in \<open>auto simp: returns_def good_def conf_def wfCore_def\<close>)
  qed
  then show ?thesis by (simp add: safe_def)
qed

lemma ipRedirect_ok:
  assumes "\<forall>(t, p) \<in> set ps. poolOK p"
  shows "\<exists>r ps'. ipRedirect t ip ps = Some (r, ps') \<and> (\<forall>(t, p) \<in> set ps'. poolOK p)"
proof (cases "getIPPolicy t ip")
  case (Some p)
  obtain r ps' where "getFromIPPool ps (drop 1 (MapTo p)) = Some (r, ps')" "\<forall>(t, p) \<in> set ps'. poolOK p"
    using getFromIPPool_ok [OF assms] by blast
  then show ?thesis using Some assms by (cases r) (simp_all add: ipRedirect_def bindE_def bindS_def)
qed (use assms in \<open>simp add: ipRedirect_def\<close>)

lemmas safe_pools [safe_rules] = safe_onPools [OF getFromIPPool_ok] safe_onPools [OF ipRedirect_ok]

lemma safe_dnsCacheGet [safe_rules]: "safe L (dnsCacheGet L k)"
proof -
  have "returns (dnsCacheGet L k) s (\<lambda>_. good L s)" if w: "wfCore L s" for s
  proof (cases "dnsCache s")
    case (Some c)
    obtain t w' where t: "Now L (world s) = (t, w')" by force
    have "sInv (hashString L) c" using w Some by (simp add: wfCore_def)
    from sharded.get_law [OF this, of "millis t" k] obtain c' r where
      "sGet (hashString L) (millis t) c k = Some (c', r)" "sInv (hashString L) c'" by blast
    with w Some t show ?thesis
      by (auto simp: returns_def dnsCacheGet_def bindS_def ext_def good_def conf_def wfCore_def)
  qed (use w in \<open>simp add: returns_def dnsCacheGet_def good_refl\<close>)
  then show ?thesis by (simp add: safe_def)
qed

lemma safe_dnsCacheAdd [safe_rules]: "safe L (dnsCacheAdd L k v d)"
proof -
  have "returns (dnsCacheAdd L k v d) s (\<lambda>_. good L s)" if w: "wfCore L s" for s
  proof (cases "dnsCache s")
    case (Some c)
    obtain t w' where t: "Now L (world s) = (t, w')" by force
    have "sInv (hashString L) c" using w Some by (simp add: wfCore_def)
    from sharded.add_law [OF this, of "millis t" k v d] obtain c' b where
      "sAddWithLifetime (hashString L) (millis t) c k v d = Some (c', b)" "sInv (hashString L) c'" by blast
    with w Some t show ?thesis
      by (auto simp: returns_def dnsCacheAdd_def bindS_def ext_def good_def conf_def wfCore_def)
  qed (use w in \<open>simp add: returns_def dnsCacheAdd_def good_refl\<close>)
  then show ?thesis by (simp add: safe_def)
qed

lemma safe_ipDomainCacheGet [safe_rules]: "safe L (ipDomainCacheGet L k)"
proof -
  have "returns (ipDomainCacheGet L k) s (\<lambda>_. good L s)" if w: "wfCore L s" for s
  proof (cases "ipDomainCache s")
    case (Some c)
    obtain t w' where t: "Now L (world s) = (t, w')" by force
    have "sInv (hashString L) c" using w Some by (simp add: wfCore_def)
    from sharded.get_law [OF this, of "millis t" k] obtain c' r where
      "sGet (hashString L) (millis t) c k = Some (c', r)" "sInv (hashString L) c'" by blast
    with w Some t show ?thesis
      by (auto simp: returns_def ipDomainCacheGet_def bindS_def ext_def good_def conf_def wfCore_def)
  qed (use w in \<open>simp add: returns_def ipDomainCacheGet_def good_refl\<close>)
  then show ?thesis by (simp add: safe_def)
qed

lemma safe_ipDomainCacheAdd [safe_rules]: "safe L (ipDomainCacheAdd L k v d)"
proof -
  have "returns (ipDomainCacheAdd L k v d) s (\<lambda>_. good L s)" if w: "wfCore L s" for s
  proof (cases "ipDomainCache s")
    case (Some c)
    obtain t w' where t: "Now L (world s) = (t, w')" by force
    have "sInv (hashString L) c" using w Some by (simp add: wfCore_def)
    from sharded.add_law [OF this, of "millis t" k v d] obtain c' b where
      "sAddWithLifetime (hashString L) (millis t) c k v d = Some (c', b)" "sInv (hashString L) c'" by blast
    with w Some t show ?thesis
      by (auto simp: returns_def ipDomainCacheAdd_def bindS_def ext_def good_def conf_def wfCore_def)
  qed (use w in \<open>simp add: returns_def ipDomainCacheAdd_def good_refl\<close>)
  then show ?thesis by (simp add: safe_def)
qed

lemma safe_resolveBootstrapHost [safe_rules]: "safe L (resolveBootstrapHost L host)"
  unfolding resolveBootstrapHost_def by (intro safe_rules)

lemma safe_dohNameHost [safe_rules]: "safe L (dohNameHost host pol)"
  unfolding dohNameHost_def by (intro safe_rules)

lemma safe_dohHostPolicy [safe_rules]: "safe L (dohHostPolicy host)"
  unfolding dohHostPolicy_def by (intro safe_rules)

lemma safe_genDoHDialFuncFor [safe_rules]: "safe L (genDoHDialFuncFor L url)"
  unfolding genDoHDialFuncFor_def by (intro safe_rules)

text \<open>A read on a connection whose deadline has passed fails, so every conversation has a failing read.\<close>

definition deadlinesHold :: "'w lib \<Rightarrow> bool" where
  "deadlinesHold L \<longleftrightarrow> (\<forall>c addr w co w' sz wd rd. DialDNS L c addr w = (Inr co, w') \<longrightarrow>
     (\<exists>x \<in> set (replies (co sz wd rd)). isl (fst x)))"

lemma antiLoop_returns: "\<exists>x \<in> set rs. isl (fst x) \<Longrightarrow> antiLoop c edns0 qid kept since rs \<noteq> None"
proof (induction rs arbitrary: kept)
  case (Cons x rs)
  obtain r rtt k n t where x: "x = (r, rtt)" "kept = (k, n, t)" by (cases x; cases kept)
  show ?case
  proof (cases r)
    case (Inr m)
    then have "\<And>kp. antiLoop c edns0 qid kp since rs \<noteq> None" using Cons x by simp
    then show ?thesis by (simp add: x Inr Let_def)
  qed (simp add: x)
qed simp

lemma safe_clientExchange [safe_rules]:
  assumes "deadlinesHold L"
  shows "safe L (clientExchange L cli addr req)"
proof (cases cli)
  case (PlainClient c)
  then show ?thesis by (simp add: clientExchange_def safe_ext)
next
  case (AntiHijack c)
  have ret: "antiExchange c e o' t req (fst (DialDNS L c addr w)) \<noteq> None" for e o' t w
  proof (cases "DialDNS L c addr w")
    case (Pair d w')
    show ?thesis
    proof (cases d)
      case (Inr co)
      then have "\<exists>x \<in> set (replies (co sz wd rd)). isl (fst x)" for sz wd rd
        using assms Pair unfolding deadlinesHold_def by blast
      from antiLoop_returns [OF this] show ?thesis
        by (simp add: Pair Inr antiExchange_def ExchangeWithConnContext_def Let_def del: not_None_eq split: prod.split option.split)
    qed (simp add: Pair antiExchange_def)
  qed
  have "returns (clientExchange L cli addr req) s (\<lambda>_. good L s)" if w: "wfCore L s" for s
  proof -
    obtain d w1 t w2 where d: "DialDNS L c addr (world s) = (d, w1)" "Now L w1 = (t, w2)" by (metis surj_pair)
    then obtain r where "antiExchange c (edns0SubnetOpt s \<noteq> None) (IsEdns0 L req) t req d = Some r"
      using ret [of _ _ _ "world s"] by fastforce
    with d w show ?thesis
      by (simp add: AntiHijack clientExchange_def returns_def bindS_def ext_def liftO_def)
  qed
  then show ?thesis by (simp add: safe_def)
qed

lemma runExchange_ok:
  assumes "deadlinesHold L" "wfCore L s" "\<And>i. x = ExDoQ i \<Longrightarrow> i < length (doqs s)"
  shows "returns (runExchange L x req) s (\<lambda>_. good L s)"
proof (cases x)
  case (ExClient cli addr)
  then show ?thesis using safeD [OF safe_clientExchange [OF assms(1)] assms(2)] by simp
next
  case (ExDoH spec ep)
  then show ?thesis using safeD [OF safe_ext assms(2)] by simp
next
  case (ExDoQ i)
  then show ?thesis using assms(2,3)
    by (auto simp: returns_def doqCall_def good_def conf_def wfCore_def split: prod.split)
qed

lemma good_idx: "wfCore L (s\<lparr>dnsExchangeIdx := i\<rparr>) = wfCore L s" "conf (s\<lparr>dnsExchangeIdx := i\<rparr>) = conf s"
  by (simp_all add: wfCore_def conf_def)

lemma exchangeLoop_ok:
  assumes "deadlinesHold L" "wfCore L s" "\<And>i idx. idx \<in> set idxs \<Longrightarrow> exs ! idx = ExDoQ i \<Longrightarrow> i < length (doqs s)"
    "idxs \<noteq> [] \<or> lastErr \<noteq> None"
  shows "returns (exchangeLoop L req exs idxs lastErr) s (\<lambda>_. good L s)"
  using assms(2-4)
proof (induction idxs arbitrary: s lastErr)
  case Nil
  then obtain e where "lastErr = Some e" by auto
  with Nil show ?case by (auto simp: returns_def bindS_def liftO_def good_def good_idx)
next
  case (Cons idx idxs)
  have r: "returns (runExchange L (exs ! idx) req) s (\<lambda>_. good L s)"
    by (rule runExchange_ok [OF assms(1) Cons.prems(1)]) (use Cons.prems(2) in auto)
  show ?case unfolding exchangeLoop.simps
  proof (rule returns_bindS, rule returns_mono [OF r])
    fix x s' assume s': "good L s s'"
    have "returns (exchangeLoop L req exs idxs (Some e)) s' (\<lambda>_. good L s')" for e
      by (rule Cons.IH) (use s' Cons.prems(2) in \<open>auto simp: good_def dest: less_le_trans\<close>)
    then have "returns (exchangeLoop L req exs idxs (Some e)) s' (\<lambda>_. good L s)" for e
      using good_trans [OF s'] returns_mono by metis
    then show "returns (case x of Inl e \<Rightarrow> exchangeLoop L req exs idxs (Some e)
        | Inr resp \<Rightarrow> bindS (modify (\<lambda>s. s\<lparr>dnsExchangeIdx := idx\<rparr>)) (\<lambda>_. ret (Inr resp))) s' (\<lambda>_. good L s)"
      using s' by (cases x) (auto simp: returns_def bindS_def good_def good_idx)
  qed
qed

lemma safe_exchangeMsg [safe_rules]:
  assumes "deadlinesHold L"
  shows "safe L (exchangeMsg L req)"
proof -
  have "returns (exchangeMsg L req) s (\<lambda>_. good L s)" if w: "wfCore L s" for s
  proof (cases "dnsExchanges s")
    case Nil
    then have "dnsExchange s = None" using w by (simp add: wfCore_def)
    then show ?thesis using Nil w
      by (simp add: exchangeMsg_def exchangeUpstream_def returns_def bindS_def good_refl)
  next
    case (Cons x xs)
    let ?n = "length (dnsExchanges s)"
    let ?idxs = "map (\<lambda>i. (dnsExchangeIdx s mod ?n + i) mod ?n) [0..<?n]"
    have "i < length (doqs s)" if "idx \<in> set ?idxs" "dnsExchanges s ! idx = ExDoQ i" for i idx
    proof -
      have "idx < ?n" using that(1) Cons by auto
      then show ?thesis using w that(2) nth_mem unfolding wfCore_def by metis
    qed
    moreover have "?idxs \<noteq> []" using Cons by simp
    ultimately have "returns (exchangeLoop L req (dnsExchanges s) ?idxs None) s (\<lambda>_. good L s)"
      using exchangeLoop_ok [OF assms w] by blast
    then show ?thesis using Cons by (simp add: exchangeMsg_def returns_def bindS_def Let_def)
  qed
  then show ?thesis by (simp add: safe_def)
qed

lemma safe_exchangeUpstream:
  assumes "deadlinesHold L"
  shows "safe L (exchangeUpstream L req)"
proof -
  have "returns (exchangeUpstream L req) s (\<lambda>_. good L s)" if w: "wfCore L s" for s
  proof (cases "dnsExchanges s")
    case Nil
    then show ?thesis using w by (simp add: wfCore_def exchangeUpstream_def returns_def bindS_def good_refl)
  next
    case (Cons x xs)
    then have "dnsExchange s = Some x" "\<And>i. x = ExDoQ i \<Longrightarrow> i < length (doqs s)" using w by (auto simp: wfCore_def)
    then show ?thesis using runExchange_ok [OF assms w, of x req] by (simp add: exchangeUpstream_def returns_def bindS_def)
  qed
  then show ?thesis by (simp add: safe_def)
qed

lemma safe_secondQuery [safe_rules]: "deadlinesHold L \<Longrightarrow> safe L (secondQuery L domain qtype pk msg)"
  unfolding secondQuery_def by (intro safe_rules)

lemma safe_firstQuestion [safe_rules]: "safe L (firstQuestion L domain mode)"
  unfolding firstQuestion_def by (intro safe_rules)

lemma safe_pickByMode [safe_rules]: "deadlinesHold L \<Longrightarrow> safe L (pickByMode L domain mode msg resp)"
  unfolding pickByMode_def by (cases mode) (simp_all, (intro safe_rules; assumption)+)

lemma safe_doDNSResolve [safe_rules]: "deadlinesHold L \<Longrightarrow> safe L (doDNSResolve L domain mode ttl)"
  unfolding doDNSResolve_def by (intro safe_rules)

lemma safe_dnsResolve [safe_rules]: "deadlinesHold L \<Longrightarrow> safe L (dnsResolve L domain mode ttl)"
  unfolding dnsResolve_def by (intro safe_rules)

lemma safe_fakeLookup [safe_rules]: "safe L (fakeLookup L ip)"
proof -
  have "returns (fakeLookup L ip) s (\<lambda>_. good L s)" if w: "wfCore L s" for s
  proof -
    obtain t w' r f where t: "Now L (world s) = (t, w')" "lookupFakeDomainByIP (fakes s) t ip = (r, f)" by (metis surj_pair)
    then have "fakeReach f" using w fakeReach.lookup by (auto simp: wfCore_def)
    then show ?thesis using t w by (auto simp: fakeLookup_def returns_def bindS_def ext_def good_def conf_def wfCore_def)
  qed
  then show ?thesis by (simp add: safe_def)
qed

lemma safe_lookupDomainByIP [safe_rules]: "safe L (lookupDomainByIP L ip)"
  unfolding lookupDomainByIP_def by (intro safe_rules)

lemma safe_rememberDomainIPMapping [safe_rules]: "safe L (rememberDomainIPMapping L domain ip)"
  unfolding rememberDomainIPMapping_def by (intro safe_rules)

lemma safe_Resolve [safe_rules]: "deadlinesHold L \<Longrightarrow> safe L (Resolve L domain mode)"
  unfolding Resolve_def by (intro safe_rules)

lemma safe_dohExchanges [safe_rules]: "safe L (dohExchanges L c eps exs)"
  by (induction eps arbitrary: exs) (auto intro!: safe_rules)

section \<open>A change of the configuration\<close>

lemma clientExchanges_ok: "clientExchanges cli eps = Inr exs \<Longrightarrow> exs = map (ExClient cli) eps"
proof -
  have "foldRes (\<lambda>ep exs. case ParseAddrPort ep of
       Inl e \<Rightarrow> Inl (OpError ''invalid dns.addr'' e)
     | Inr _ \<Rightarrow> Inr (exs @ [ExClient cli ep])) eps acc = Inr exs \<Longrightarrow> exs = acc @ map (ExClient cli) eps" for acc
  proof (induction eps arbitrary: acc)
    case (Cons ep eps)
    then show ?case using Cons.IH [of "acc @ [ExClient cli ep]"] by (auto split: sum.splits)
  qed simp
  from this [of "[]"] show "clientExchanges cli eps = Inr exs \<Longrightarrow> exs = map (ExClient cli) eps"
    by (simp add: clientExchanges_def)
qed

lemma dohExchanges_ok:
  assumes "wfCore L s"
  shows "returns (dohExchanges L c eps exs) s (\<lambda>r s'. good L s s' \<and>
    (\<forall>xs. r = Inr xs \<longrightarrow> length xs = length exs + length eps \<and> (\<forall>x \<in> set xs - set exs. \<exists>spec ep. x = ExDoH spec ep)))"
proof (rule returns_mono [OF safeD [OF safe_dohExchanges assms]])
  fix r s' assume run: "dohExchanges L c eps exs s = Some (r, s')" and g: "good L s s'"
  have "length xs = length exs + length eps \<and> (\<forall>x \<in> set xs - set exs. \<exists>spec ep. x = ExDoH spec ep)"
    if "dohExchanges L c eps exs s = Some (Inr xs, s')" for xs
    using that
  proof (induction eps arbitrary: exs s)
    case (Cons ep eps)
    have "\<exists>spec s1. dohExchanges L c eps (exs @ [ExDoH spec ep]) s1 = Some (Inr xs, s')"
      using Cons.prems by (auto simp: bindE_Inr split: if_splits option.splits)
    then obtain spec s1 where "dohExchanges L c eps (exs @ [ExDoH spec ep]) s1 = Some (Inr xs, s')" by blast
    from Cons.IH [OF this] show ?case by auto
  qed simp
  with run g show "good L s s' \<and> (\<forall>xs. r = Inr xs \<longrightarrow> length xs = length exs + length eps \<and>
      (\<forall>x \<in> set xs - set exs. \<exists>spec ep. x = ExDoH spec ep))" by blast
qed

lemma returns_if: "(b \<Longrightarrow> returns f s Q) \<Longrightarrow> (\<not> b \<Longrightarrow> returns g s Q) \<Longrightarrow> returns (if b then f else g) s Q"
  by simp

lemma dnsUpstreams_ok:
  assumes "wfCore L s"
  shows "returns (dnsUpstreams L c) s (\<lambda>r s'. good L s s' \<and>
    (\<forall>cl h exs. r = Inr (cl, h, exs) \<longrightarrow> length exs = length (dnsEndpoints c) \<and> (\<forall>i. ExDoQ i \<in> set exs \<longrightarrow> i < length (doqs s'))))"
proof -
  have plain: "length exs = length (dnsEndpoints c) \<and> ExDoQ i \<notin> set exs"
    if "plainUpstreams c cli = Inr (cl, h, exs)" for cli cl h exs i
    using that clientExchanges_ok by (fastforce simp: plainUpstreams_def split: sum.splits)
  let ?Q = "\<lambda>r s'. good L s s' \<and> (\<forall>cl h exs. r = Inr (cl, h, exs) \<longrightarrow>
    length exs = length (dnsEndpoints c) \<and> (\<forall>i. ExDoQ i \<in> set exs \<longrightarrow> i < length (doqs s')))"
  have "returns (dohExchanges L c (dnsEndpoints c) []) s (\<lambda>r s'. good L s s' \<and>
      (\<forall>xs. r = Inr xs \<longrightarrow> length xs = length (dnsEndpoints c) \<and> (\<forall>x \<in> set xs. \<exists>spec ep. x = ExDoH spec ep)))"
    using dohExchanges_ok [OF assms, of c "dnsEndpoints c" "[]"] by simp
  then have doh: "returns (bindE (dohExchanges L c (dnsEndpoints c) []) (\<lambda>exs. ret (Inr (None, True, exs)))) s ?Q"
    by (intro returns_bindE, elim returns_mono) (auto intro!: returns_ret split: sum.split)
  have doq: "returns (bindE (doqExchanges (dnsEndpoints c)) (\<lambda>exs. ret (Inr (None, False, exs)))) s ?Q"
    using assms by (auto simp: returns_def bindE_def bindS_def doqExchanges_def good_def conf_def wfCore_def)
  have pure: "returns (ret r) s ?Q" if "\<And>cl h exs i. r = Inr (cl, h, exs) \<Longrightarrow> length exs = length (dnsEndpoints c) \<and> ExDoQ i \<notin> set exs" for r
    using that assms by (auto simp: good_refl)
  show ?thesis unfolding dnsUpstreams_def Let_def
    by (intro returns_if doh doq pure) (auto simp: res_iff dest: plain)
qed

lemma newDNSCaches_ok:
  assumes "newDNSCaches L c = Inr (dc, ic)" "CacheCapacity c \<le> 1717986918"
  shows "(\<forall>x. dc = Some x \<longrightarrow> sInv (hashString L) x) \<and> (\<forall>x. ic = Some x \<longrightarrow> sInv (hashString L) x)"
proof (cases "DisableCache c")
  case False
  let ?n = "if CacheCapacity c = 0 then 4096 else CacheCapacity c"
  obtain x where x: "NewSharded (gomaxprocs L) ?n [] [] = Inr x" "dc = Some x" "ic = Some x"
    using assms(1) False by (auto simp: newDNSCaches_def Let_def split: sum.splits)
  have "?n \<le> 1717986918" using assms(2) by simp
  then show ?thesis using NewSharded_inv [OF x(1)] x(2,3) by auto
qed (use assms in \<open>simp add: newDNSCaches_def\<close>)

section \<open>Properties\<close>

text \<open>C27. Configuring the upstream servers is all or nothing, and keeps the state well formed: from a
  well-formed state \<^verbatim>\<open>setDNS\<close> returns, never panics, and leads to a well-formed state. On an
  error the configuration is the one before; otherwise there is one upstream server for every
  endpoint, the first of them is the single one used for hijacked queries, and every QUIC
  client they refer to exists.\<close>

theorem setDNS_wf:
  assumes "wfCore L s" "CacheCapacity c \<le> 1717986918"
  shows "\<exists>r s'. setDNS L c s = Some (r, s') \<and> wfCore L s' \<and> tables s' = tables s \<and>
    (if isl r then conf s' = conf s
     else lastDNSConfig s' = c \<and> length (dnsExchanges s') = length (dnsEndpoints c) \<and> dnsExchange s' = Some (hd (dnsExchanges s')))"
proof (cases "Addr' c = []")
  case True
  then show ?thesis using assms(1) by (simp add: setDNS_def)
next
  case False
  obtain r s1 where up: "dnsUpstreams L c s = Some (r, s1)" "good L s s1"
    and ex: "\<And>cl h exs. r = Inr (cl, h, exs) \<Longrightarrow> length exs = length (dnsEndpoints c) \<and> (\<forall>i. ExDoQ i \<in> set exs \<longrightarrow> i < length (doqs s1))"
    using dnsUpstreams_ok [OF assms(1), of c] by (auto simp: returns_def)
  have g: "wfCore L s1" "conf s1 = conf s" "tables s1 = tables s" using up(2) by (auto simp: good_def conf_def)
  consider e where "r = Inl e" | cl h exs e where "r = Inr (cl, h, exs)" "newDNSCaches L c = Inl e"
    | cl h exs dc ic e where "r = Inr (cl, h, exs)" "newDNSCaches L c = Inr (dc, ic)" "newEDNS0 c = Inl e"
    | cl h exs dc ic opt where "r = Inr (cl, h, exs)" "newDNSCaches L c = Inr (dc, ic)" "newEDNS0 c = Inr opt"
    by (metis obj_sumE surj_pair)
  then show ?thesis
  proof cases
    case (4 cl h exs dc ic opt)
    have n: "exs \<noteq> []" using ex [OF 4(1)] by (auto simp: dnsEndpoints_def)
    then show ?thesis
      using False up 4 ex [OF 4(1)] g newDNSCaches_ok [OF 4(2) assms(2)]
      by (auto simp: setDNS_def bindE_def bindS_def wfCore_def neq_Nil_conv)
  qed (use False up g in \<open>auto simp: setDNS_def bindE_def bindS_def\<close>)
qed

text \<open>Concrete libraries and a concrete state, for examples: the first of two servers does not answer,
  the clock advances by a nanosecond with every reading.\<close>

definition exampleKernel :: kernel where
  "exampleKernel = \<lparr>k_isSyscallConn = (\<lambda>_. True), k_syscallConn = (\<lambda>_ _. None), k_write = (\<lambda>_ _ _. None),
     k_rawWrite = (\<lambda>_ _. None), k_sendto = (\<lambda>_ _ _. SendOk), k_rawControl = (\<lambda>_ _. None), k_tcpInfo = (\<lambda>_ _. Inr 0),
     k_now = (\<lambda>h. int (length h))\<rparr>"

definition exampleLib :: "int lib" where
  "exampleLib = \<lparr>hashString = (\<lambda>_. 9), gomaxprocs = 1, Now = (\<lambda>w. (w, w + 1)), MapOrder = (\<lambda>w. ([], w)), SortRules = stableDown,
     SetQuestion = (\<lambda>m n q w. (m\<lparr>Questions := [\<lparr>QName = n, Qtype = q, Qclass = 1\<rparr>]\<rparr>, w)), RcodeToString = (\<lambda>_. []), IsEdns0 = (\<lambda>_. None),
     ClientExchange = (\<lambda>c m a w. (if a = ''192.0.2.1:53'' then Inl (ErrNew ''i/o timeout'')
        else Inr (m\<lparr>Answer := [RR_A (newHeader ''example.org.'' 1) (Some (IP4 0xC0000207))]\<rparr>), w)),
     DialDNS = (\<lambda>_ _ w. (Inl (ErrNew ''unreachable''), w)),
     wire = \<lparr>Pack = (\<lambda>_. Inr []), Unpack = (\<lambda>_. Inr newMsg)\<rparr>,
     http = (\<lambda>_. \<lparr>NewRequest = (\<lambda>_. None), Do = (\<lambda>_ w. (Inl (ErrNew ''unreachable''), w))\<rparr>),
     quicLib = \<lparr>DialAddr = (\<lambda>_ _ w. (Inl (ErrNew ''unreachable''), w)), OpenStreamSync = (\<lambda>_ w. (Inr 0, w)),
       CloseWithError = (\<lambda>_ _ w. w), StreamWrite = (\<lambda>_ _ w. (None, w)), StreamClose = (\<lambda>_ w. (None, w)),
       StreamReadAll = (\<lambda>_ w. (Inr [], w))\<rparr>,
     LookupIPAddr = (\<lambda>_ w. (Inr [], w)), SOCKS5 = (\<lambda>_. None),
     DialTTL = (\<lambda>_ _ ttl _ w. (if ttl < 7 then Some (True, ErrNew ''i/o timeout'') else None, w)),
     DialTCP = (\<lambda>_ _ w. (Inr (nat w), w)), kern = exampleKernel, GetTTL = (\<lambda>_ _ _. Inr 64),
     SendWithNoise = (\<lambda>h c _ _ b _ _ _. Some (h @ [EvWrite c b], None)),
     ReadRequest = (\<lambda>_. (0, Inl (ErrNew ''malformed HTTP request''))), ResponseBytes = (\<lambda>_ _. [])\<rparr>"

definition exampleConfig :: DNSConfig where
  "exampleConfig = \<lparr>Type = ''udp'', Addr' = ''192.0.2.1:53'', Resolvers = [''192.0.2.2:53''], SingleFlight = False,
     DisableCache = False, CacheCapacity = 8, EDNS0Subnet = [], UDPSize' = 0, ClientTimeout = [], WaitTimeout = [],
     MinRTT = [], DoHSocks5Addr = []\<rparr>"

definition exampleCore :: "fakeStores \<Rightarrow> stringCache \<Rightarrow> int core" where
  "exampleCore f c =
     (let cli = PlainClient (plainClient []) in
      \<lparr>tables = loadTables zeroPolicy [] [] [], ipPools = [], fakes = f, gfwDomainMatcher = None, gfwBypassMatcher = None,
       dnsAddr = ''192.0.2.1:53'', dnsClient' = Some cli, httpClient' = False,
       dnsExchanges = [ExClient cli ''192.0.2.1:53'', ExClient cli ''192.0.2.2:53''],
       dnsExchange = Some (ExClient cli ''192.0.2.1:53''), dnsExchangeIdx = 0, doqs = [], dnsCache = Some c,
       ipDomainCache = Some c, dnsResolveGroup = False, edns0SubnetOpt = None, lastDNSConfig = exampleConfig,
       calcTTL = Some MinusOne, ttlCache = None, ttlProbingGroup = False,
       lastTTLProbingConfig = \<lparr>FakeTTLRules = [], ttlSingleFlight = False, ttlDisableCache = True, ttlCacheCapacity = 0\<rparr>,
       history = [], world = 1000\<rparr>)"

lemma example_cache: "\<exists>c :: stringCache. sInv (\<lambda>_. 9) c \<and> (\<forall>k. sLook (\<lambda>_. 9) c k = None)"
proof -
  obtain c :: stringCache where "NewSharded 1 8 [] [] = Inr c"
    by (auto simp: NewSharded_def NewShardedWithSize_def Let_def)
  from NewSharded_inv [OF this] show ?thesis by auto
qed

lemma example_deadlines: "deadlinesHold exampleLib"
  by (simp add: deadlinesHold_def exampleLib_def)

lemma example_wf: "fakeReach f \<Longrightarrow> sInv (\<lambda>_. 9) c \<Longrightarrow> wfCore exampleLib (exampleCore f c)"
  by (auto simp: wfCore_def exampleCore_def exampleLib_def Let_def)

theorem setDNS_wf_witness:
  "\<exists>s r s'. wfCore exampleLib s \<and> setDNS exampleLib exampleConfig s = Some (r, s') \<and> wfCore exampleLib s'"
proof -
  obtain f c where w: "wfCore exampleLib (exampleCore f c)" using example_cache example_wf default_reach by blast
  show ?thesis using w setDNS_wf [OF w, of exampleConfig] by (auto simp: exampleConfig_def)
qed

section \<open>Failover\<close>

lemma runExchange_frame:
  "runExchange L x req s = Some (r, s') \<Longrightarrow> dnsExchanges s' = dnsExchanges s"
  by (cases "(L, x, req)" rule: runExchange.cases)
    (auto simp: clientExchange_def bindS_def ext_def liftO_def doqCall_def split: DNSClient.splits option.splits prod.splits if_splits)

lemma exchangeLoop_answers:
  assumes "\<And>idx s. idx \<in> set idxs \<Longrightarrow> runExchange L (exs ! idx) req s \<noteq> None" "j \<in> set idxs"
    "\<And>s. \<exists>resp s'. runExchange L (exs ! j) req s = Some (Inr resp, s')"
  shows "\<exists>resp s' s1 s2. exchangeLoop L req exs idxs e s = Some (Inr resp, s') \<and> dnsExchangeIdx s' \<in> set idxs \<and>
    dnsExchanges s' = dnsExchanges s \<and>
    runExchange L (exs ! dnsExchangeIdx s') req s1 = Some (Inr resp, s2)"
  using assms
proof (induction idxs arbitrary: s e)
  case (Cons i idxs)
  obtain r s1 where r: "runExchange L (exs ! i) req s = Some (r, s1)" using Cons.prems(1) [of i s] by fastforce
  note f = runExchange_frame [OF r]
  show ?case
  proof (cases r)
    case (Inr resp)
    then show ?thesis using r f by (auto simp: bindS_def)
  next
    case (Inl er)
    then have "j \<noteq> i" using Cons.prems(3) [of s] r by auto
    then have "\<exists>resp s' s3 s2. exchangeLoop L req exs idxs (Some er) s1 = Some (Inr resp, s') \<and> dnsExchangeIdx s' \<in> set idxs \<and>
        dnsExchanges s' = dnsExchanges s1 \<and> runExchange L (exs ! dnsExchangeIdx s') req s3 = Some (Inr resp, s2)"
      using Cons.prems by (intro Cons.IH) auto
    then show ?thesis using r Inl f by (auto simp: bindS_def)
  qed
qed simp

lemma cyclic_all: "0 < n \<Longrightarrow> set (map (\<lambda>i. (k mod n + i) mod n) [0..<n]) = {..<n}"
proof (intro equalityI subsetI)
  fix j assume n: "0 < n" and j: "j \<in> {..<n}"
  let ?i = "(j + n - k mod n) mod n"
  have "k mod n \<le> j + n" using mod_less_divisor [OF n, of k] by simp
  then have "(k mod n + ?i) mod n = j" using j by (simp add: mod_add_right_eq)
  moreover have "?i \<in> set [0..<n]" using n by simp
  ultimately show "j \<in> set (map (\<lambda>i. (k mod n + i) mod n) [0..<n])"
    by (metis (no_types, lifting) image_eqI set_map)
qed auto

lemma exchangeMsg_first:
  assumes "dnsExchangeIdx s < length (dnsExchanges s)"
    "runExchange L (dnsExchanges s ! dnsExchangeIdx s) req s = Some (Inr resp, s')"
  shows "exchangeMsg L req s = Some (Inr resp, s'\<lparr>dnsExchangeIdx := dnsExchangeIdx s\<rparr>)"
proof -
  let ?n = "length (dnsExchanges s)"
  have "0 < ?n" using assms(1) by linarith
  then have "[0..<?n] = 0 # [1..<?n]" by (simp add: upt_conv_Cons)
  then show ?thesis using assms by (auto simp: exchangeMsg_def bindS_def Let_def)
qed



section \<open>The cache\<close>

lemma dnsCacheAdd_then_get:
  assumes "wfCore L s0" "dnsCache s0 \<noteq> None" "dnsCacheAdd L k v ttl s0 = Some ((), s1)"
  shows "\<exists>t0 w0. Now L w0 = (t0, world s1) \<and> (\<forall>t w. Now L (world s1) = (t, w) \<longrightarrow>
    \<not> expired (millis t) (expireAt (millis t0) ttl) \<longrightarrow> (\<exists>s2. dnsCacheGet L k s1 = Some (Some v, s2)))"
proof -
  obtain c where c: "dnsCache s0 = Some c" using assms(2) by auto
  obtain t0 w1 where t0: "Now L (world s0) = (t0, w1)" by force
  have i: "sInv (hashString L) c" using assms(1) c by (simp add: wfCore_def)
  obtain c1 b where c1: "sAddWithLifetime (hashString L) (millis t0) c k v ttl = Some (c1, b)" "sInv (hashString L) c1"
    "sLook (hashString L) c1 k = Some (v, expireAt (millis t0) ttl)"
    using sharded.add_law [OF i, of "millis t0" k v ttl] by metis
  have s1: "s1 = s0\<lparr>world := w1, dnsCache := Some c1\<rparr>"
    using assms(3) c t0 c1(1) by (simp add: dnsCacheAdd_def bindS_def ext_def)
  have "\<exists>s2. dnsCacheGet L k s1 = Some (Some v, s2)"
    if "Now L (world s1) = (t, w)" "\<not> expired (millis t) (expireAt (millis t0) ttl)" for t w
    using sharded.get_law [OF c1(2), of "millis t" k] that c1(3)
    by (auto simp: dnsCacheGet_def s1 bindS_def ext_def ShardedLRU.live_def)
  moreover have "Now L (world s0) = (t0, world s1)" using t0 by (simp add: s1)
  ultimately show ?thesis by blast
qed

lemma safe_run: "safe L m \<Longrightarrow> wfCore L s \<Longrightarrow> m s = Some (x, s') \<Longrightarrow> wfCore L s' \<and> conf s' = conf s"
  by (auto simp: safe_def returns_def good_def)

lemma conf_cache: "conf s' = conf s \<Longrightarrow> dnsCache s' = None \<longleftrightarrow> dnsCache s = None"
  by (auto simp: conf_def)

lemma doDNSResolve_adds:
  assumes "wfCore L s" "deadlinesHold L" "dnsCache s \<noteq> None" "ttl \<noteq> 0" "ttl \<noteq> unsetInt"
    "doDNSResolve L d mode ttl s = Some (Inr ip, s1)"
  shows "\<exists>s0. wfCore L s0 \<and> dnsCache s0 \<noteq> None \<and> dnsCacheAdd L d ip ttl s0 = Some ((), s1)"
proof -
  obtain msg0 s2 where 2: "firstQuestion L d mode s = Some (msg0, s2)"
    and r2: "bindS (gets edns0SubnetOpt) (\<lambda>edns0.
     let msg = (case edns0 of Some opt \<Rightarrow> msg0\<lparr>Extra := [opt]\<rparr> | None \<Rightarrow> msg0) in
     bindE (wrapE ''dns exchange'' (exchangeMsg L msg)) (\<lambda>resp.
       if Rcode resp \<noteq> 0 then ret (Inl (ErrNew (''bad rcode: '' @ RcodeToString L (Rcode resp))))
       else bindE (pickByMode L d mode msg resp) (\<lambda>ip.
         let ipStr = (case ip of Some a \<Rightarrow> netIPString a | None \<Rightarrow> ''<nil>'') in
         bindS (if ttl \<noteq> 0 \<and> ttl \<noteq> unsetInt then dnsCacheAdd L d ipStr ttl else ret ()) (\<lambda>_.
           ret (Inr ipStr))))) s2 = Some (Inr ip, s1)"
    using assms(6) unfolding doDNSResolve_def bindS_Some by blast
  obtain msg resp s3 a s4 where 3: "wrapE ''dns exchange'' (exchangeMsg L msg) s2 = Some (Inr resp, s3)"
    and 4: "pickByMode L d mode msg resp s3 = Some (Inr a, s4)"
    and 5: "dnsCacheAdd L d ip ttl s4 = Some ((), s1)"
    using r2 assms(4,5) by (auto simp: Let_def bindE_Inr bindS_Some split: if_splits)
  note w2 = safe_run [OF safe_firstQuestion assms(1) 2]
  note w3 = safe_run [OF safe_wrapE [OF safe_exchangeMsg [OF assms(2)]] conjunct1 [OF w2] 3]
  note w4 = safe_run [OF safe_pickByMode [OF assms(2)] conjunct1 [OF w3] 4]
  have "conf s4 = conf s" using w2 w3 w4 by simp
  then have "dnsCache s4 \<noteq> None" using assms(3) conf_cache [of s4 s] by simp
  then show ?thesis using w4 5 by (intro exI [of _ s4]) simp
qed


lemma example_resolve:
  assumes "sInv (\<lambda>_. 9) c" "\<And>k. sLook (\<lambda>_. 9) c k = None"
  shows "\<exists>s1. dnsResolve exampleLib ''example.org'' DNSModeIPv4Only second (exampleCore f c) = Some (Inr (''192.0.2.7'', False), s1)"
proof -
  obtain c1 where c1: "sGet (\<lambda>_. 9) (millis 1000) c ''example.org'' = Some (c1, None)" "sInv (\<lambda>_. 9) c1"
    using sharded.get_law [OF assms(1), of "millis 1000" "''example.org''"] assms(2) by (auto simp: ShardedLRU.live_def)
  obtain c2 x where c2: "sAddWithLifetime (\<lambda>_. 9) (millis 1001) c1 ''example.org'' ''192.0.2.7'' second = Some (c2, x)"
    using sharded.add_law [OF c1(2)] by blast
  have str: "string4 0xC0000207 = ''192.0.2.7''" by code_simp
  show ?thesis using c1(1) c2
    by (simp add: dnsResolve_def dnsCacheGet_def dnsCacheAdd_def doDNSResolve_def firstQuestion_def pickByMode_def replyIP_def
        exchangeMsg_def clientExchange_def ext_def bindS_def bindE_def wrapE_def exampleCore_def exampleLib_def netIPString_def str
        newMsg_def second_def unsetInt_def Let_def upt_rec)
qed


end
