(* ===== verification/GFW_List.thy ===== *)
theory GFW_List
  imports Addr_Trie Go_URL "HOL-Library.Char_ord" "HOL-Library.List_Lexorder"
begin

text \<open>
  The built-in list of blocked domains (\<^verbatim>\<open>core/gfwlist.go\<close>): decoding, extraction of host names from
  the rules, and the two matchers. The text of the list itself is an argument.
\<close>

section \<open>Base 64\<close>

definition b64Value :: "char \<Rightarrow> nat option" where
  "b64Value c =
     (let n = code c in
      if 65 \<le> n \<and> n \<le> 90 then Some (n - 65)
      else if 97 \<le> n \<and> n \<le> 122 then Some (n - 71)
      else if 48 \<le> n \<and> n \<le> 57 then Some (n + 4)
      else if c = CHR ''+'' then Some 62
      else if c = CHR ''/'' then Some 63
      else None)"

text \<open>\<^verbatim>\<open>StdEncoding.DecodeString\<close> on a text without white space: groups of four characters, the last of
  which may be padded.\<close>

fun b64Decode :: "string \<Rightarrow> string option" where
  "b64Decode [] = Some []"
| "b64Decode [a, b', c, d] =
     (case (b64Value a, b64Value b') of
        (Some x, Some y) \<Rightarrow>
          if c = CHR ''='' \<and> d = CHR ''='' then Some [char_of (x * 4 + y div 16)]
          else (case b64Value c of
              None \<Rightarrow> None
            | Some z \<Rightarrow>
                if d = CHR ''='' then Some [char_of (x * 4 + y div 16), char_of (y mod 16 * 16 + z div 4)]
                else (case b64Value d of
                    None \<Rightarrow> None
                  | Some w \<Rightarrow> Some [char_of (x * 4 + y div 16), char_of (y mod 16 * 16 + z div 4), char_of (z mod 4 * 64 + w)]))
      | _ \<Rightarrow> None)"
| "b64Decode (a # b' # c # d # e # s) =
     (case (b64Value a, b64Value b', b64Value c, b64Value d) of
        (Some x, Some y, Some z, Some w) \<Rightarrow>
          map_option (\<lambda>r. char_of (x * 4 + y div 16) # char_of (y mod 16 * 16 + z div 4) # char_of (z mod 4 * 64 + w) # r)
            (b64Decode (e # s))
      | _ \<Rightarrow> None)"
| "b64Decode _ = None"

text \<open>\<^verbatim>\<open>strings.Map\<close> that drops the white space.\<close>

function dropSpaces :: "string \<Rightarrow> string" where
  "dropSpaces s = (case s of
       [] \<Rightarrow> []
     | c # r \<Rightarrow> (case spacePrefix spaces s of
         Some n \<Rightarrow> if 0 < n then dropSpaces (drop n s) else c # dropSpaces r
       | None \<Rightarrow> c # dropSpaces r))"
  by pat_completeness auto
termination
  by (relation "measure length") auto

declare dropSpaces.simps [simp del]

section \<open>Host names in a text\<close>

text \<open>The regular expression for a host name: labels of at most 63 characters that begin and end
  with a letter or a digit, at least two of them, separated by dots. A match is described by
  what remains after it; the alternatives are listed in the order in which the matcher prefers
  them.\<close>

definition labelEnd :: "char \<Rightarrow> bool" where
  "labelEnd c \<longleftrightarrow> isDigit c \<or> 97 \<le> code c \<and> code c \<le> 122"

definition labelChar :: "char \<Rightarrow> bool" where
  "labelChar c \<longleftrightarrow> labelEnd c \<or> c = CHR ''-''"

definition labelRests :: "string \<Rightarrow> string list" where
  "labelRests s = (case s of
       [] \<Rightarrow> []
     | c # r \<Rightarrow>
         if \<not> labelEnd c then []
         else map (\<lambda>k. drop (k + 1) r) (filter (\<lambda>k. k < length r \<and> list_all labelChar (take k r) \<and> labelEnd (r ! k)) (rev [0..<62])) @ [r])"

lemma labelRests_shorter: "r \<in> set (labelRests s) \<Longrightarrow> length r < length s"
  by (auto simp: labelRests_def split: list.splits if_splits)

function dottedRests :: "string \<Rightarrow> string list" where
  "dottedRests s = (case s of
       [] \<Rightarrow> []
     | c # s' \<Rightarrow> if c = CHR ''.'' then concat (map (\<lambda>r. dottedRests r @ [r]) (labelRests s')) else [])"
  by pat_completeness auto
termination
  by (relation "measure length") (auto dest: labelRests_shorter)

declare dottedRests.simps [simp del]

definition hostRests :: "string \<Rightarrow> string list" where
  "hostRests s = concat (map dottedRests (labelRests s))"

fun findHost :: "string \<Rightarrow> string" where
  "findHost [] = []"
| "findHost (c # s) = (case hostRests (c # s) of
       r # _ \<Rightarrow> take (length (c # s) - length r) (c # s)
     | [] \<Rightarrow> findHost s)"

section \<open>Rules\<close>

definition indexAny2 :: "string \<Rightarrow> char \<Rightarrow> char \<Rightarrow> string" where
  "indexAny2 s a b' = takeWhile (\<lambda>c. c \<noteq> a \<and> c \<noteq> b') s"

definition extractGFWListHost :: "string \<Rightarrow> string option" where
  "extractGFWListHost rule0 =
     (let rule = TrimSpace rule0 in
      if rule = [] then None
      else
        let rule = TrimLeftSet (indexAny2 rule (CHR ''^'') (CHR ''$'')) ''|.'' in
        if rule = [] then None
        else
          let rule = (if ContainsStr rule ''://'' then
                        (case ParseURL rule of Some u \<Rightarrow> if uHost u \<noteq> [] then uHost u else rule | None \<Rightarrow> rule)
                      else rule);
              rule = TrimSet rule ''*./'';
              rule = (case SplitHostPort rule of Inr (host, _) \<Rightarrow> host | Inl _ \<Rightarrow> rule);
              match = findHost (ToLower rule)
          in if match = [] \<or> ParseIP match \<noteq> None then None else Some (TrimSet match ''.''))"

definition normalizeGFWListRule :: "string \<Rightarrow> string option" where
  "normalizeGFWListRule rule0 =
     (let rule = TrimSpace rule0 in
      if rule = [] \<or> HasPrefix rule ''/'' \<or> HasPrefix rule ''||^'' then None
      else map_option (\<lambda>host. CHR ''*'' # host) (extractGFWListHost rule))"

text \<open>One line: the pattern, and whether it is an exception.\<close>

definition gfwLine :: "string \<Rightarrow> (bool \<times> string) option" where
  "gfwLine line0 =
     (let line = TrimSpace line0 in
      if line = [] \<or> HasPrefix line ''!'' \<or> HasPrefix line ''['' then None
      else
        let bypass = HasPrefix line ''@@'' in
        map_option (Pair bypass) (normalizeGFWListRule (if bypass then TrimPrefix line ''@@'' else line)))"

definition mapKeysSorted :: "string list \<Rightarrow> string list" where
  "mapKeysSorted m = sort (remdups m)"

definition parseEmbeddedGFWList :: "string \<Rightarrow> (string list \<times> string list) res" where
  "parseEmbeddedGFWList raw = (case b64Decode (dropSpaces raw) of
       None \<Rightarrow> Inl (OpError ''decode embedded gfwlist'' (ErrNew ''illegal base64 data''))
     | Some decoded \<Rightarrow>
         let rules = List.map_filter gfwLine (SplitByte decoded (CHR 0x0A)) in
         Inr (mapKeysSorted (map snd (filter (\<lambda>(b', _). \<not> b') rules)), mapKeysSorted (map snd (filter fst rules))))"

definition loadMatcher :: "string list \<Rightarrow> unit DomainMatcher res" where
  "loadMatcher patterns = foldRes (\<lambda>pattern m. Add m pattern ()) patterns NewDomainMatcher"

definition loadBuiltinGFWList :: "string \<Rightarrow> (unit DomainMatcher \<times> unit DomainMatcher) res" where
  "loadBuiltinGFWList raw =
     bind_res (parseEmbeddedGFWList raw) (\<lambda>(blocked, bypass).
     bind_res (loadMatcher blocked) (\<lambda>m. bind_res (loadMatcher bypass) (\<lambda>b'. Inr (m, b'))))"

text \<open>The matchers are absent until the list is loaded.\<close>

definition isGFWDomain :: "unit DomainMatcher option \<Rightarrow> unit DomainMatcher option \<Rightarrow> string \<Rightarrow> bool" where
  "isGFWDomain gfw bypass domain0 =
     (case gfw of
        None \<Rightarrow> False
      | Some m \<Rightarrow>
          if domain0 = [] then False
          else
            let domain = ToLower domain0 in
            if (case bypass of Some b' \<Rightarrow> FindDomain b' domain \<noteq> None | None \<Rightarrow> False) then False
            else FindDomain m domain \<noteq> None)"

section \<open>The shape of the patterns\<close>

definition hostName :: "string \<Rightarrow> bool" where
  "hostName h \<longleftrightarrow> h \<noteq> [] \<and> labelEnd (hd h) \<and> labelEnd (last h) \<and> CHR ''.'' \<in> set h \<and> list_all (\<lambda>c. labelChar c \<or> c = CHR ''.'') h"

lemma labelRests_split:
  assumes "r \<in> set (labelRests s)"
  shows "\<exists>m. s = m @ r \<and> m \<noteq> [] \<and> labelEnd (hd m) \<and> labelEnd (last m) \<and> list_all labelChar m"
proof -
  obtain c t where s: "s = c # t" "labelEnd c" using assms by (auto simp: labelRests_def split: list.splits if_splits)
  consider "r = t" | k where "r = drop (k + 1) t" "k < length t" "list_all labelChar (take k t)" "labelEnd (t ! k)"
    using assms s by (auto simp: labelRests_def)
  then show ?thesis
  proof cases
    case 1
    then show ?thesis using s by (intro exI [of _ "[c]"]) (simp add: labelChar_def)
  next
    case (2 k)
    then have "t = take k t @ t ! k # r" by (simp add: id_take_nth_drop)
    then show ?thesis using s 2 by (intro exI [of _ "c # take k t @ [t ! k]"]) (auto simp: labelChar_def)
  qed
qed

lemma dottedRests_split:
  "r \<in> set (dottedRests s) \<Longrightarrow> \<exists>m. s = m @ r \<and> m \<noteq> [] \<and> hd m = CHR ''.'' \<and> labelEnd (last m) \<and> list_all (\<lambda>c. labelChar c \<or> c = CHR ''.'') m"
proof (induction s arbitrary: r rule: dottedRests.induct)
  case (1 s)
  obtain s' where s: "s = CHR ''.'' # s'"
    using 1(2) by (subst (asm) dottedRests.simps) (auto split: list.splits if_splits)
  then obtain q where q: "q \<in> set (labelRests s')" "r \<in> set (dottedRests q) \<or> r = q"
    using 1(2) by (subst (asm) dottedRests.simps) auto
  obtain m where m: "s' = m @ q" "m \<noteq> []" "labelEnd (last m)" "list_all labelChar m" using labelRests_split [OF q(1)] by blast
  show ?case
  proof (cases "r = q")
    case True
    then show ?thesis using m s by (intro exI [of _ "CHR ''.'' # m"]) (auto simp: list_all_iff)
  next
    case False
    then have "r \<in> set (dottedRests q)" using q(2) by simp
    from 1(1) [OF s refl q(1) this] obtain m2 where m2: "q = m2 @ r" "m2 \<noteq> []" "labelEnd (last m2)"
      "list_all (\<lambda>c. labelChar c \<or> c = CHR ''.'') m2" by blast
    then show ?thesis using m s by (intro exI [of _ "CHR ''.'' # m @ m2"]) (auto simp: list_all_iff)
  qed
qed

lemma findHost_hostName: "findHost s \<noteq> [] \<Longrightarrow> hostName (findHost s)"
proof (induction s)
  case (Cons c s)
  show ?case
  proof (cases "hostRests (c # s)")
    case (Cons r rs)
    then have "r \<in> set (hostRests (c # s))" by simp
    then obtain q where q: "q \<in> set (labelRests (c # s))" "r \<in> set (dottedRests q)" by (auto simp: hostRests_def)
    obtain m m2 where m: "c # s = m @ q" "m \<noteq> []" "labelEnd (hd m)" "list_all labelChar m"
      "q = m2 @ r" "m2 \<noteq> []" "hd m2 = CHR ''.''" "labelEnd (last m2)" "list_all (\<lambda>c. labelChar c \<or> c = CHR ''.'') m2"
      using labelRests_split [OF q(1)] dottedRests_split [OF q(2)] by blast
    have "findHost (c # s) = take (length (c # s) - length r) (c # s)" using Cons by simp
    also have "\<dots> = m @ m2" unfolding m(1,5) by simp
    finally have "findHost (c # s) = m @ m2" .
    moreover have "CHR ''.'' \<in> set m2" using m(6,7) by (metis hd_in_set)
    ultimately show ?thesis using m by (auto simp: hostName_def list_all_iff)
  qed (use Cons in simp)
qed simp

lemma TrimSet_host:
  assumes "hostName h"
  shows "TrimSet h ''.'' = h"
proof -
  have "\<not> labelEnd (CHR ''.'')" by (simp add: labelEnd_def isDigit_def code_def)
  then have "hd h \<noteq> CHR ''.''" "last h \<noteq> CHR ''.''" using assms by (auto simp: hostName_def)
  moreover have "h \<noteq> []" using assms by (simp add: hostName_def)
  moreover have "TrimLeftSet xs ''.'' = xs" if "xs \<noteq> []" "hd xs \<noteq> CHR ''.''" for xs
    using that by (cases xs) (auto simp: TrimLeftSet_def)
  ultimately show ?thesis by (simp add: TrimSet_def hd_rev)
qed

lemma extract_hostName: "extractGFWListHost rule = Some h \<Longrightarrow> hostName h"
  using findHost_hostName TrimSet_host
  by (auto simp: extractGFWListHost_def Let_def split: if_splits)

lemma gfwLine_host: "gfwLine l = Some (b', p) \<Longrightarrow> \<exists>h. p = CHR ''*'' # h \<and> hostName h"
  using extract_hostName by (auto simp: gfwLine_def normalizeGFWListRule_def Let_def split: if_splits)

section \<open>What the list says about a name\<close>

text \<open>A name is under a host if it is the host itself or ends with a dot and the host.\<close>

definition under :: "string \<Rightarrow> string \<Rightarrow> bool" where
  "under h d \<longleftrightarrow> d = h \<or> HasSuffix d (CHR ''.'' # h)"

lemma SplitByte_app: "SplitByte (xs @ c # ys) c = SplitByte xs c @ SplitByte ys c"
  by (induction xs) (auto split: list.split simp: Cons_eq_append_conv)

lemma JoinStr_app: "xs \<noteq> [] \<Longrightarrow> ys \<noteq> [] \<Longrightarrow> JoinStr (xs @ ys) [c] = JoinStr xs [c] @ c # JoinStr ys [c]"
  by (cases xs; cases ys) (auto simp: JoinStr_def)

lemma hd_SplitByte: "s \<noteq> [] \<Longrightarrow> hd s \<noteq> c \<Longrightarrow> hd (SplitByte s c) \<noteq> []"
  by (cases s) (auto split: list.split)

lemma labels_host: "hostName h \<Longrightarrow> labels h = allLabels h"
proof -
  assume h: "hostName h"
  have "\<not> labelEnd (CHR ''.'')" by (simp add: labelEnd_def isDigit_def code_def)
  then have "hd h \<noteq> CHR ''.''" "h \<noteq> []" using h by (auto simp: hostName_def)
  from hd_SplitByte [OF this(2,1)] show ?thesis by (simp add: labels_def allLabels_def last_rev)
qed

lemma under_iff:
  assumes "hostName h"
  shows "labels d = labels h \<or> (\<exists>n. labels h = take n (butlast (allLabels d))) \<longleftrightarrow> under h d"
proof
  assume l: "labels d = labels h \<or> (\<exists>n. labels h = take n (butlast (allLabels d)))"
  have "allLabels d = allLabels h \<or> (\<exists>n. allLabels h = take n (butlast (allLabels d)))"
    using l unfolding labels_host [OF assms] labels_def [of d] by (metis order_refl take_all)
  then show "under h d"
  proof
    assume "allLabels d = allLabels h"
    then have "SplitByte d (CHR ''.'') = SplitByte h (CHR ''.'')" by (simp add: allLabels_def)
    then show ?thesis using SplitByte_join [of d] SplitByte_join [of h] by (metis under_def)
  next
    assume "\<exists>n. allLabels h = take n (butlast (allLabels d))"
    then obtain n where n: "allLabels h = take n (butlast (allLabels d))" by blast
    let ?r = "drop n (butlast (allLabels d)) @ [last (allLabels d)]"
    have "allLabels d = allLabels h @ ?r" using n by (metis allLabels_ne append_assoc append_butlast_last_id append_take_drop_id)
    then have "SplitByte d (CHR ''.'') = rev ?r @ SplitByte h (CHR ''.'')" unfolding allLabels_def by (metis rev_append rev_rev_ident)
    then have "JoinStr (SplitByte d (CHR ''.'')) ''.'' = JoinStr (rev ?r) ''.'' @ CHR ''.'' # JoinStr (SplitByte h (CHR ''.'')) ''.''"
      using JoinStr_app [of "rev ?r" "SplitByte h (CHR ''.'')" "CHR ''.''"] by simp
    then obtain x where "d = x @ CHR ''.'' # h" unfolding SplitByte_join by blast
    then show ?thesis by (simp add: HasSuffix_def under_def)
  qed
next
  assume "under h d"
  then consider "d = h" | x where "d = x @ CHR ''.'' # h"
    by (auto simp: under_def HasSuffix_def) (metis append_take_drop_id)
  then show "labels d = labels h \<or> (\<exists>n. labels h = take n (butlast (allLabels d)))"
  proof cases
    case (2 x)
    then have "allLabels d = allLabels h @ allLabels x" by (simp add: allLabels_def SplitByte_app)
    then have "take (length (allLabels h)) (butlast (allLabels d)) = allLabels h" by (simp add: butlast_append)
    then show ?thesis unfolding labels_host [OF assms] by metis
  qed simp
qed

lemma loadMatcher_ok:
  assumes "\<forall>p \<in> set ps. \<exists>h. p = CHR ''*'' # h \<and> hostName h"
  shows "\<exists>m. loadMatcher ps = Inr m \<and> (\<forall>d. FindDomain m d \<noteq> None \<longleftrightarrow> (\<exists>h. CHR ''*'' # h \<in> set ps \<and> under h d))"
proof -
  have path: "exactPath (CHR ''*'' # h) = Some (labels h)" "wildPath (CHR ''*'' # h) = Some (labels h)"
      "\<exists>m'. Add m (CHR ''*'' # h) () = Inr m'" if h: "hostName h" for h and m :: "unit DomainMatcher"
  proof -
    have "\<not> labelEnd (CHR ''.'')" by (simp add: labelEnd_def isDigit_def code_def)
    then have n: "h \<noteq> []" "hd h \<noteq> CHR ''.''" using h by (auto simp: hostName_def)
    then have "\<not> HasPrefix (CHR ''*'' # h) ''*.''" "CHR ''*'' # h \<noteq> ''*''" by (cases h; auto simp: HasPrefix_def)+
    moreover have "ContainsStr (CHR ''*'' # h) ''.''"
    proof -
      have "CHR ''.'' \<in> set s \<Longrightarrow> ContainsStr s ''.''" for s by (induction s) (auto simp: HasPrefix_def)
      then show ?thesis using h by (simp add: hostName_def)
    qed
    ultimately show "exactPath (CHR ''*'' # h) = Some (labels h)" "wildPath (CHR ''*'' # h) = Some (labels h)"
      "\<exists>m'. Add m (CHR ''*'' # h) () = Inr m'"
      by (simp_all add: exactPath_def wildPath_def Add_def) (simp_all add: HasPrefix_def)
  qed
  have "\<exists>m. foldRes (\<lambda>p m. Add m p ()) ps m0 = Inr m" for m0
    using assms
  proof (induction ps arbitrary: m0)
    case (Cons p ps)
    then obtain h where "p = CHR ''*'' # h" "hostName h" by auto
    then obtain m1 where "Add m0 p () = Inr m1" using path(3) by blast
    with Cons show ?case by simp
  qed simp
  then obtain m where m: "loadMatcher ps = Inr m" by (auto simp: loadMatcher_def)
  have conv: "foldRes (\<lambda>p m. Add m p ()) xs m0 = foldRes (\<lambda>(p, v) m. Add m p v) (map (\<lambda>p. (p, ())) xs) m0" for xs m0
    by (induction xs arbitrary: m0) (simp_all add: bind_res_def split: sum.split)
  then have f: "foldRes (\<lambda>(p, v) m. Add m p v) (map (\<lambda>p. (p, ())) ps) NewDomainMatcher = Inr m"
    using m by (simp add: loadMatcher_def)
  have "FindDomain m d \<noteq> None \<longleftrightarrow> (\<exists>h. CHR ''*'' # h \<in> set ps \<and> under h d)" for d
  proof -
    let ?rs = "map (\<lambda>p. (p, ())) ps"
    have "FindDomain m d \<noteq> None \<longleftrightarrow> lastAt (\<lambda>r. exactPath (fst r)) snd ?rs (labels d) \<noteq> None \<or>
        best (lastAt (\<lambda>r. wildPath (fst r)) snd ?rs) (butlast (allLabels d)) \<noteq> None"
      unfolding FindDomain_cells Add_all [OF f] by (simp split: option.split)
    also have "\<dots> \<longleftrightarrow> (\<exists>p \<in> set ps. exactPath p = Some (labels d)) \<or>
        (\<exists>p \<in> set ps. \<exists>n. wildPath p = Some (take n (butlast (allLabels d))))"
    proof -
      have b: "best g xs \<noteq> None \<longleftrightarrow> (\<exists>n. g (take n xs) \<noteq> None)" for g :: "string list \<Rightarrow> unit option" and xs
        unfolding best_None by (metis nle_le take_all)
      show ?thesis unfolding b lastAt_None by auto
    qed
    also have "\<dots> \<longleftrightarrow> (\<exists>h. CHR ''*'' # h \<in> set ps \<and> (labels d = labels h \<or> (\<exists>n. labels h = take n (butlast (allLabels d)))))"
    proof -
      have e: "exactPath p = Some (labels d) \<longleftrightarrow> (\<exists>h. p = CHR ''*'' # h \<and> labels d = labels h)"
        "wildPath p = Some q \<longleftrightarrow> (\<exists>h. p = CHR ''*'' # h \<and> labels h = q)" if p: "p \<in> set ps" for p q
        using assms p path(1,2) by auto
      show ?thesis using e by (auto 0 3)
    qed
    also have "\<dots> \<longleftrightarrow> (\<exists>h. CHR ''*'' # h \<in> set ps \<and> under h d)"
      using assms under_iff by (metis list.inject)
    finally show ?thesis .
  qed
  with m show ?thesis by blast
qed

section \<open>Properties\<close>

lemma parse_patterns:
  assumes "parseEmbeddedGFWList raw = Inr (blocked, bypass)"
  shows "\<forall>p \<in> set blocked \<union> set bypass. \<exists>h. p = CHR ''*'' # h \<and> hostName h"
  using assms gfwLine_host
  by (fastforce simp: parseEmbeddedGFWList_def mapKeysSorted_def map_filter_def Let_def split: option.splits)


lemma example_list: "parseEmbeddedGFWList ''fHxFeGFtcGxlLm9yZwpAQHx8b2suZXhhbXBsZS5vcmc='' =
    Inr ([''*example.org''], [''*ok.example.org''])"
  by code_simp


end
