(* ===== verification/Routing.thy ===== *)
theory Routing
  imports DNS GFW_List
begin

text \<open>
  The routing decision for a request (\<^verbatim>\<open>core/policy.go\<close>: \<^verbatim>\<open>genPolicy\<close>; \<^verbatim>\<open>core/gfwlist.go\<close>:
  \<^verbatim>\<open>classifyDomainRoute\<close>; \<^verbatim>\<open>core/nat64.go\<close>: \<^verbatim>\<open>planNat64\<close>; \<^verbatim>\<open>core/dial_plan.go\<close>). Logging is left out.
\<close>

section \<open>The policy and the target of a host\<close>

text \<open>The ways \<^verbatim>\<open>genPolicy\<close> returns: with a destination and a policy, or with one of its three flags.\<close>

datatype genResult = Planned string Policy | Failed | Blocked | DomainNotFound

text \<open>The destination once a host is selected; \<open>dst\<close> is not empty if the name was resolved already.\<close>

definition selectedTarget :: "'w lib \<Rightarrow> string \<Rightarrow> Policy \<Rightarrow> string \<Rightarrow> string \<Rightarrow> ('w, string res) act" where
  "selectedTarget L originHost p dst selectedHost =
     (if dst \<noteq> [] then ret (Inr dst)
      else if HasPrefix selectedHost ''?''
      then bindE (dnsResolve L (drop 1 selectedHost) (DNSMode' p) (DNSCacheTTL p)) (\<lambda>(ip, _). ret (Inr ip))
      else if selectedHost = ''self'' then ret (Inr originHost)
      else if HasPrefix selectedHost ''$'' then onPools (\<lambda>ps. getFromIPPool ps (drop 1 selectedHost))
      else ret (Inr selectedHost))"

definition finishTarget :: "'w lib \<Rightarrow> string \<Rightarrow> Policy \<Rightarrow> string \<Rightarrow> string \<Rightarrow> bool \<Rightarrow> ('w, genResult + string \<times> bool) act" where
  "finishTarget L originHost p dst sel noRedirect = bindS (selectedTarget L originHost p dst sel) (\<lambda>r. case r of
       Inl _ \<Rightarrow> ret (Inl Failed)
     | Inr d \<Rightarrow> ret (Inr (d, noRedirect)))"

text \<open>The destination of a name and whether redirection by address is switched off; on the left, an
  early return.\<close>

definition domainTarget :: "'w lib \<Rightarrow> Tables \<Rightarrow> string \<Rightarrow> Policy \<Rightarrow> bool \<Rightarrow> ('w, genResult + string \<times> bool) act" where
  "domainTarget L t originHost p returnWhenDomainNotFound =
     (let noRedirect0 = HasPrefix (Host p) ''^'';
          policyHost = (if noRedirect0 then drop 1 (Host p) else Host p)
      in if policyHost = [] \<or> policyHost = unsetString then
           let sel0 = (case FindDomain (hostsMatcher t) originHost of Some h \<Rightarrow> h | None \<Rightarrow> []);
               noRedirect = HasPrefix sel0 ''^'';
               sel = (if noRedirect then drop 1 sel0 else sel0)
           in if sel = [] \<or> sel = unsetString then
                (if returnWhenDomainNotFound then ret (Inl DomainNotFound)
                 else bindS (dnsResolve L originHost (DNSMode' p) (DNSCacheTTL p)) (\<lambda>r. case r of
                     Inl _ \<Rightarrow> ret (Inl Failed)
                   | Inr (ip, _) \<Rightarrow> finishTarget L originHost p ip sel noRedirect))
              else finishTarget L originHost p [] sel noRedirect
         else finishTarget L originHost p [] policyHost noRedirect0)"

text \<open>The redirection by address at the end.\<close>

definition redirectTarget :: "Tables \<Rightarrow> Policy option \<Rightarrow> Policy \<Rightarrow> string \<Rightarrow> bool \<Rightarrow> ('w, genResult) act" where
  "redirectTarget t domainPolicy p dst noRedirect =
     (if noRedirect then ret (Planned dst p)
      else bindS (onPools (ipRedirect t dst)) (\<lambda>r. case r of
          Inl _ \<Rightarrow> ret Failed
        | Inr (dst', None) \<Rightarrow> ret (Planned dst' p)
        | Inr (dst', Some ipPolicy) \<Rightarrow>
            let q = mergePolicies ((case domainPolicy of Some d \<Rightarrow> [d] | None \<Rightarrow> []) @ [ipPolicy, defaultPolicy t]) in
            ret (if Mode' q = ModeBlock then Blocked else Planned dst' q)))"

definition genPolicy :: "'w lib \<Rightarrow> string \<Rightarrow> bool \<Rightarrow> bool \<Rightarrow> ('w, genResult) act" where
  "genPolicy L originHost isIP0 returnWhenDomainNotFound = bindS (gets tables) (\<lambda>t.
     let dflt = defaultPolicy t; isIP = (isIP0 \<or> ParseIP originHost \<noteq> None) in
     if isIP then
       bindS (onPools (ipRedirect t originHost)) (\<lambda>r. case r of
           Inl _ \<Rightarrow> ret Failed
         | Inr (dst, ipPolicy) \<Rightarrow>
             let p = (case ipPolicy of None \<Rightarrow> dflt | Some q \<Rightarrow> mergePolicies [q, dflt]) in
             ret (if Mode' p = ModeBlock then Blocked else Planned dst p))
     else
       let domainPolicy = FindDomain (domainMatcher t) originHost in
       if (case domainPolicy of Some d \<Rightarrow> Mode' d = ModeBlock | None \<Rightarrow> False) then ret Blocked
       else
         let p = (case domainPolicy of Some d \<Rightarrow> mergePolicies [d, dflt] | None \<Rightarrow> dflt) in
         bindS (domainTarget L t originHost p returnWhenDomainNotFound) (\<lambda>r. case r of
             Inl early \<Rightarrow> ret early
           | Inr (dst, noRedirect) \<Rightarrow> redirectTarget t domainPolicy p dst noRedirect))"

section \<open>Routes without a rule\<close>

datatype domainRouteClass = domainRoutePlain | domainRouteRule | domainRouteGFW

definition plainFallbackPolicy :: Policy where "plainFallbackPolicy = zeroPolicy\<lparr>Mode' := ModeRaw\<rparr>"
definition gfwFallbackPolicy :: Policy where "gfwFallbackPolicy = zeroPolicy\<lparr>Mode' := ModeTLSRF\<rparr>"

definition classifyDomainRoute :: "'w core \<Rightarrow> string \<Rightarrow> domainRouteClass" where
  "classifyDomainRoute s domain0 =
     (let domain = ToLower domain0 in
      if domain = [] then domainRoutePlain
      else if FindDomain (domainMatcher (tables s)) domain \<noteq> None then domainRouteRule
      else if isGFWDomain (gfwDomainMatcher s) (gfwBypassMatcher s) domain then domainRouteGFW
      else domainRoutePlain)"

definition shouldUseFakeIP :: "'w core \<Rightarrow> string \<Rightarrow> bool" where
  "shouldUseFakeIP s domain = (case classifyDomainRoute s domain of
       domainRouteRule \<Rightarrow> True | domainRouteGFW \<Rightarrow> True | domainRoutePlain \<Rightarrow> False)"

section \<open>NAT64\<close>

definition planNat64 :: "'w lib \<Rightarrow> string \<Rightarrow> Policy \<Rightarrow> ('w, string res) act" where
  "planNat64 L host p =
     (if \<not> isNAT64Enabled (Some p) then ret (Inr host)
      else bindE (if ParseIP host = None
                  then wrapE (''nat64 resolve '' @ host) (bindE (dnsResolve L host (DNSMode' p) (DNSCacheTTL p)) (\<lambda>(ip, _). ret (Inr ip)))
                  else ret (Inr host)) (\<lambda>dstHost.
        case mapNAT64Addr dstHost (Nat64Prefix p) of
          (mapped', True) \<Rightarrow> ret (Inr mapped')
        | (_, False) \<Rightarrow> ret (Inl (ErrNew (''native IPv6 '' @ dstHost @ '' excluded under NAT64 mode'')))))"

section \<open>The dial plan\<close>

datatype DomainTargetMode = ResolveDomainTarget | PreserveDomainTarget

record RequestContext =
  rSource :: string
  rHost :: string
  rPort :: int
  rMode :: DomainTargetMode

record DialPlan =
  Source :: string
  OriginHost :: string
  OriginPort :: int
  RecoveredDomain :: string
  MatchedDomain :: bool
  MatchedIP :: bool
  TargetHost :: string
  TargetPort :: int
  dpPolicy :: Policy
  dpBlocked :: bool

definition TargetAddress :: "DialPlan \<Rightarrow> string" where
  "TargetAddress p = (if TargetPort p \<le> 0 then TargetHost p else JoinHostPort (TargetHost p) (Itoa (TargetPort p)))"

definition OriginAddress :: "DialPlan \<Rightarrow> string" where
  "OriginAddress p = (if OriginPort p \<le> 0 then OriginHost p else JoinHostPort (OriginHost p) (Itoa (OriginPort p)))"

text \<open>The fallback for a name without a rule, and whether the name then counts as matched.\<close>

definition fallbackPolicy :: "'w core \<Rightarrow> string \<Rightarrow> Policy \<Rightarrow> Policy \<times> bool" where
  "fallbackPolicy s planningHost policy = (case classifyDomainRoute s planningHost of
       domainRouteGFW \<Rightarrow> (mergePolicies [gfwFallbackPolicy, defaultPolicy (tables s)], True)
     | domainRoutePlain \<Rightarrow> (mergePolicies [plainFallbackPolicy, defaultPolicy (tables s)], False)
     | domainRouteRule \<Rightarrow> (policy, False))"

text \<open>The end of \<^verbatim>\<open>PlanRequest\<close>, from the fallback on.\<close>

definition finishPlan :: "'w lib \<Rightarrow> RequestContext \<Rightarrow> string \<Rightarrow> string \<Rightarrow> bool \<Rightarrow> bool \<Rightarrow> bool \<Rightarrow> string \<Rightarrow> Policy \<Rightarrow> ('w, DialPlan res) act" where
  "finishPlan L req recoveredDomain planningHost isIP matchedDomain0 matchedIP0 dstHost policy0 = bindS (gets id) (\<lambda>s.
     let (policy, matchedDomain) =
           (if \<not> isIP \<and> \<not> matchedDomain0 then fallbackPolicy s planningHost policy0 else (policy0, matchedDomain0));
         matchedIP = (matchedIP0 \<or> dstHost \<noteq> [] \<and> ParseIP dstHost \<noteq> None \<and> getIPPolicy (tables s) dstHost \<noteq> None)
     in bindE (if isNAT64Enabled (Some policy) \<and> (recoveredDomain \<noteq> [] \<or> \<not> isFakeIPAddress (fakes s) dstHost)
               then planNat64 L dstHost policy else ret (Inr dstHost)) (\<lambda>target.
       ret (Inr \<lparr>Source = rSource req, OriginHost = rHost req, OriginPort = rPort req, RecoveredDomain = recoveredDomain,
         MatchedDomain = matchedDomain, MatchedIP = matchedIP, TargetHost = target,
         TargetPort = (if Port policy > 0 then Port policy else rPort req), dpPolicy = policy, dpBlocked = False\<rparr>)))"

text \<open>The part after the recovery of a name; the recovered name is empty if there is none.\<close>

definition planHost :: "'w lib \<Rightarrow> RequestContext \<Rightarrow> string \<Rightarrow> ('w, DialPlan res) act" where
  "planHost L req recoveredDomain = bindS (gets tables) (\<lambda>t.
     let planningHost = (if recoveredDomain \<noteq> [] then recoveredDomain else rHost req);
         isIP = (ParseIP (rHost req) \<noteq> None \<and> recoveredDomain = []);
         matchedDomain = (\<not> isIP \<and> FindDomain (domainMatcher t) planningHost \<noteq> None);
         matchedIP = (isIP \<and> getIPPolicy t planningHost \<noteq> None)
     in bindS (genPolicy L planningHost isIP (rMode req = PreserveDomainTarget)) (\<lambda>g. case g of
         Failed \<Rightarrow> ret (Inl (ErrNew ''failed to resolve dial plan''))
       | Blocked \<Rightarrow> ret (Inr \<lparr>Source = rSource req, OriginHost = rHost req, OriginPort = rPort req,
           RecoveredDomain = recoveredDomain, MatchedDomain = matchedDomain, MatchedIP = matchedIP,
           TargetHost = [], TargetPort = 0, dpPolicy = zeroPolicy, dpBlocked = True\<rparr>)
       | DomainNotFound \<Rightarrow>
           finishPlan L req recoveredDomain planningHost isIP matchedDomain matchedIP planningHost (defaultPolicy t)
       | Planned dst policy \<Rightarrow>
           finishPlan L req recoveredDomain planningHost isIP matchedDomain matchedIP dst policy))"

definition PlanRequest :: "'w lib \<Rightarrow> RequestContext \<Rightarrow> ('w, DialPlan res) act" where
  "PlanRequest L req =
     (if rHost req = [] then ret (Inl (ErrNew ''request host is empty''))
      else bindS (if ParseIP (rHost req) \<noteq> None then lookupDomainByIP L (rHost req) else ret None) (\<lambda>found.
        planHost L req (case found of Some d \<Rightarrow> d | None \<Rightarrow> [])))"

definition PlanAddress :: "'w lib \<Rightarrow> string \<Rightarrow> ('w, DialPlan res) act" where
  "PlanAddress L originHost = PlanRequest L \<lparr>rSource = [], rHost = originHost, rPort = 0, rMode = ResolveDomainTarget\<rparr>"

section \<open>Planning returns\<close>

lemma safe_bool [safe_rules]: "safe L f \<Longrightarrow> safe L g \<Longrightarrow> safe L (case b' of True \<Rightarrow> f | False \<Rightarrow> g)"
  by (cases b') simp_all

lemma safe_genResult [safe_rules]:
  "(\<And>d p. safe L (f d p)) \<Longrightarrow> safe L g \<Longrightarrow> safe L h \<Longrightarrow> safe L k \<Longrightarrow>
   safe L (case r of Planned d p \<Rightarrow> f d p | Failed \<Rightarrow> g | Blocked \<Rightarrow> h | DomainNotFound \<Rightarrow> k)"
  by (cases r) simp_all

lemma safe_selectedTarget [safe_rules]: "deadlinesHold L \<Longrightarrow> safe L (selectedTarget L h p dst sel)"
  unfolding selectedTarget_def by (intro safe_rules)

lemma safe_finishTarget [safe_rules]: "deadlinesHold L \<Longrightarrow> safe L (finishTarget L h p dst sel nr)"
  unfolding finishTarget_def by (intro safe_rules)

lemma safe_domainTarget [safe_rules]: "deadlinesHold L \<Longrightarrow> safe L (domainTarget L t h p b)"
  unfolding domainTarget_def Let_def by (intro safe_rules)

lemma safe_redirectTarget [safe_rules]: "safe L (redirectTarget t d p dst nr)"
  unfolding redirectTarget_def by (intro safe_rules)

lemma safe_genPolicy [safe_rules]: "deadlinesHold L \<Longrightarrow> safe L (genPolicy L h isIP b)"
  unfolding genPolicy_def Let_def by (intro safe_rules)

lemma safe_planNat64 [safe_rules]: "deadlinesHold L \<Longrightarrow> safe L (planNat64 L host p)"
  unfolding planNat64_def by (intro safe_rules)

lemma safe_finishPlan [safe_rules]: "deadlinesHold L \<Longrightarrow> safe L (finishPlan L req r h isIP md mi dst p)"
  unfolding finishPlan_def by (intro safe_rules)

lemma safe_planHost [safe_rules]: "deadlinesHold L \<Longrightarrow> safe L (planHost L req rd)"
  unfolding planHost_def by (intro safe_rules)

lemma safe_PlanRequest [safe_rules]: "deadlinesHold L \<Longrightarrow> safe L (PlanRequest L req)"
  unfolding PlanRequest_def by (intro safe_rules)

section \<open>Properties\<close>

text \<open>C30. Planning always returns. In every well-formed state, and provided that reads on connections
  fail once their deadline has passed, a request is planned or refused with an error: no
  step panics or waits for ever. The state stays well formed and the configuration unchanged.\<close>

theorem plan_returns:
  assumes "wfCore L s" "deadlinesHold L"
  shows "\<exists>r s'. PlanRequest L req s = Some (r, s') \<and> wfCore L s' \<and> conf s' = conf s"
  using safeD [OF safe_PlanRequest [OF assms(2), of req] assms(1)] by (auto simp: returns_def good_def)

theorem plan_returns_witness:
  "\<exists>s r s'. wfCore exampleLib s \<and>
     PlanRequest exampleLib \<lparr>rSource = ''socks5'', rHost = ''example.org'', rPort = 443, rMode = ResolveDomainTarget\<rparr> s = Some (r, s') \<and>
     wfCore exampleLib s'"
proof -
  obtain f c where w: "wfCore exampleLib (exampleCore f c)" using example_cache example_wf default_reach by blast
  show ?thesis using w plan_returns [OF w example_deadlines] by blast
qed

text \<open>The policies that apply, the most specific first.\<close>

definition chain :: "Policy option \<Rightarrow> Policy option \<Rightarrow> Policy \<Rightarrow> Policy" where
  "chain domainPolicy ipPolicy dflt = (case (domainPolicy, ipPolicy) of
       (None, None) \<Rightarrow> dflt
     | (Some d, None) \<Rightarrow> mergePolicies [d, dflt]
     | (None, Some i) \<Rightarrow> mergePolicies [i, dflt]
     | (Some d, Some i) \<Rightarrow> mergePolicies [d, i, dflt])"

lemma ipRedirect_policy:
  assumes "ipRedirect t ip ps = Some (Inr (dst, ipPolicy), ps')"
  shows "ipPolicy = getIPPolicy t ip"
  using assms by (auto simp: ipRedirect_def bindE_Inr split: option.splits if_splits sum.splits)

lemma onPools_ipRedirect:
  assumes "onPools (ipRedirect t ip) s = Some (Inr (dst, ipPolicy), s')"
  shows "ipPolicy = getIPPolicy t ip"
  using assms ipRedirect_policy [of t ip "ipPools s" dst ipPolicy] by (auto simp: onPools_def on_def split: option.splits)

lemma bindS_gets [simp]: "bindS (gets f) k s = k (f s) s"
  by (simp add: bindS_def)

lemma bindS_sum: "bindS m (\<lambda>r. case r of Inl e \<Rightarrow> f e | Inr x \<Rightarrow> g x) s = Some y \<longleftrightarrow>
    (\<exists>e s1. m s = Some (Inl e, s1) \<and> f e s1 = Some y) \<or> (\<exists>x s1. m s = Some (Inr x, s1) \<and> g x s1 = Some y)"
  by (auto simp: bindS_def split: option.splits sum.splits)

lemma finishTarget_early: "finishTarget L h p dst sel nr s = Some (Inl g, s') \<Longrightarrow> g = Failed"
  by (auto simp: finishTarget_def bindS_sum)

lemma domainTarget_early:
  assumes "domainTarget L t h p pres s = Some (Inl g, s')"
  shows "g = Failed \<or> g = DomainNotFound"
proof -
  have "(\<exists>dst sel nr s1. finishTarget L h p dst sel nr s1 = Some (Inl g, s')) \<or> g = Failed \<or> g = DomainNotFound"
    using assms unfolding domainTarget_def Let_def
    by (auto simp only: bindS_sum ret_def Pair_inject option.inject sum.inject split: if_splits)
  then show ?thesis using finishTarget_early by blast
qed

lemma redirectTarget_policy:
  assumes "redirectTarget t domainPolicy (chain domainPolicy None (defaultPolicy t)) d0 nr s = Some (Planned dst p, s')"
    "ipPolicy = (if nr then None else getIPPolicy t d0)"
  shows "(if nr then dst = d0 \<and> s' = s else onPools (ipRedirect t d0) s = Some (Inr (dst, ipPolicy), s')) \<and>
    p = chain domainPolicy ipPolicy (defaultPolicy t) \<and> (Mode' p = ModeBlock \<longrightarrow> ipPolicy = None)"
proof (cases nr)
  case False
  let ?q = "\<lambda>i. mergePolicies ((case domainPolicy of Some d \<Rightarrow> [d] | None \<Rightarrow> []) @ [i, defaultPolicy t])"
  have q: "chain domainPolicy (Some i) (defaultPolicy t) = ?q i" for i by (simp add: chain_def split: option.split)
  have run: "redirectTarget t domainPolicy (chain domainPolicy None (defaultPolicy t)) d0 nr s =
      bindS (onPools (ipRedirect t d0)) (\<lambda>r. case r of Inl _ \<Rightarrow> ret Failed | Inr (dst', i) \<Rightarrow> (case i of
          None \<Rightarrow> ret (Planned dst' (chain domainPolicy None (defaultPolicy t)))
        | Some i \<Rightarrow> ret (if Mode' (?q i) = ModeBlock then Blocked else Planned dst' (?q i)))) s"
    using False by (simp add: redirectTarget_def Let_def)
  obtain dst' i s1 where r: "onPools (ipRedirect t d0) s = Some (Inr (dst', i), s1)"
    "(case i of None \<Rightarrow> ret (Planned dst' (chain domainPolicy None (defaultPolicy t)))
      | Some i \<Rightarrow> ret (if Mode' (?q i) = ModeBlock then Blocked else Planned dst' (?q i))) s1 = Some (Planned dst p, s')"
    using assms(1) unfolding run bindS_sum by (auto simp del: append.simps split: prod.splits)
  have ip: "ipPolicy = i" using onPools_ipRedirect [OF r(1)] assms(2) False by simp
  show ?thesis using r False unfolding ip by (cases i) (simp_all add: q split: if_splits)
qed (use assms in \<open>auto simp: redirectTarget_def\<close>)

text \<open>C31. Precedence of policies, and blocking. When a host gets a plan, its policy is the merge of the
  rule for its name (not for an address), the rule for the address it leads to (unless
  redirection is switched off) and the default policy, in this order of precedence, and the
  destination is that address, redirected as its rule says. A name whose rule blocks is not
  planned, and a plan has the mode \<^verbatim>\<open>block\<close> only for a name that leads to no address with a rule:
  then the mode is that of the default policy.\<close>

theorem genPolicy_precedence:
  assumes "genPolicy L host isIP pres s = Some (Planned dst p, s')"
    "byAddr = (isIP \<or> ParseIP host \<noteq> None)" "t = tables s"
    "domainPolicy = (if byAddr then None else FindDomain (domainMatcher t) host)"
  shows "\<exists>ip nr s1 ipPolicy.
      (if byAddr then ip = host \<and> \<not> nr \<and> s1 = s
       else domainTarget L t host (chain domainPolicy None (defaultPolicy t)) pres s = Some (Inr (ip, nr), s1)) \<and>
      ipPolicy = (if nr then None else getIPPolicy t ip) \<and>
      (if nr then dst = ip \<and> s' = s1 else onPools (ipRedirect t ip) s1 = Some (Inr (dst, ipPolicy), s')) \<and>
      p = chain domainPolicy ipPolicy (defaultPolicy t) \<and>
      (Mode' p = ModeBlock \<longrightarrow> \<not> byAddr \<and> ipPolicy = None) \<and>
      (\<forall>d. domainPolicy = Some d \<longrightarrow> Mode' d \<noteq> ModeBlock)"
proof (cases byAddr)
  case True
  obtain ipPolicy where r: "onPools (ipRedirect t host) s = Some (Inr (dst, ipPolicy), s')"
    and p: "p = (case ipPolicy of None \<Rightarrow> defaultPolicy t | Some q \<Rightarrow> mergePolicies [q, defaultPolicy t])" "Mode' p \<noteq> ModeBlock"
    using assms True by (auto simp: genPolicy_def bindS_sum Let_def split: if_splits)
  show ?thesis using onPools_ipRedirect [OF r] r p True assms(4)
    by (intro exI [of _ host] exI [of _ False] exI [of _ s] exI [of _ ipPolicy]) (auto simp: chain_def split: option.split)
next
  case False
  define p0 where "p0 = chain domainPolicy None (defaultPolicy t)"
  have nb: "\<forall>d. domainPolicy = Some d \<longrightarrow> Mode' d \<noteq> ModeBlock"
    using assms False by (auto simp: genPolicy_def split: if_splits option.splits)
  have run: "genPolicy L host isIP pres s = bindS (domainTarget L t host p0 pres) (\<lambda>r. case r of
      Inl early \<Rightarrow> ret early | Inr (d0, nr) \<Rightarrow> redirectTarget t domainPolicy p0 d0 nr) s"
    using assms(2-4) False nb by (auto simp: genPolicy_def bindS_def p0_def chain_def Let_def split: option.split)
  obtain d0 nr s1 where d: "domainTarget L t host p0 pres s = Some (Inr (d0, nr), s1)"
      "redirectTarget t domainPolicy p0 d0 nr s1 = Some (Planned dst p, s')"
    using assms(1) domainTarget_early [of L t host p0 pres s] unfolding run bindS_sum by auto
  have h: "(if nr then dst = d0 \<and> s' = s1 else onPools (ipRedirect t d0) s1 = Some (Inr (dst, if nr then None else getIPPolicy t d0), s')) \<and>
      p = chain domainPolicy (if nr then None else getIPPolicy t d0) (defaultPolicy t) \<and>
      (Mode' p = ModeBlock \<longrightarrow> (if nr then None else getIPPolicy t d0) = None)"
    by (rule redirectTarget_policy [OF d(2) [unfolded p0_def] refl])
  have "if byAddr then d0 = host \<and> \<not> nr \<and> s1 = s
      else domainTarget L t host (chain domainPolicy None (defaultPolicy t)) pres s = Some (Inr (d0, nr), s1)"
    using d(1) unfolding p0_def if_not_P [OF False] .
  then show ?thesis using h nb False by blast
qed

definition exampleRule :: Policy where
  "exampleRule = zeroPolicy\<lparr>Host := ''^192.0.2.9'', Mode' := ModeRaw\<rparr>"

definition exampleTables :: Tables where
  "exampleTables = loadTables zeroPolicy [] [(''example.org'', exampleRule)] []"

lemma example_find: "FindDomain (domainMatcher exampleTables) ''example.org'' = Some exampleRule"
  by code_simp

lemma example_host: "Host (mergePolicies [exampleRule, zeroPolicy]) = ''^192.0.2.9''"
  by (simp add: mergePolicies_fields exampleRule_def unsetString_def)

lemma example_genPolicy:
  assumes "tables s = exampleTables"
  shows "genPolicy L ''example.org'' False False s = Some (Planned ''192.0.2.9'' (mergePolicies [exampleRule, zeroPolicy]), s)"
proof -
  have ip: "ParseIP ''example.org'' = None" by code_simp
  have d: "defaultPolicy exampleTables = zeroPolicy" by (simp add: exampleTables_def loadTables_def)
  show ?thesis
    by (simp add: genPolicy_def domainTarget_def finishTarget_def selectedTarget_def redirectTarget_def assms ip d example_find example_host
        bindS_def HasPrefix_def unsetString_def Let_def) (simp add: exampleRule_def)
qed

theorem genPolicy_precedence_witness:
  "\<exists>s s' p. genPolicy exampleLib ''example.org'' False False s = Some (Planned ''192.0.2.9'' p, s') \<and>
     p = chain (Some exampleRule) None zeroPolicy \<and> Mode' p \<noteq> ModeBlock"
proof -
  obtain f :: fakeStores and c :: stringCache where True by blast
  let ?s = "(exampleCore f c)\<lparr>tables := exampleTables\<rparr>"
  have ip: "ParseIP ''example.org'' = None" by code_simp
  have d: "defaultPolicy exampleTables = zeroPolicy" by (simp add: exampleTables_def loadTables_def)
  have t: "exampleTables = tables ?s" by simp
  have dp: "Some exampleRule = (if False then None else FindDomain (domainMatcher exampleTables) ''example.org'')" by (simp add: example_find)
  have addr: "False = (False \<or> ParseIP ''example.org'' \<noteq> None)" by (simp add: ip)
  note run = example_genPolicy [OF t [symmetric], of exampleLib]
  show ?thesis
    using genPolicy_precedence [OF run addr t dp] run
    by (auto simp: d chain_def mergePolicies_fields exampleRule_def orDefault_def intro!: exI [of _ ?s])
qed

lemma finishPlan_fields:
  assumes "finishPlan L req rd h isIP md mi dst p s = Some (Inr plan, s')"
  shows "RecoveredDomain plan = rd \<and> OriginHost plan = rHost req \<and> \<not> dpBlocked plan"
  using assms by (auto simp: finishPlan_def bindE_Inr Let_def split: prod.splits)

lemma example_plan:
  assumes "tables s = exampleTables" "rMode creq = ResolveDomainTarget"
  shows "\<exists>plan s3. planHost L creq ''example.org'' s = Some (Inr plan, s3)"
proof -
  have trim: "TrimSpace [] = []" by code_simp
  have "Nat64Prefix (mergePolicies [exampleRule, zeroPolicy]) = []"
    by (simp add: mergePolicies_fields exampleRule_def) (simp add: zeroPolicy_def)
  then have nat: "\<not> isNAT64Enabled (Some (mergePolicies [exampleRule, zeroPolicy]))" by (simp add: isNAT64Enabled_def trim)
  have g: "genPolicy L ''example.org'' False (rMode creq = PreserveDomainTarget) s =
      Some (Planned ''192.0.2.9'' (mergePolicies [exampleRule, zeroPolicy]), s)"
    using example_genPolicy [OF assms(1), of L] assms(2) by simp
  have "planHost L creq ''example.org'' s =
      finishPlan L creq ''example.org'' ''example.org'' False True False ''192.0.2.9'' (mergePolicies [exampleRule, zeroPolicy]) s"
    by (simp add: planHost_def bindS_def g Let_def assms(1) example_find)
  then show ?thesis by (simp add: finishPlan_def nat bindE_def bindS_def Let_def)
qed

lemma bindS_genResult:
  "bindS m (\<lambda>g. case g of Planned d p \<Rightarrow> f d p | Failed \<Rightarrow> a | Blocked \<Rightarrow> b' | DomainNotFound \<Rightarrow> c) s = Some y \<longleftrightarrow>
    (\<exists>d p s1. m s = Some (Planned d p, s1) \<and> f d p s1 = Some y) \<or> (\<exists>s1. m s = Some (Failed, s1) \<and> a s1 = Some y) \<or>
    (\<exists>s1. m s = Some (Blocked, s1) \<and> b' s1 = Some y) \<or> (\<exists>s1. m s = Some (DomainNotFound, s1) \<and> c s1 = Some y)"
  by (auto simp: bindS_def split: option.splits genResult.splits)

lemma planHost_fields:
  assumes "planHost L req rd s = Some (Inr plan, s')" "rd \<noteq> []"
  shows "RecoveredDomain plan = rd \<and> OriginHost plan = rHost req \<and>
    (\<exists>g s2. genPolicy L rd False (rMode req = PreserveDomainTarget) s = Some (g, s2) \<and> (dpBlocked plan \<longleftrightarrow> g = Blocked) \<and> g \<noteq> Failed)"
  using assms by (auto simp: planHost_def bindS_genResult Let_def dest!: finishPlan_fields)

lemma fake_entry:
  assumes "fakeReach f0" "allocateFakeIP f0 now order domain qtype ttl = Some (Inr ip, f)"
  shows "\<exists>e. fakeOK f \<and> qtype \<in> {TypeA, TypeAAAA} \<and> domainToEntry (storeFor qtype f) (ToLower domain) = Some e \<and> eIP e = ip \<and>
    expiresAt e = now + fakeIPLifetime ttl"
  using allocateFakeIP_ok [OF fakeReach_ok [OF assms(1)], of now order domain qtype ttl] assms(2) by auto

lemma fake_string4:
  assumes "fakeReach f0" "allocateFakeIP f0 now order domain TypeA ttl = Some (Inr ip, f)"
  shows "\<exists>a. ip = string4 a"
proof -
  obtain e where e: "fakeOK f" "domainToEntry (storeFor TypeA f) (ToLower domain) = Some e" "eIP e = ip"
    using fake_entry [OF assms] by blast
  obtain m where "m < 2 ^ 17" "ip = AddrString (addrAt p4 m)"
    using e unfolding fakeOK_def storeOK_def storeFor_def by (simp only: if_True simp_thms) metis
  then show ?thesis using poolAddr_4 by auto
qed

lemma string4_parses: "ParseIP (string4 a) \<noteq> None" "string4 a \<noteq> []"
proof -
  show "ParseIP (string4 a) \<noteq> None" unfolding ParseIP_def ParseAddr_string4 by simp
  show "string4 a \<noteq> []" using ParseAddr_string4 [of a] by (auto simp: ParseAddr_def)
qed

lemma fake_hit:
  assumes "fakeReach f0" "allocateFakeIP f0 now order domain qtype ttl = Some (Inr ip, f)" "t < now + fakeIPLifetime ttl"
  shows "fst (lookupFakeDomainByIP f t ip) = Some (ToLower domain)" "ToLower domain \<noteq> []"
proof -
  obtain e where e: "fakeOK f" "qtype \<in> {TypeA, TypeAAAA}" "domainToEntry (storeFor qtype f) (ToLower domain) = Some e" "eIP e = ip"
      "expiresAt e = now + fakeIPLifetime ttl"
    using fake_entry [OF assms(1,2)] by blast
  show "fst (lookupFakeDomainByIP f t ip) = Some (ToLower domain)"
    using lookupFake_hit [OF e(1-3), of t] e(4,5) assms(3) by simp
  show "ToLower domain \<noteq> []"
    using assms(2) by (auto simp: allocateFakeIP_def Allocate_def Let_def split: if_splits)
qed

text \<open>Requests to a fake address are planned by the name: as long as the mapping lives, a plan for the
  address recovers the name and is the outcome of routing that name, not of any rule for the fake address.\<close>

lemma plan_by_name:
  assumes "fakeReach f0" "allocateFakeIP f0 now order domain qtype ttl = Some (Inr ip, fakes s)"
    "Now L (world s) = (t, w)" "t < now + fakeIPLifetime ttl" "rHost req = ip" "ParseIP ip \<noteq> None" "PlanRequest L req s = Some (Inr plan, s')"
  shows "RecoveredDomain plan = ToLower domain \<and> OriginHost plan = ip \<and>
    (\<exists>g f s2. genPolicy L (ToLower domain) False (rMode req = PreserveDomainTarget) (s\<lparr>world := w, fakes := f\<rparr>) = Some (g, s2) \<and>
      (dpBlocked plan \<longleftrightarrow> g = Blocked) \<and> g \<noteq> Failed)"
proof -
  note h = fake_hit [OF assms(1,2,4)]
  obtain f where f: "lookupFakeDomainByIP (fakes s) t ip = (Some (ToLower domain), f)" using h(1) by (metis prod.collapse)
  let ?s1 = "s\<lparr>world := w, fakes := f\<rparr>"
  have look: "lookupDomainByIP L ip s = Some (Some (ToLower domain), ?s1)"
    using assms(3) f by (simp add: lookupDomainByIP_def fakeLookup_def bindS_def ext_def)
  have "ip \<noteq> []" using assms(6) by (auto simp: ParseIP_def ParseAddr_def)
  then have "planHost L req (ToLower domain) ?s1 = Some (Inr plan, s')"
    using assms(5-7) by (simp add: PlanRequest_def bindS_run [where m = "lookupDomainByIP L ip", OF look])
  from planHost_fields [OF this h(2)] show ?thesis using assms(5) by blast
qed

text \<open>A rule that blocks a name.\<close>

definition blockTables :: Tables where
  "blockTables = loadTables zeroPolicy [] [(''example.org'', zeroPolicy\<lparr>Mode' := ModeBlock\<rparr>)] []"

lemma block_find: "FindDomain (domainMatcher blockTables) ''example.org'' = Some (zeroPolicy\<lparr>Mode' := ModeBlock\<rparr>)"
  by code_simp

text \<open>Rules match names exactly as they are written: a rule that blocks a name blocks the name in
  lower case, and does not block the same name with a capital letter, although the classification
  of the route, which converts to lower case, counts both names as covered by the rule.\<close>

lemma block_rule_case:
  "FindDomain (domainMatcher blockTables) ''example.org'' \<noteq> None \<and>
   genPolicy L ''example.org'' False pres (s\<lparr>tables := blockTables\<rparr>) = Some (Blocked, s\<lparr>tables := blockTables\<rparr>) \<and>
   genPolicy L ''Example.org'' False True (s\<lparr>tables := blockTables\<rparr>) = Some (DomainNotFound, s\<lparr>tables := blockTables\<rparr>) \<and>
   classifyDomainRoute (s\<lparr>tables := blockTables\<rparr>) ''Example.org'' = domainRouteRule"
proof -
  have ip: "ParseIP ''example.org'' = None" "ParseIP ''Example.org'' = None" "ToLower ''Example.org'' = ''example.org''"
    by code_simp+
  have n: "FindDomain (domainMatcher blockTables) ''Example.org'' = None" "FindDomain (hostsMatcher blockTables) ''Example.org'' = None"
    by code_simp+
  have d: "defaultPolicy blockTables = zeroPolicy" by (simp add: blockTables_def loadTables_def)
  have h: "Host zeroPolicy = []" by (simp add: zeroPolicy_def)
  show ?thesis
    by (simp add: genPolicy_def domainTarget_def classifyDomainRoute_def ip block_find n d h bindS_def Let_def HasPrefix_def)
qed

lemma fallback_plain:
  assumes "classifyDomainRoute s host = domainRoutePlain" "fallbackPolicy s host p0 = (p, m)"
  shows "\<not> m \<and> Mode' p = ModeRaw \<and> ConnectTimeout p = 0 \<and> Port p = 0 \<and> DNSCacheTTL p = 0 \<and> Host p = [] \<and>
    ReplyFirst p = ReplyFirst (defaultPolicy (tables s)) \<and> TLS13Only p = TLS13Only (defaultPolicy (tables s)) \<and>
    Nat64Prefix p = Nat64Prefix (defaultPolicy (tables s))"
  using assms
  by (auto simp: fallbackPolicy_def mergePolicies_fields plainFallbackPolicy_def zeroPolicy_def unsetInt_def unsetString_def orDefault_def)

lemma finishPlan_plain:
  assumes "finishPlan L req rd h False False mi dst p s = Some (Inr plan, s')" "classifyDomainRoute s h = domainRoutePlain"
  shows "\<not> MatchedDomain plan \<and> TargetPort plan = rPort req \<and> Mode' (dpPolicy plan) = ModeRaw \<and> ConnectTimeout (dpPolicy plan) = 0 \<and>
    DNSCacheTTL (dpPolicy plan) = 0 \<and> ReplyFirst (dpPolicy plan) = ReplyFirst (defaultPolicy (tables s)) \<and>
    TLS13Only (dpPolicy plan) = TLS13Only (defaultPolicy (tables s)) \<and> Nat64Prefix (dpPolicy plan) = Nat64Prefix (defaultPolicy (tables s))"
proof -
  obtain q m where q: "fallbackPolicy s h p = (q, m)" by fastforce
  note f = fallback_plain [OF assms(2) q]
  show ?thesis using assms(1) f by (auto simp: finishPlan_def q bindE_Inr Let_def)
qed

lemma classify_conf: "conf s' = conf s \<Longrightarrow> classifyDomainRoute s' h = classifyDomainRoute s h \<and> tables s' = tables s"
  by (auto simp: conf_def classifyDomainRoute_def Let_def)


definition plainTables :: Tables where
  "plainTables = loadTables (zeroPolicy\<lparr>Mode' := ModeTTLD, ConnectTimeout := 5 * second, Port := 8443\<rparr>) [] [] []"


end
