(* ===== verification/DNS_Hijack.thy ===== *)
theory DNS_Hijack
  imports Routing
begin

text \<open>
  Answers to the DNS queries captured on the tunnel (\<^verbatim>\<open>core/dns_hijack.go\<close>): the answer for a name
  that a rule or the built-in list covers carries a synthetic address instead of the real ones,
  every other answer is passed through. The log lines and the texts made for them are not modelled.
\<close>

section \<open>Synthetic answers\<close>

definition TypeHTTPS :: nat where "TypeHTTPS = 65"
definition ClassINET :: nat where "ClassINET = 1"

definition buildFakeAnswerRR :: "RR_Header \<Rightarrow> string \<Rightarrow> RR res" where
  "buildFakeAnswerRR header fakeIP =
     (let ttl = (if Ttl header = 0 then defaultFakeTTL else Ttl header) in
      if Rrtype header = TypeA then
        (case Option.bind (ParseIP fakeIP) To4 of
           None \<Rightarrow> Inl (ErrNew ''invalid fake ipv4 address'')
         | Some ip \<Rightarrow> Inr (RR_A \<lparr>Name = Name header, Rrtype = TypeA, Class = Class header, Ttl = ttl\<rparr> (Some (IP4 ip))))
      else if Rrtype header = TypeAAAA then
        (case ParseIP fakeIP of
           None \<Rightarrow> Inl (ErrNew ''invalid fake ipv6 address'')
         | Some ip \<Rightarrow>
             if To4 ip \<noteq> None then Inl (ErrNew ''invalid fake ipv6 address'')
             else Inr (RR_AAAA \<lparr>Name = Name header, Rrtype = TypeAAAA, Class = Class header, Ttl = ttl\<rparr> (Some (IP16 ip))))
      else Inl (ErrNew ''unsupported fake answer type''))"

definition buildQuestionFakeAnswerRR :: "Question \<Rightarrow> string \<Rightarrow> nat \<Rightarrow> RR res" where
  "buildQuestionFakeAnswerRR question fakeIP ttl =
     buildFakeAnswerRR \<lparr>Name = QName question, Rrtype = Qtype question, Class = Qclass question, Ttl = ttl\<rparr> fakeIP"

text \<open>The least time to live that is not zero, over the three sections of a reply.\<close>

definition considerTTL :: "RR list \<Rightarrow> nat \<Rightarrow> nat" where
  "considerTTL rrs minTTL = foldl (\<lambda>m rr. let t = Ttl (Header rr) in
     if t = 0 then m else if m = 0 \<or> t < m then t else m) minTTL rrs"

definition fallbackFakeTTL :: "Msg \<Rightarrow> nat" where
  "fallbackFakeTTL resp =
     (let minTTL = considerTTL (Extra resp) (considerTTL (Ns resp) (considerTTL (Answer resp) 0)) in
      if minTTL = 0 then defaultFakeTTL else minTTL)"

definition allocFake :: "'w lib \<Rightarrow> string \<Rightarrow> nat \<Rightarrow> nat \<Rightarrow> ('w, string res) act" where
  "allocFake L domain qtype ttl = bindS (ext (Now L)) (\<lambda>now. bindS (ext (MapOrder L)) (\<lambda>order s.
     map_option (\<lambda>(r, f). (r, s\<lparr>fakes := f\<rparr>)) (allocateFakeIP (fakes s) now order domain qtype ttl)))"

text \<open>The loop over the answers: those collected, the names replaced, the address, if one is allocated already.\<close>

fun fakeAnswers :: "'w lib \<Rightarrow> string \<Rightarrow> nat \<Rightarrow> RR list \<Rightarrow> RR list \<Rightarrow> string list \<Rightarrow> string \<Rightarrow> bool \<Rightarrow> ('w, (RR list \<times> bool) res) act" where
  "fakeAnswers L domain qtype [] answer names fakeIP replaced = ret (Inr (answer, replaced))"
| "fakeAnswers L domain qtype (rr # rrs) answer names fakeIP replaced =
     (if Rrtype (Header rr) \<noteq> qtype then fakeAnswers L domain qtype rrs (answer @ [rr]) names fakeIP replaced
      else bindE (if fakeIP = [] then wrapE ''allocate fake ip'' (allocFake L domain qtype (Ttl (Header rr))) else ret (Inr fakeIP)) (\<lambda>ip.
        if Name (Header rr) \<in> set names then fakeAnswers L domain qtype rrs answer names ip True
        else bindE (ret (buildFakeAnswerRR (Header rr) ip)) (\<lambda>fakeRR.
          fakeAnswers L domain qtype rrs (answer @ [fakeRR]) (Name (Header rr) # names) ip True)))"

definition fallbackAnswer :: "'w lib \<Rightarrow> Msg \<Rightarrow> string \<Rightarrow> nat \<Rightarrow> Msg \<Rightarrow> ('w, Msg res) act" where
  "fallbackAnswer L req domain qtype resp = (case Questions req of
       [] \<Rightarrow> ret (Inr resp)
     | q # _ \<Rightarrow>
         let ttl = fallbackFakeTTL resp in
         bindE (wrapE ''allocate fallback fake ip'' (allocFake L domain qtype ttl)) (\<lambda>fakeIP.
         bindE (ret (buildQuestionFakeAnswerRR q fakeIP ttl)) (\<lambda>fakeRR. ret (Inr (resp\<lparr>Answer := [fakeRR]\<rparr>)))))"

definition buildFakeAddressResponse :: "'w lib \<Rightarrow> Msg \<Rightarrow> string \<Rightarrow> nat \<Rightarrow> ('w, Msg res) act" where
  "buildFakeAddressResponse L req domain qtype =
     bindE (wrapE ''upstream dns exchange'' (exchangeUpstream L req)) (\<lambda>resp.
       if Rcode resp \<noteq> 0 then ret (Inr resp)
       else bindS (gets (\<lambda>s. shouldUseFakeIP s domain)) (\<lambda>matchedRule.
         if \<not> matchedRule then ret (Inr resp)
         else bindE (fakeAnswers L domain qtype (Answer resp) [] [] [] False) (\<lambda>(answer, replaced).
           if replaced then ret (Inr (resp\<lparr>Answer := answer\<rparr>))
           else fallbackAnswer L req domain qtype resp)))"

definition handleDNSQuery :: "'w lib \<Rightarrow> Msg \<Rightarrow> ('w, Msg res) act" where
  "handleDNSQuery L req = (case Questions req of
       [question] \<Rightarrow>
         if Qclass question \<noteq> ClassINET then exchangeUpstream L req
         else
           let domain = ToLower (TrimSuffix (QName question) ''.'') in
           if Qtype question = TypeHTTPS then exchangeUpstream L req
           else if Qtype question = TypeA then buildFakeAddressResponse L req domain TypeA
           else if Qtype question = TypeAAAA then buildFakeAddressResponse L req domain TypeAAAA
           else exchangeUpstream L req
     | _ \<Rightarrow> exchangeUpstream L req)"

definition HandleDNSQueryPacket :: "'w lib \<Rightarrow> nat list \<Rightarrow> ('w, nat list res) act" where
  "HandleDNSQueryPacket L payload =
     bindE (wrapE ''unpack hijacked dns request'' (ret (Unpack (wire L) payload))) (\<lambda>req.
     bindE (handleDNSQuery L req) (\<lambda>resp.
       wrapE ''pack hijacked dns response'' (ret (Pack (wire L) resp))))"

section \<open>Answering returns\<close>

lemma safe_allocFake [safe_rules]: "safe L (allocFake L domain qtype ttl)"
proof -
  have "returns (allocFake L domain qtype ttl) s (\<lambda>_. good L s)" if w: "wfCore L s" for s
  proof -
    obtain t w1 ord w2 where t: "Now L (world s) = (t, w1)" "MapOrder L w1 = (ord, w2)" by (metis surj_pair)
    have r: "fakeReach (fakes s)" using w by (simp add: wfCore_def)
    obtain x f where a: "allocateFakeIP (fakes s) t ord domain qtype ttl = Some (x, f)"
      using allocateFakeIP_ok [OF fakeReach_ok [OF r]] by blast
    have "fakeReach f" by (rule fakeReach.alloc [OF r a])
    with t a w show ?thesis by (auto simp: allocFake_def returns_def bindS_def ext_def good_def conf_def wfCore_def)
  qed
  then show ?thesis by (simp add: safe_def)
qed

lemma safe_fakeAnswers [safe_rules]: "safe L (fakeAnswers L domain qtype rrs answer names fakeIP replaced)"
  by (induction rrs arbitrary: answer names fakeIP replaced) (auto intro!: safe_rules)

lemma safe_fallbackAnswer [safe_rules]: "safe L (fallbackAnswer L req domain qtype resp)"
  unfolding fallbackAnswer_def Let_def by (cases "Questions req") (auto intro!: safe_rules)

lemma safe_buildFakeAddressResponse [safe_rules]: "deadlinesHold L \<Longrightarrow> safe L (buildFakeAddressResponse L req domain qtype)"
  unfolding buildFakeAddressResponse_def by (intro safe_rules safe_exchangeUpstream)

lemma safe_handleDNSQuery [safe_rules]: "deadlinesHold L \<Longrightarrow> safe L (handleDNSQuery L req)"
  unfolding handleDNSQuery_def Let_def
  by (auto intro!: safe_rules safe_exchangeUpstream split: list.split)

lemma safe_HandleDNSQueryPacket: "deadlinesHold L \<Longrightarrow> safe L (HandleDNSQueryPacket L payload)"
  unfolding HandleDNSQueryPacket_def by (intro safe_rules)

section \<open>What an answer carries\<close>

text \<open>The record carries the address that the text denotes.\<close>

definition carries :: "string \<Rightarrow> RR \<Rightarrow> bool" where
  "carries ip rr \<longleftrightarrow> (case rr of
       RR_A _ (Some (IP4 a)) \<Rightarrow> Option.bind (ParseIP ip) To4 = Some a
     | RR_AAAA _ (Some (IP16 a)) \<Rightarrow> ParseIP ip = Some a
     | _ \<Rightarrow> False)"

text \<open>The address was given to the name by the last allocation, at the given time.\<close>

definition allocated :: "int \<Rightarrow> string \<Rightarrow> nat \<Rightarrow> string \<Rightarrow> fakeStores \<Rightarrow> bool" where
  "allocated now d q ip f \<longleftrightarrow> (\<exists>f0 order ttl. fakeReach f0 \<and> allocateFakeIP f0 now order d q ttl = Some (Inr ip, f))"

definition onlyFake :: "nat \<Rightarrow> string \<Rightarrow> RR list \<Rightarrow> bool" where
  "onlyFake q ip rrs \<longleftrightarrow> (\<exists>rr \<in> set rrs. Rrtype (Header rr) = q) \<and> (\<forall>rr \<in> set rrs. Rrtype (Header rr) = q \<longrightarrow> carries ip rr)"

lemma buildFakeAnswerRR_ok:
  assumes "buildFakeAnswerRR h ip = Inr rr"
  shows "carries ip rr \<and> Rrtype (Header rr) = Rrtype h \<and> ip \<noteq> []"
proof -
  have "ParseIP [] = None" by code_simp
  moreover have "carries ip rr \<and> Rrtype (Header rr) = Rrtype h \<and> ParseIP ip \<noteq> None"
    using assms
    by (cases "ParseIP ip") (auto simp: buildFakeAnswerRR_def carries_def Let_def TypeA_def TypeAAAA_def split: if_splits option.splits)
  ultimately show ?thesis by auto
qed

lemma allocFake_ok:
  assumes "allocFake L d q ttl s = Some (Inr ip, s')" "wfCore L s"
  shows "allocated (fst (Now L (world s))) d q ip (fakes s')"
proof -
  obtain t w1 ord w2 where t: "Now L (world s) = (t, w1)" "MapOrder L w1 = (ord, w2)" by (metis surj_pair)
  obtain f where f: "allocateFakeIP (fakes s) t ord d q ttl = Some (Inr ip, f)" "fakes s' = f"
    using assms(1) t by (auto simp: allocFake_def bindS_def ext_def)
  have "fakeReach (fakes s)" using assms(2) by (simp add: wfCore_def)
  with f t show ?thesis unfolding allocated_def by auto
qed

definition loopInv :: "'w lib \<Rightarrow> int \<Rightarrow> string \<Rightarrow> nat \<Rightarrow> RR list \<Rightarrow> string list \<Rightarrow> string \<Rightarrow> bool \<Rightarrow> 'w core \<Rightarrow> bool" where
  "loopInv L now d q answer names ip replaced s \<longleftrightarrow>
     (if ip = [] then \<not> replaced \<and> names = [] \<and> fst (Now L (world s)) = now else replaced \<and> allocated now d q ip (fakes s) \<and> onlyFake q ip answer) \<and>
     (ip = [] \<longrightarrow> (\<forall>rr \<in> set answer. Rrtype (Header rr) \<noteq> q))"

lemma fakeAnswers_ok:
  assumes "fakeAnswers L d q rrs answer names ip replaced s = Some (Inr (answer', replaced'), s')" "wfCore L s"
    "loopInv L now d q answer names ip replaced s"
  shows "\<exists>names' ip'. loopInv L now d q answer' names' ip' replaced' s'"
  using assms
proof (induction rrs arbitrary: answer names ip replaced s)
  case Nil
  then show ?case by auto
next
  case (Cons rr rrs)
  show ?case
  proof (cases "Rrtype (Header rr) = q")
    case False
    then have "loopInv L now d q (answer @ [rr]) names ip replaced s" using Cons.prems(3) by (auto simp: loopInv_def onlyFake_def)
    then show ?thesis using Cons.IH [of "answer @ [rr]"] Cons.prems(1,2) False by simp
  next
    case True
    let ?get = "if ip = [] then wrapE ''allocate fake ip'' (allocFake L d q (Ttl (Header rr))) else ret (Inr ip)"
    obtain ip1 s1 where g: "?get s = Some (Inr ip1, s1)" and rest: "(if Name (Header rr) \<in> set names then fakeAnswers L d q rrs answer names ip1 True
        else bindE (ret (buildFakeAnswerRR (Header rr) ip1)) (\<lambda>fakeRR.
          fakeAnswers L d q rrs (answer @ [fakeRR]) (Name (Header rr) # names) ip1 True)) s1 = Some (Inr (answer', replaced'), s')"
      using Cons.prems(1) True by (auto simp: bindE_Inr)
    have "safe L ?get" by (intro safe_rules)
    then have w1: "wfCore L s1" using safe_run [where m = ?get, OF _ Cons.prems(2) g] by blast
    have a1: "allocated now d q ip1 (fakes s1)"
      using g Cons.prems(2,3) allocFake_ok by (fastforce simp: wrapE_def bindS_sum loopInv_def split: if_splits)
    have keep: "ip \<noteq> [] \<Longrightarrow> ip1 = ip \<and> replaced" using g Cons.prems(3) by (auto simp: loopInv_def)
    show ?thesis
    proof (cases "Name (Header rr) \<in> set names")
      case True
      then have "ip \<noteq> []" using Cons.prems(3) by (auto simp: loopInv_def)
      then have "loopInv L now d q answer names ip1 True s1" using keep a1 Cons.prems(3) by (simp add: loopInv_def)
      then show ?thesis using Cons.IH [OF _ w1] rest True by simp
    next
      case False
      then obtain f where f: "buildFakeAnswerRR (Header rr) ip1 = Inr f"
          "fakeAnswers L d q rrs (answer @ [f]) (Name (Header rr) # names) ip1 True s1 = Some (Inr (answer', replaced'), s')"
        using rest by (auto simp: bindE_Inr)
      note b = buildFakeAnswerRR_ok [OF f(1)]
      have "onlyFake q ip1 (answer @ [f])"
        using b keep Cons.prems(3) \<open>Rrtype (Header rr) = q\<close> by (cases "ip = []") (auto simp: loopInv_def onlyFake_def)
      then have "loopInv L now d q (answer @ [f]) (Name (Header rr) # names) ip1 True s1" using b a1 by (simp add: loopInv_def)
      then show ?thesis by (rule Cons.IH [OF f(2) w1])
    qed
  qed
qed

lemma fallbackAnswer_ok:
  assumes "fallbackAnswer L req d q resp s = Some (Inr reply, s')" "wfCore L s" "Questions req = [question]" "Qtype question = q"
  shows "\<exists>ip. allocated (fst (Now L (world s))) d q ip (fakes s') \<and> onlyFake q ip (Answer reply) \<and> Rcode reply = Rcode resp"
proof -
  obtain ip s1 rr where a: "wrapE ''allocate fallback fake ip'' (allocFake L d q (fallbackFakeTTL resp)) s = Some (Inr ip, s1)"
      "buildQuestionFakeAnswerRR question ip (fallbackFakeTTL resp) = Inr rr" "reply = resp\<lparr>Answer := [rr]\<rparr>" "s' = s1"
    using assms(1,3) by (auto simp: fallbackAnswer_def bindE_Inr Let_def)
  have "allocFake L d q (fallbackFakeTTL resp) s = Some (Inr ip, s1)"
    using a(1) by (auto simp: wrapE_def bindS_sum)
  from allocFake_ok [OF this assms(2)] buildFakeAnswerRR_ok [OF a(2) [unfolded buildQuestionFakeAnswerRR_def]] show ?thesis
    using a(3,4) assms(4) by (auto simp: onlyFake_def)
qed

lemma build_ok:
  assumes "buildFakeAddressResponse L req domain q s = Some (Inr reply, s')" "wfCore L s" "deadlinesHold L"
    "Questions req = [question]" "Qtype question = q"
  shows "\<exists>resp s1. exchangeUpstream L req s = Some (Inr resp, s1) \<and>
    (if Rcode resp = 0 \<and> shouldUseFakeIP s domain
     then reply = resp\<lparr>Answer := Answer reply\<rparr> \<and>
       (\<exists>ip. allocated (fst (Now L (world s1))) domain q ip (fakes s') \<and> onlyFake q ip (Answer reply))
     else reply = resp \<and> s' = s1)"
proof -
  obtain resp s1 where up: "exchangeUpstream L req s = Some (Inr resp, s1)"
    and rest: "(if Rcode resp \<noteq> 0 then ret (Inr resp)
       else bindS (gets (\<lambda>s. shouldUseFakeIP s domain)) (\<lambda>matchedRule.
         if \<not> matchedRule then ret (Inr resp)
         else bindE (fakeAnswers L domain q (Answer resp) [] [] [] False) (\<lambda>(answer, replaced).
           if replaced then ret (Inr (resp\<lparr>Answer := answer\<rparr>))
           else fallbackAnswer L req domain q resp))) s1 = Some (Inr reply, s')"
    using assms(1) by (auto simp: buildFakeAddressResponse_def bindE_Inr wrapE_def bindS_sum)
  have s1: "wfCore L s1" "conf s1 = conf s" using safe_run [OF safe_exchangeUpstream [OF assms(3)] assms(2) up] by auto
  have use: "shouldUseFakeIP s1 domain = shouldUseFakeIP s domain" using classify_conf [OF s1(2)] by (simp add: shouldUseFakeIP_def)
  show ?thesis
  proof (cases "Rcode resp = 0 \<and> shouldUseFakeIP s domain")
    case True
    obtain answer replaced s2 where f: "fakeAnswers L domain q (Answer resp) [] [] [] False s1 = Some (Inr (answer, replaced), s2)"
      and r: "(if replaced then ret (Inr (resp\<lparr>Answer := answer\<rparr>)) else fallbackAnswer L req domain q resp) s2 = Some (Inr reply, s')"
      using rest True use by (auto simp: bindE_Inr)
    have "loopInv L (fst (Now L (world s1))) domain q [] [] [] False s1" by (simp add: loopInv_def)
    from fakeAnswers_ok [OF f s1(1) this] obtain names ip where inv: "loopInv L (fst (Now L (world s1))) domain q answer names ip replaced s2" by blast
    have w2: "wfCore L s2" using safe_run [OF safe_fakeAnswers s1(1) f] by blast
    have "reply = resp\<lparr>Answer := Answer reply\<rparr> \<and> (\<exists>ip. allocated (fst (Now L (world s1))) domain q ip (fakes s') \<and> onlyFake q ip (Answer reply))"
    proof (cases replaced)
      case True
      then show ?thesis using inv r by (auto simp: loopInv_def split: if_splits)
    next
      case False
      then have "fst (Now L (world s2)) = fst (Now L (world s1))" "fallbackAnswer L req domain q resp s2 = Some (Inr reply, s')"
        using inv r by (auto simp: loopInv_def split: if_splits)
      moreover have "reply = resp\<lparr>Answer := Answer reply\<rparr>"
        using calculation(2) assms(4) by (auto simp: fallbackAnswer_def bindE_Inr Let_def)
      ultimately show ?thesis using fallbackAnswer_ok [OF _ w2 assms(4,5)] by metis
    qed
    with up True show ?thesis by auto
  next
    case False
    with rest use have "reply = resp \<and> s' = s1" by (auto split: if_splits)
    with up False show ?thesis by auto
  qed
qed

section \<open>Properties\<close>

text \<open>C34. No real address of a covered name leaves the resolver. An address query for one name that
  is answered was answered by the upstream server. If the answer is a success and a rule or the
  list covers the name, all records of the queried type in the reply (at least one) carry one
  synthetic address, the rest of the reply is as received, and for at least a minute from the
  clock reading after the upstream answer the address leads back to the name; otherwise the
  reply is passed through unchanged.\<close>

theorem hijack_answers:
  assumes "wfCore L s" "deadlinesHold L" "Questions req = [question]" "Qclass question = ClassINET" "Qtype question \<in> {TypeA, TypeAAAA}"
    "domain = ToLower (TrimSuffix (QName question) ''.'')" "handleDNSQuery L req s = Some (Inr reply, s')"
  shows "\<exists>resp s1. exchangeUpstream L req s = Some (Inr resp, s1) \<and>
    (if Rcode resp = 0 \<and> shouldUseFakeIP s domain
     then reply = resp\<lparr>Answer := Answer reply\<rparr> \<and> (\<exists>ip. onlyFake (Qtype question) ip (Answer reply) \<and>
       (\<forall>t. t < fst (Now L (world s1)) + 60 * second \<longrightarrow> fst (lookupFakeDomainByIP (fakes s') t ip) = Some domain))
     else reply = resp \<and> s' = s1)"
proof -
  have "buildFakeAddressResponse L req domain (Qtype question) s = Some (Inr reply, s')"
    using assms(3-7) by (auto simp: handleDNSQuery_def TypeA_def TypeAAAA_def TypeHTTPS_def split: if_splits)
  note b = build_ok [OF this assms(1-3) refl]
  have hit: "fst (lookupFakeDomainByIP f t ip) = Some domain"
    if "allocated now domain q ip f" "t < now + 60 * second" for now q ip f t
  proof -
    obtain f0 order ttl where a: "fakeReach f0" "allocateFakeIP f0 now order domain q ttl = Some (Inr ip, f)"
      using \<open>allocated now domain q ip f\<close> unfolding allocated_def by blast
    have "t < now + fakeIPLifetime ttl" using that(2) lifetime_pos(2) [of ttl] by simp
    from fake_hit(1) [OF a this] show ?thesis using assms(6) by simp
  qed
  from b obtain resp s1 where r: "exchangeUpstream L req s = Some (Inr resp, s1)"
    "if Rcode resp = 0 \<and> shouldUseFakeIP s domain
     then reply = resp\<lparr>Answer := Answer reply\<rparr> \<and>
       (\<exists>ip. allocated (fst (Now L (world s1))) domain (Qtype question) ip (fakes s') \<and> onlyFake (Qtype question) ip (Answer reply))
     else reply = resp \<and> s' = s1" by blast
  show ?thesis
  proof (cases "Rcode resp = 0 \<and> shouldUseFakeIP s domain")
    case True
    then obtain ip where "reply = resp\<lparr>Answer := Answer reply\<rparr>" "allocated (fst (Now L (world s1))) domain (Qtype question) ip (fakes s')"
        "onlyFake (Qtype question) ip (Answer reply)"
      using r(2) unfolding if_P [OF True] by blast
    then show ?thesis using r(1) hit unfolding if_P [OF True]
      by (intro exI [of _ resp] exI [of _ s1]) (simp only: if_P [OF True], blast)
  qed (use r in auto)
qed

lemma To4_mapped: "To4 (mapped a) = Some a"
proof -
  have low: "ucast (push_bit 32 c OR ucast a) = a" for c :: "128 word"
    by (rule bit_word_eqI) (auto simp: bit_simps)
  have "mapped a = push_bit 32 0xFFFF OR ucast a" by (simp add: mapped_def push_bit_eq_mult)
  then have "ucast (mapped a) = a" using low by metis
  moreover have "drop_bit 32 (mapped a) = 0xFFFF"
    unfolding mapped_def by (rule bit_word_eqI) (auto simp: bit_simps dest: bit_imp_le_length)
  ultimately show ?thesis by (simp add: To4_def isMapped_def)
qed

lemma To4_string4: "Option.bind (ParseIP (string4 a)) To4 = Some a"
  by (simp add: ParseIP_def ParseAddr_string4 To4_mapped)

text \<open>A query for a covered name, and a state with one upstream server.\<close>

definition exampleQuery :: Msg where
  "exampleQuery = newMsg\<lparr>Questions := [\<lparr>QName = ''Example.org.'', Qtype = TypeA, Qclass = ClassINET\<rparr>]\<rparr>"

definition hijackCore :: "fakeStores \<Rightarrow> stringCache \<Rightarrow> int core" where
  "hijackCore f c =
     (let x = ExClient (PlainClient (plainClient [])) ''192.0.2.2:53'' in
      (exampleCore f c)\<lparr>tables := exampleTables, dnsExchanges := [x], dnsExchange := Some x\<rparr>)"

definition exampleReply :: Msg where
  "exampleReply = exampleQuery\<lparr>Answer := [RR_A (newHeader ''example.org.'' 1) (Some (IP4 0xC0000207))]\<rparr>"

lemma hijack_upstream: "exchangeUpstream exampleLib exampleQuery (hijackCore f c) = Some (Inr exampleReply, hijackCore f c)"
  by (simp add: exchangeUpstream_def hijackCore_def exampleCore_def clientExchange_def ext_def exampleLib_def exampleReply_def bindS_def Let_def)

lemma hijack_wf: "fakeReach f \<Longrightarrow> sInv (\<lambda>_. 9) c \<Longrightarrow> wfCore exampleLib (hijackCore f c)"
  using example_wf [of f c] by (simp add: wfCore_def hijackCore_def Let_def)

lemma hijack_covers: "shouldUseFakeIP (hijackCore f c) ''example.org''"
proof -
  have "ToLower ''example.org'' = ''example.org''" by code_simp
  then show ?thesis
    by (simp add: shouldUseFakeIP_def classifyDomainRoute_def hijackCore_def Let_def example_find)
qed

definition fakeHeader :: RR_Header where
  "fakeHeader = \<lparr>Name = ''example.org.'', Rrtype = TypeA, Class = 0, Ttl = defaultFakeTTL\<rparr>"

lemma hijack_alloc: "\<exists>f f1 x. fakeReach f \<and> allocateFakeIP f 1000 [] ''example.org'' TypeA 0 = Some (Inr (string4 x), f1)"
proof -
  obtain f where f: "defaultFakeStores = Some f" "fakeReach f" using default_reach by blast
  have low: "ToLower ''example.org'' \<noteq> []" by code_simp
  have "\<not> Fake_IP.live 1000 (storeFor TypeA f) x" for x
    using f(1) by (auto simp: defaultFakeStores_def mustNewFakeIPStore_def fake_prefixes Fake_IP.live_def storeFor_def)
  then have "\<exists>m. 1 \<le> m \<and> m < poolSize TypeA \<and> \<not> Fake_IP.live 1000 (storeFor TypeA f) (poolAddr TypeA m)"
    by (intro exI [of _ 1]) (simp add: poolSize_def)
  then obtain ip f1 where a: "allocateFakeIP f 1000 [] ''example.org'' TypeA 0 = Some (Inr ip, f1)"
    using allocateFakeIP_ok [OF fakeReach_ok [OF f(2)], of 1000 "[]" "''example.org''" TypeA 0] low
    by (metis Inl_Inr_False insertCI isl_def obj_sumE)
  then show ?thesis using f(2) fake_string4 [OF f(2) a] by blast
qed

lemma hijack_run:
  assumes "allocateFakeIP f 1000 [] ''example.org'' TypeA 0 = Some (Inr (string4 x), f1)"
  shows "handleDNSQuery exampleLib exampleQuery (hijackCore f c) =
    Some (Inr (exampleReply\<lparr>Answer := [RR_A fakeHeader (Some (IP4 x))]\<rparr>), (hijackCore f c)\<lparr>world := 1001, fakes := f1\<rparr>)"
proof -
  let ?s = "hijackCore f c" and ?d = "''example.org''"
  have name: "ToLower (TrimSuffix ''Example.org.'' ''.'') = ?d" by code_simp
  have "handleDNSQuery exampleLib exampleQuery = buildFakeAddressResponse exampleLib exampleQuery ?d TypeA"
    unfolding handleDNSQuery_def by (simp add: exampleQuery_def name TypeA_def TypeHTTPS_def Let_def)
  moreover have al: "allocFake exampleLib ?d TypeA 0 ?s = Some (Inr (string4 x), ?s\<lparr>world := 1001, fakes := f1\<rparr>)"
    using assms by (simp add: allocFake_def bindS_def ext_def exampleLib_def hijackCore_def exampleCore_def Let_def)
  have "buildFakeAnswerRR (newHeader ''example.org.'' 1) (string4 x) = Inr (RR_A fakeHeader (Some (IP4 x)))"
    using To4_string4 [of x] by (simp add: buildFakeAnswerRR_def newHeader_def fakeHeader_def TypeA_def)
  then have "fakeAnswers exampleLib ?d TypeA (Answer exampleReply) [] [] [] False ?s =
      Some (Inr ([RR_A fakeHeader (Some (IP4 x))], True), ?s\<lparr>world := 1001, fakes := f1\<rparr>)"
    using al by (simp add: exampleReply_def newHeader_def TypeA_def bindE_def wrapE_def bindS_def)
  moreover have "Rcode exampleReply = 0" by (simp add: exampleReply_def exampleQuery_def newMsg_def)
  ultimately show ?thesis
    using hijack_covers [of f c] hijack_upstream [of f c]
    by (simp add: buildFakeAddressResponse_def bindE_def wrapE_def bindS_def)
qed

theorem hijack_answers_witness:
  "\<exists>s reply s' ip. handleDNSQuery exampleLib exampleQuery s = Some (Inr reply, s') \<and> onlyFake TypeA ip (Answer reply) \<and>
     fst (lookupFakeDomainByIP (fakes s') 2000 ip) = Some ''example.org''"
proof -
  obtain f f1 x where f: "fakeReach f" "allocateFakeIP f 1000 [] ''example.org'' TypeA 0 = Some (Inr (string4 x), f1)"
    using hijack_alloc by blast
  obtain c :: stringCache where c: "sInv (\<lambda>_. 9) c" using example_cache by blast
  let ?s = "hijackCore f c" and ?q = "\<lparr>QName = ''Example.org.'', Qtype = TypeA, Qclass = ClassINET\<rparr>"
  note run = hijack_run [OF f(2), of c]
  have q: "Questions exampleQuery = [?q]" "''example.org'' = ToLower (TrimSuffix (QName ?q) ''.'')"
    by (simp add: exampleQuery_def, code_simp)
  have "Rcode exampleReply = 0" by (simp add: exampleReply_def exampleQuery_def newMsg_def)
  moreover have "fst (Now exampleLib (world ?s)) = 1000" by (simp add: exampleLib_def hijackCore_def exampleCore_def Let_def)
  ultimately obtain ip where "onlyFake TypeA ip [RR_A fakeHeader (Some (IP4 x))]" "fst (lookupFakeDomainByIP f1 2000 ip) = Some ''example.org''"
    using hijack_answers [OF hijack_wf [OF f(1) c] example_deadlines q(1) _ _ q(2) run] hijack_upstream [of f c] hijack_covers [of f c]
    by (auto simp: second_def)
  with run show ?thesis
    by - (rule exI [of _ ?s], rule exI, rule exI, rule exI [of _ ip], rule conjI, assumption, simp)
qed

end
