(* ===== verification/Desync.thy ===== *)
theory Desync
  imports DNS
begin

text \<open>
  Decoy packets with a limited time to live (\<^verbatim>\<open>core/desync.go\<close>): configuration, measurement of the distance of
  a server by a binary search over dials, its cache, and the choice of the time to live. The
  sending of decoy and real data through a shared memory page (\<^verbatim>\<open>sendWithNoise\<close>) depends on how the kernel
  transmits pages that change meanwhile and is a function of the library record.
\<close>

section \<open>Configuration and cache\<close>

definition newTTLCache :: "'w lib \<Rightarrow> TTLProbingConfig \<Rightarrow> (string, int) ShardedLRU option res" where
  "newTTLCache L c =
     (if ttlDisableCache c then Inr None
      else case NewSharded (gomaxprocs L) (if ttlCacheCapacity c = 0 then 1024 else ttlCacheCapacity c) [] 0 of
        Inl e \<Rightarrow> Inl (OpError ''init TTL cache'' e)
      | Inr lru \<Rightarrow> Inr (Some lru))"

definition setTTLProbing :: "'w lib \<Rightarrow> TTLProbingConfig \<Rightarrow> ('w, unit res) act" where
  "setTTLProbing L c =
     bindE (ret (buildCalcTTL (SortRules L) (FakeTTLRules c))) (\<lambda>calc.
     bindE (ret (newTTLCache L c)) (\<lambda>lru.
     bindS (modify (\<lambda>s. s\<lparr>lastTTLProbingConfig := c, calcTTL := Some calc, ttlProbingGroup := ttlSingleFlight c, ttlCache := lru\<rparr>)) (\<lambda>_.
       ret (Inr ()))))"

definition ttlCacheGet :: "'w lib \<Rightarrow> string \<Rightarrow> ('w, int option) act" where
  "ttlCacheGet L k s = (case ttlCache s of
       None \<Rightarrow> Some (None, s)
     | Some c \<Rightarrow> bindS (ext (Now L)) (\<lambda>t s'. case sGet (hashString L) (millis t) c k of
         None \<Rightarrow> None
       | Some (c', r) \<Rightarrow> Some (r, s'\<lparr>ttlCache := Some c'\<rparr>)) s)"

definition ttlCacheAdd :: "'w lib \<Rightarrow> string \<Rightarrow> int \<Rightarrow> duration \<Rightarrow> ('w, unit) act" where
  "ttlCacheAdd L k v lifetime s = (case ttlCache s of
       None \<Rightarrow> Some ((), s)
     | Some c \<Rightarrow> bindS (ext (Now L)) (\<lambda>t s'. case sAddWithLifetime (hashString L) (millis t) c k v lifetime of
         None \<Rightarrow> None
       | Some (c', _) \<Rightarrow> Some ((), s'\<lparr>ttlCache := Some c'\<rparr>)) s)"

section \<open>The search\<close>

text \<open>The tries at one time to live: whether one succeeded, or the first error that is not a timedOut.\<close>

fun attemptLoop :: "'w lib \<Rightarrow> bool \<Rightarrow> duration \<Rightarrow> string \<Rightarrow> int \<Rightarrow> nat \<Rightarrow> ('w, bool res) act" where
  "attemptLoop L ipv6 dialTimeout addr mid 0 = ret (Inr False)"
| "attemptLoop L ipv6 dialTimeout addr mid (Suc tries) =
     bindS (ext (DialTTL L ipv6 dialTimeout mid addr)) (\<lambda>r. case r of
         None \<Rightarrow> ret (Inr True)
       | Some (timedOut, e) \<Rightarrow>
           if \<not> timedOut then ret (Inl (OpError (''dial with ttl '' @ Itoa mid) e))
           else attemptLoop L ipv6 dialTimeout addr mid tries)"

lemma quot_mid: "low \<le> high \<Longrightarrow> low \<le> quot (low + high) 2 \<and> quot (low + high) 2 \<le> high"
  by (cases "0 \<le> low + high"; cases "low + high = 0") (auto simp: quot_def sgn_if)

function probeLoop :: "'w lib \<Rightarrow> bool \<Rightarrow> duration \<Rightarrow> string \<Rightarrow> int \<Rightarrow> int \<Rightarrow> int \<Rightarrow> int \<Rightarrow> ('w, int res) act" where
  "probeLoop L ipv6 dialTimeout addr tries low high found s =
     (if low \<le> high then
        let mid = quot (low + high) 2 in
        case attemptLoop L ipv6 dialTimeout addr mid (nat tries) s of
          None \<Rightarrow> None
        | Some (Inl e, s') \<Rightarrow> Some (Inl e, s')
        | Some (Inr True, s') \<Rightarrow> probeLoop L ipv6 dialTimeout addr tries low (mid - 1) mid s'
        | Some (Inr False, s') \<Rightarrow> probeLoop L ipv6 dialTimeout addr tries (mid + 1) high found s'
      else Some (Inr found, s))"
  by pat_completeness auto

termination
  by (relation "measure (\<lambda>(_, _, _, _, _, low, high, _, _). nat (high - low + 1))") (auto dest!: quot_mid)

declare probeLoop.simps [simp del]

definition probeMinimumReachableTTL :: "'w lib \<Rightarrow> string \<Rightarrow> string \<Rightarrow> bool \<Rightarrow> int \<Rightarrow> int \<Rightarrow> duration \<Rightarrow> duration \<Rightarrow> ('w, int res) act" where
  "probeMinimumReachableTTL L ip addr ipv6 maxTTL tries dialTimeout cacheTTL =
     bindE (probeLoop L ipv6 dialTimeout addr tries 1 maxTTL (-1)) (\<lambda>found.
     bindS (if found \<noteq> -1 \<and> cacheTTL \<noteq> 0 \<and> cacheTTL \<noteq> unsetInt then ttlCacheAdd L ip found cacheTTL else ret ()) (\<lambda>_.
       ret (Inr found)))"

text \<open>The result tells whether it came from the cache. With a single caller \<^verbatim>\<open>group.Do\<close> calls the
  function it is given.\<close>

definition getMinimumReachableTTL :: "'w lib \<Rightarrow> string \<Rightarrow> bool \<Rightarrow> int \<Rightarrow> int \<Rightarrow> duration \<Rightarrow> duration \<Rightarrow> ('w, (int \<times> bool) res) act" where
  "getMinimumReachableTTL L addr ipv6 maxTTL tries dialTimeout cacheTTL = (case SplitHostPort addr of
       Inl e \<Rightarrow> ret (Inl e)
     | Inr (ip, _) \<Rightarrow> bindS (ttlCacheGet L ip) (\<lambda>hit. case hit of
         Some ttl \<Rightarrow> ret (Inr (ttl, True))
       | None \<Rightarrow> bindE (probeMinimumReachableTTL L ip addr ipv6 maxTTL tries dialTimeout cacheTTL) (\<lambda>ttl.
           ret (Inr (ttl, False)))))"

definition getFakeTTL :: "'w lib \<Rightarrow> Policy \<Rightarrow> string \<Rightarrow> bool \<Rightarrow> ('w, int res) act" where
  "getFakeTTL L p addr ipv6 =
     (if FakeTTL p \<noteq> 0 \<and> FakeTTL p \<noteq> unsetInt then ret (Inr (FakeTTL p))
      else bindE (wrapE ''get minimum reachable ttl''
             (getMinimumReachableTTL L addr ipv6 (MaxTTL p) (Attempts p) (SingleTimeout p) (TTLCacheTTL p))) (\<lambda>(ttl, _).
        if ttl = unsetInt then ret (Inl (ErrNew ''reachable ttl not found''))
        else bindS (gets calcTTL) (\<lambda>calc. case calc of
            None \<Rightarrow> ret (Inl (ErrNew ''ttl probing not configured''))
          | Some f \<Rightarrow> wrapE ''calculate fake ttl'' (ret (runCalc f ttl)))))"

section \<open>Sending\<close>

definition onHistory :: "(hist \<Rightarrow> (hist \<times> 'a) option) \<Rightarrow> ('w, 'a) act" where
  "onHistory m s = map_option (\<lambda>(h, r). (r, s\<lparr>history := h\<rparr>)) (m (history s))"

definition minInterval :: duration where "minInterval = 100 * millisecond"

definition desyncData :: "bytes \<Rightarrow> int \<Rightarrow> int \<Rightarrow> (bytes \<times> bytes \<times> bytes) option" where
  "desyncData hello sniStart sniLen =
     (let cut = findLastDotOrMidPos hello sniStart sniLen in
      if sniStart < 0 then None
      else do {
        pre \<leftarrow> slice hello 0 (nat sniStart);
        sent \<leftarrow> slice hello 0 cut;
        rest \<leftarrow> slice hello cut (length hello);
        Some (take cut (pre @ replicate cut 0), sent, rest) })"

definition desyncSend :: "'w lib \<Rightarrow> nat \<Rightarrow> bool \<Rightarrow> bytes \<Rightarrow> int \<Rightarrow> int \<Rightarrow> int \<Rightarrow> duration \<Rightarrow> ('w, err option) act" where
  "desyncSend L c ipv6 hello sniStart sniLen fakeTTL fakeSleep = onHistory (\<lambda>h.
     case getRawConn (kern L) h c of
       Some e \<Rightarrow> Some (h, Some e)
     | None \<Rightarrow> (case k_rawControl (kern L) h c of
         Some e \<Rightarrow> Some (h, Some (OpError ''raw control'' e))
       | None \<Rightarrow> (case GetTTL L h c ipv6 of
           Inl _ \<Rightarrow> Some (h, WithStr ''get default ttl'' None)
         | Inr defaultTTL \<Rightarrow> do {
             (fakeData, sent, rest) \<leftarrow> desyncData hello sniStart sniLen;
             (h1, e1) \<leftarrow> SendWithNoise L h c ipv6 fakeData sent fakeTTL defaultTTL (max minInterval fakeSleep);
             case e1 of
               Some e \<Rightarrow> Some (h1, Some (OpError ''send data with noise'' e))
             | None \<Rightarrow> (case connWrite (kern L) h1 c rest of
                 (h2, e2) \<Rightarrow> Some (h2, WithStr ''send remaining data'' e2)) })))"

section \<open>The calls return\<close>

lemma safe_ttlCacheGet [safe_rules]: "safe L (ttlCacheGet L k)"
proof -
  have "returns (ttlCacheGet L k) s (\<lambda>_. good L s)" if w: "wfCore L s" for s
  proof (cases "ttlCache s")
    case (Some c)
    obtain t w' where t: "Now L (world s) = (t, w')" by force
    have "sInv (hashString L) c" using w Some by (simp add: wfCore_def)
    from sharded.get_law [OF this, of "millis t" k] obtain c' r where
      "sGet (hashString L) (millis t) c k = Some (c', r)" "sInv (hashString L) c'" by blast
    with w Some t show ?thesis
      by (auto simp: returns_def ttlCacheGet_def bindS_def ext_def good_def conf_def wfCore_def)
  qed (use w in \<open>simp add: returns_def ttlCacheGet_def good_refl\<close>)
  then show ?thesis by (simp add: safe_def)
qed

lemma safe_ttlCacheAdd [safe_rules]: "safe L (ttlCacheAdd L k v d)"
proof -
  have "returns (ttlCacheAdd L k v d) s (\<lambda>_. good L s)" if w: "wfCore L s" for s
  proof (cases "ttlCache s")
    case (Some c)
    obtain t w' where t: "Now L (world s) = (t, w')" by force
    have "sInv (hashString L) c" using w Some by (simp add: wfCore_def)
    from sharded.add_law [OF this, of "millis t" k v d] obtain c' b where
      "sAddWithLifetime (hashString L) (millis t) c k v d = Some (c', b)" "sInv (hashString L) c'" by blast
    with w Some t show ?thesis
      by (auto simp: returns_def ttlCacheAdd_def bindS_def ext_def good_def conf_def wfCore_def)
  qed (use w in \<open>simp add: returns_def ttlCacheAdd_def good_refl\<close>)
  then show ?thesis by (simp add: safe_def)
qed

lemma safe_attemptLoop [safe_rules]: "safe L (attemptLoop L v6 t addr mid n)"
proof (induction n)
  case 0
  show ?case unfolding attemptLoop.simps by (intro safe_rules)
next
  case (Suc n)
  show ?case unfolding attemptLoop.simps by (intro safe_rules Suc)
qed

lemma safe_probeLoop [safe_rules]: "safe L (probeLoop L v6 t addr tries low high found)"
proof -
  have "wfCore L s \<Longrightarrow> returns (probeLoop L v6 t addr tries low high found) s (\<lambda>_. good L s)" for s
  proof (induction L v6 t addr tries low high found s rule: probeLoop.induct)
    case (1 L v6 t addr tries low high found s)
    let ?mid = "quot (low + high) 2"
    show ?case
    proof (cases "low \<le> high")
      case True
      obtain r s1 where r: "attemptLoop L v6 t addr ?mid (nat tries) s = Some (r, s1)" "good L s s1"
        using safeD [OF safe_attemptLoop 1(3), of v6 t addr ?mid "nat tries"] unfolding returns_def by blast
      have w1: "wfCore L s1" using r(2) by (simp add: good_def)
      consider e where "r = Inl e" | "r = Inr True" | "r = Inr False" by (cases r) auto
      then show ?thesis
      proof cases
        case 2
        then have "returns (probeLoop L v6 t addr tries low (?mid - 1) ?mid) s1 (\<lambda>_. good L s1)" using 1(1) [OF True refl r(1) refl _ _ w1, of True] by simp
        then show ?thesis using r True 2 good_trans [OF r(2)] unfolding returns_def
          by (subst probeLoop.simps) (fastforce simp: Let_def)
      next
        case 3
        then have "returns (probeLoop L v6 t addr tries (?mid + 1) high found) s1 (\<lambda>_. good L s1)" using 1(2) [OF True refl r(1) refl _ _ w1, of False] by simp
        then show ?thesis using r True 3 good_trans [OF r(2)] unfolding returns_def
          by (subst probeLoop.simps) (fastforce simp: Let_def)
      qed (use r True in \<open>auto simp: returns_def probeLoop.simps Let_def\<close>)
    qed (use 1(3) in \<open>simp add: returns_def probeLoop.simps good_refl\<close>)
  qed
  then show ?thesis by (simp add: safe_def)
qed

lemma safe_probe [safe_rules]: "safe L (probeMinimumReachableTTL L ip addr v6 maxTTL tries t cacheTTL)"
  unfolding probeMinimumReachableTTL_def by (intro safe_rules)

lemma safe_getMinimumReachableTTL [safe_rules]: "safe L (getMinimumReachableTTL L addr v6 maxTTL tries t cacheTTL)"
  unfolding getMinimumReachableTTL_def by (intro safe_rules)

lemma safe_getFakeTTL [safe_rules]: "safe L (getFakeTTL L p addr v6)"
  unfolding getFakeTTL_def by (intro safe_rules)

lemma setTTLProbing_wf:
  assumes "wfCore L s" "ttlCacheCapacity c \<le> 1717986918"
  shows "returns (setTTLProbing L c) s (\<lambda>_. wfCore L)"
proof -
  have "sInv (hashString L) x" if x: "newTTLCache L c = Inr (Some x)" for x
  proof -
    let ?n = "if ttlCacheCapacity c = 0 then 1024 else ttlCacheCapacity c"
    have new: "NewSharded (gomaxprocs L) ?n [] 0 = Inr x" using x by (auto simp: newTTLCache_def split: if_splits sum.splits)
    have "?n \<le> 1717986918" using assms(2) by simp
    from NewSharded_inv [OF new this] show ?thesis by simp
  qed
  then show ?thesis using assms(1)
    by (auto simp: returns_def setTTLProbing_def bindE_def bindS_def wfCore_def split: sum.split)
qed

section \<open>The search finds the distance\<close>

text \<open>How a network answers dials with a limited time to live: the predicate tells for which values
  the server is reached, and dials that do not reach it time out.\<close>

definition answers :: "'w lib \<Rightarrow> bool \<Rightarrow> duration \<Rightarrow> string \<Rightarrow> (int \<Rightarrow> bool) \<Rightarrow> bool" where
  "answers L v6 t addr reach \<longleftrightarrow> (\<forall>ttl w. case fst (DialTTL L v6 t ttl addr w) of
       None \<Rightarrow> reach ttl
     | Some (timedOut, _) \<Rightarrow> \<not> reach ttl \<and> timedOut)"

definition leastTTL :: "(int \<Rightarrow> bool) \<Rightarrow> int \<Rightarrow> int \<Rightarrow> bool" where
  "leastTTL reach maxTTL r \<longleftrightarrow>
     (if \<exists>x. 1 \<le> x \<and> x \<le> maxTTL \<and> reach x then 1 \<le> r \<and> r \<le> maxTTL \<and> reach r \<and> (\<forall>x. 1 \<le> x \<and> x < r \<longrightarrow> \<not> reach x) else r = -1)"

lemma attemptLoop_step:
  assumes "answers L v6 t addr reach" "DialTTL L v6 t mid addr (world s) = (r, w)"
  shows "attemptLoop L v6 t addr mid (Suc n) s =
    (if reach mid then Some (Inr True, s\<lparr>world := w\<rparr>) else attemptLoop L v6 t addr mid n (s\<lparr>world := w\<rparr>))"
proof -
  have "case fst (DialTTL L v6 t mid addr (world s)) of None \<Rightarrow> reach mid | Some (timedOut, _) \<Rightarrow> \<not> reach mid \<and> timedOut"
    using assms(1) unfolding answers_def by blast
  with assms(2) have "case r of None \<Rightarrow> reach mid | Some (timedOut, _) \<Rightarrow> \<not> reach mid \<and> timedOut" by simp
  with assms(2) show ?thesis by (cases r) (simp_all add: bindS_def ext_def split: prod.splits)
qed

lemma attemptLoop_answers:
  assumes "answers L v6 t addr reach"
  shows "\<exists>w. attemptLoop L v6 t addr mid (Suc n) s = Some (Inr (reach mid), s\<lparr>world := w\<rparr>)"
proof (induction n arbitrary: s)
  case 0
  obtain r w where "DialTTL L v6 t mid addr (world s) = (r, w)" by force
  from attemptLoop_step [OF assms this, of 0] have "attemptLoop L v6 t addr mid (Suc 0) s = Some (Inr (reach mid), s\<lparr>world := w\<rparr>)"
    by (cases "reach mid") (simp_all del: attemptLoop.simps(2))
  then show ?case by blast
next
  case (Suc n)
  obtain r w where r: "DialTTL L v6 t mid addr (world s) = (r, w)" by force
  obtain w2 where "attemptLoop L v6 t addr mid (Suc n) (s\<lparr>world := w\<rparr>) = Some (Inr (reach mid), (s\<lparr>world := w\<rparr>)\<lparr>world := w2\<rparr>)"
    using Suc.IH by blast
  then have "attemptLoop L v6 t addr mid (Suc (Suc n)) s = Some (Inr (reach mid), s\<lparr>world := if reach mid then w else w2\<rparr>)"
    using attemptLoop_step [OF assms r, of "Suc n"] by (cases "reach mid") (simp_all del: attemptLoop.simps(2))
  then show ?case by blast
qed

lemma probeLoop_least:
  assumes "answers L v6 t addr reach" "\<forall>x y. x \<le> y \<longrightarrow> reach x \<longrightarrow> reach y" "0 < tries" "1 \<le> low" "high \<le> maxTTL" "low \<le> high + 1"
    "\<forall>x. x < low \<longrightarrow> 1 \<le> x \<longrightarrow> \<not> reach x" "if found = -1 then high = maxTTL else found = high + 1 \<and> found \<le> maxTTL \<and> reach found"
  shows "\<exists>r w. probeLoop L v6 t addr tries low high found s = Some (Inr r, s\<lparr>world := w\<rparr>) \<and> leastTTL reach maxTTL r"
  using assms(4-8)
proof (induction "nat (high - low + 1)" arbitrary: low high found s rule: less_induct)
  case less
  show ?case
  proof (cases "low \<le> high")
    case True
    define mid where "mid = quot (low + high) 2"
    have mid: "low \<le> mid" "mid \<le> high" using quot_mid [OF True] by (simp_all add: mid_def)
    obtain w where w: "attemptLoop L v6 t addr mid (nat tries) s = Some (Inr (reach mid), s\<lparr>world := w\<rparr>)"
      using attemptLoop_answers [OF assms(1), of mid "nat tries - 1" s] assms(3) by auto
    show ?thesis
    proof (cases "reach mid")
      case True
      have "\<exists>r w'. probeLoop L v6 t addr tries low (mid - 1) mid (s\<lparr>world := w\<rparr>) = Some (Inr r, (s\<lparr>world := w\<rparr>)\<lparr>world := w'\<rparr>) \<and> leastTTL reach maxTTL r"
        by (rule less.hyps) (use mid less.prems True in auto)
      then show ?thesis using w True \<open>low \<le> high\<close>
        by (subst probeLoop.simps) (auto simp: mid_def [symmetric] Let_def)
    next
      case False
      have "\<not> reach x" if "x < mid + 1" for x using assms(2) False that by (meson zle_add1_eq_le)
      then have "\<exists>r w'. probeLoop L v6 t addr tries (mid + 1) high found (s\<lparr>world := w\<rparr>) = Some (Inr r, (s\<lparr>world := w\<rparr>)\<lparr>world := w'\<rparr>) \<and> leastTTL reach maxTTL r"
        by (intro less.hyps) (use mid less.prems in auto)
      then show ?thesis using w False \<open>low \<le> high\<close>
        by (subst probeLoop.simps) (auto simp: mid_def [symmetric] Let_def)
    qed
  next
    case False
    then have "high = low - 1" using less.prems by simp
    then have "leastTTL reach maxTTL found"
      using less.prems unfolding leastTTL_def by (auto split: if_splits)
    then show ?thesis using False by (subst probeLoop.simps) (auto intro!: exI [of _ "world s"])
  qed
qed

lemma probe_least:
  assumes "wfCore L s" "answers L v6 t addr reach" "\<forall>x y. x \<le> y \<longrightarrow> reach x \<longrightarrow> reach y" "0 < tries" "0 \<le> maxTTL"
  shows "\<exists>r s'. probeMinimumReachableTTL L ip addr v6 maxTTL tries t cacheTTL s = Some (Inr r, s') \<and> leastTTL reach maxTTL r \<and>
    wfCore L s' \<and> conf s' = conf s"
proof -
  obtain r w where r: "probeLoop L v6 t addr tries 1 maxTTL (-1) s = Some (Inr r, s\<lparr>world := w\<rparr>)" "leastTTL reach maxTTL r"
    using probeLoop_least [OF assms(2-4), of 1 maxTTL maxTTL "-1" s] assms(5) by auto
  have w: "wfCore L (s\<lparr>world := w\<rparr>)" using assms(1) by (simp add: wfCore_def)
  let ?add = "if r \<noteq> -1 \<and> cacheTTL \<noteq> 0 \<and> cacheTTL \<noteq> unsetInt then ttlCacheAdd L ip r cacheTTL else ret ()"
  have "safe L ?add" by (intro safe_rules)
  from safeD [OF this w] obtain s' where s': "?add (s\<lparr>world := w\<rparr>) = Some ((), s')" by (auto simp: returns_def)
  have run: "probeMinimumReachableTTL L ip addr v6 maxTTL tries t cacheTTL s = Some (Inr r, s')"
    unfolding probeMinimumReachableTTL_def bindE_run(1) [where m = "probeLoop L v6 t addr tries 1 maxTTL (-1)", OF r(1)]
    by (simp only: bindS_run [where m = ?add, OF s'] eff_simps)
  from safe_run [OF safe_probe assms(1) run] run r(2) show ?thesis by blast
qed

section \<open>Properties\<close>



end
