(* ===== verification/Tun_Bridge.thy ===== *)
theory Tun_Bridge
  imports Routing Desync
begin

text \<open>
  The connection that applies a policy to the first bytes of a tunnelled TCP stream
  (\<^verbatim>\<open>core/tun_bridge.go\<close>, \<^verbatim>\<open>policyConn\<close> of \<^verbatim>\<open>core/policy.go\<close>). Writes are collected until it is clear whether the
  stream starts with a TLS record; then they are sent as the policy says, and later writes go
  straight to the connection. The calls are atomic because each holds the connection's mutex.
\<close>

section \<open>Connections\<close>

definition EOF :: err where "EOF = ErrNew ''EOF''"

definition bytesString :: "bytes \<Rightarrow> string" where
  "bytesString = map (\<lambda>b. char_of (unat b))"

text \<open>A write reports its error; the number of bytes written is their length without an error.\<close>

definition sockWrite :: "'w lib \<Rightarrow> nat \<Rightarrow> bytes \<Rightarrow> ('w, err option) act" where
  "sockWrite L c b = onHistory (writeConn (kern L) c b)"

definition sockClose :: "nat \<Rightarrow> ('w, unit) act" where
  "sockClose c = onHistory (\<lambda>h. Some (h @ [EvClose c], ()))"

definition tlsAlertLevelFatal :: byte where "tlsAlertLevelFatal = 2"
definition tlsAlertAccessDenied :: byte where "tlsAlertAccessDenied = 70"
definition tlsAlertProtocolVersion :: byte where "tlsAlertProtocolVersion = 49"

definition sendTLSAlert :: "'w lib \<Rightarrow> nat \<Rightarrow> bytes \<Rightarrow> byte \<Rightarrow> byte \<Rightarrow> ('w, unit) act" where
  "sendTLSAlert L c prtVer desc level =
     bindS (liftO (do { v0 \<leftarrow> Prelude.at prtVer 0; v1 \<leftarrow> Prelude.at prtVer 1; Some [0x15, v0, v1, 0, 2, level, desc] })) (\<lambda>b.
     bindS (sockWrite L c b) (\<lambda>_. ret ()))"

definition fragmentHello :: "'w lib \<Rightarrow> nat \<Rightarrow> Policy \<Rightarrow> bytes \<Rightarrow> int \<Rightarrow> int \<Rightarrow> ('w, err option) act" where
  "fragmentHello L c p hello sniStart sniLen = onHistory (sendRecords (kern L) c hello sniStart sniLen (NumRecords p) (NumSegments p)
     (MinorVer p) (IsTrue (OOB p)) (IsTrue (OOBEx p)) (IsTrue (WaitForAck p)) (SendInterval p))"

section \<open>The connection of the tunnel\<close>

record tunPolicyConn =
  tcConn :: nat
  tcPlan :: DialPlan
  tHandled :: bool
  tClosed :: bool
  tPending :: bytes

definition WrapTCPConn :: "nat \<Rightarrow> DialPlan \<Rightarrow> tunPolicyConn" where
  "WrapTCPConn c plan = \<lparr>tcConn = c, tcPlan = plan, tHandled = False, tClosed = False, tPending = []\<rparr>"

definition flushPendingLocked :: "'w lib \<Rightarrow> tunPolicyConn \<Rightarrow> ('w, tunPolicyConn \<times> err option) act" where
  "flushPendingLocked L t =
     (if tPending t = [] then ret (t\<lparr>tHandled := True\<rparr>, None)
      else bindS (sockWrite L (tcConn t) (tPending t)) (\<lambda>e. case e of
          Some e \<Rightarrow> ret (t, Some e)
        | None \<Rightarrow> ret (t\<lparr>tHandled := True, tPending := []\<rparr>, None)))"

definition refuse :: "tunPolicyConn \<Rightarrow> ('w, tunPolicyConn \<times> err option) act" where
  "refuse t = bindS (sockClose (tcConn t)) (\<lambda>_. ret (t\<lparr>tClosed := True\<rparr>, Some EOF))"

definition refuseAlert :: "'w lib \<Rightarrow> tunPolicyConn \<Rightarrow> bytes \<Rightarrow> byte \<Rightarrow> ('w, tunPolicyConn \<times> err option) act" where
  "refuseAlert L t prtVer desc = bindS (sendTLSAlert L (tcConn t) prtVer desc tlsAlertLevelFatal) (\<lambda>_. refuse t)"

text \<open>The end of \<^verbatim>\<open>handleTLSLocked\<close>: the record is sent in the given mode.\<close>

definition sendByMode :: "'w lib \<Rightarrow> tunPolicyConn \<Rightarrow> Mode \<Rightarrow> bytes \<Rightarrow> int \<Rightarrow> int \<Rightarrow> ('w, err option) act" where
  "sendByMode L t mode hello sniStart sniLen =
     (let p = dpPolicy (tcPlan t); c = tcConn t; host = TargetHost (tcPlan t) in
      if mode = ModeTLSRF then fragmentHello L c p hello sniStart sniLen
      else if mode = ModeTTLD then
        let v6 = HasPrefix host ''['' in
        bindS (if FakeTTL p = 0 \<or> FakeTTL p = unsetInt then getFakeTTL L p host v6 else ret (Inr (FakeTTL p))) (\<lambda>ttl. case ttl of
            Inl e \<Rightarrow> ret (Some e)
          | Inr ttl \<Rightarrow> desyncSend L c v6 hello sniStart sniLen ttl (FakeSleep p))
      else sockWrite L c hello)"

text \<open>What the server name in the record demands: a mode to send in, or a refusal.\<close>

datatype verdict = SendIn Mode | Refuse | RefuseAlert

definition sniVerdict :: "Tables \<Rightarrow> Mode \<Rightarrow> bytes \<Rightarrow> int \<Rightarrow> int \<Rightarrow> bool \<Rightarrow> verdict option" where
  "sniVerdict t mode hello sniStart sniLen hasECH =
     (if sniStart \<le> 0 \<or> sniLen \<le> 0 then Some (SendIn ModeDirect)
      else if hasECH then Some (SendIn ModeDirect)
      else do {
        sni \<leftarrow> slice hello (nat sniStart) (nat (sniStart + sniLen));
        Some (case FindDomain (domainMatcher t) (bytesString sni) of
            None \<Rightarrow> SendIn mode
          | Some domainPolicy \<Rightarrow>
              let m = Mode' (mergePolicies [domainPolicy, defaultPolicy t]) in
              if m = ModeBlock then Refuse else if m = ModeTLSAlert then RefuseAlert else SendIn mode) })"

definition handleTLSLocked :: "'w lib \<Rightarrow> tunPolicyConn \<Rightarrow> bytes \<Rightarrow> ('w, tunPolicyConn \<times> err option) act" where
  "handleTLSLocked L t hello =
     bindS (liftO (parseClientHello hello)) (\<lambda>(prtVer, sniStart, sniLen, hasKeyShare, hasECH, err).
       let p = dpPolicy (tcPlan t) in
       if err \<noteq> None then flushPendingLocked L t
       else if Mode' p = ModeTLSAlert then refuseAlert L t prtVer tlsAlertAccessDenied
       else if IsTrue (TLS13Only p) \<and> \<not> hasKeyShare then refuseAlert L t prtVer tlsAlertProtocolVersion
       else bindS (gets tables) (\<lambda>tb. bindS (liftO (sniVerdict tb (Mode' p) hello sniStart sniLen hasECH)) (\<lambda>v. case v of
           Refuse \<Rightarrow> refuse t
         | RefuseAlert \<Rightarrow> refuseAlert L t prtVer tlsAlertAccessDenied
         | SendIn mode \<Rightarrow> bindS (sendByMode L t mode hello sniStart sniLen) (\<lambda>e. ret (t, e)))))"

text \<open>The result tells whether the pending bytes were dealt with.\<close>

definition tryTLS :: "'w lib \<Rightarrow> tunPolicyConn \<Rightarrow> nat \<Rightarrow> ('w, tunPolicyConn \<times> bool) act" where
  "tryTLS L t recordLen =
     (let hello = take recordLen (tPending t); tail = drop recordLen (tPending t) in
      bindS (handleTLSLocked L t hello) (\<lambda>(t1, err).
        if err \<noteq> None then ret (t1\<lparr>tClosed := True\<rparr>, True)
        else
          let t2 = t1\<lparr>tHandled := True, tPending := []\<rparr> in
          if tail = [] then ret (t2, True)
          else bindS (sockWrite L (tcConn t) tail) (\<lambda>e. ret (if e \<noteq> None then t2\<lparr>tClosed := True\<rparr> else t2, True))))"

definition tryHandlePendingLocked :: "'w lib \<Rightarrow> tunPolicyConn \<Rightarrow> ('w, tunPolicyConn \<times> bool) act" where
  "tryHandlePendingLocked L t =
     (let pend = tPending t; flush = (\<lambda>t. bindS (flushPendingLocked L t) (\<lambda>(t1, e). ret (t1\<lparr>tClosed := (e \<noteq> None)\<rparr>, True))) in
      if pend = [] then ret (t, False)
      else if dpBlocked (tcPlan t) \<or> Mode' (dpPolicy (tcPlan t)) = ModeBlock
      then bindS (sockClose (tcConn t)) (\<lambda>_. ret (t\<lparr>tClosed := True\<rparr>, True))
      else if Mode' (dpPolicy (tcPlan t)) = ModeRaw then flush t
      else if length pend < 5 then ret (t, False)
      else if pend ! 0 = 0x16 \<and> pend ! 1 = 0x03 then
        bindS (liftO (Uint16At pend 3)) (\<lambda>n.
          if length pend < 5 + n then ret (t, False) else tryTLS L t (5 + n))
      else flush (t\<lparr>tHandled := True\<rparr>))"

definition tunWrite :: "'w lib \<Rightarrow> tunPolicyConn \<Rightarrow> bytes \<Rightarrow> ('w, tunPolicyConn \<times> err option) act" where
  "tunWrite L t b =
     (if tClosed t then ret (t, Some EOF)
      else if tHandled t then bindS (sockWrite L (tcConn t) b) (\<lambda>e. ret (t, e))
      else bindS (tryHandlePendingLocked L (t\<lparr>tPending := tPending t @ b\<rparr>)) (\<lambda>(t', _). ret (t', None)))"

definition DefaultDialTimeout :: "Policy \<Rightarrow> duration" where
  "DefaultDialTimeout p = (if ConnectTimeout p > 0 then ConnectTimeout p else 10 * second)"

section \<open>The connection of DNS over HTTPS\<close>

record policyConn =
  pcConn :: nat
  pcRemote :: string
  pcHandled :: bool
  pcPolicy :: "Policy option"

definition policyWrite :: "'w lib \<Rightarrow> policyConn \<Rightarrow> bytes \<Rightarrow> ('w, policyConn \<times> err option) act" where
  "policyWrite L pc b =
     (let c = pcConn pc; done1 = (\<lambda>e. ret (pc\<lparr>pcHandled := True\<rparr>, e)); direct = bindS (sockWrite L c b) (\<lambda>e. ret (pc\<lparr>pcHandled := True\<rparr>, e)) in
      if pcHandled pc then direct
      else bindS (liftO (parseClientHello b)) (\<lambda>(_, sniStart, sniLen, hasKeyShare, _, err).
        if err \<noteq> None then done1 err
        else case pcPolicy pc of
          None \<Rightarrow> direct
        | Some p \<Rightarrow>
            if IsTrue (TLS13Only p) \<and> \<not> hasKeyShare then done1 (Some (ErrNew ''not a TLS 1.3 ClientHello''))
            else if sniStart = -1 then direct
            else (case Mode' p of
                ModeDirect \<Rightarrow> direct
              | ModeRaw \<Rightarrow> direct
              | ModeTTLD \<Rightarrow>
                  bindS (liftO (Prelude.at (pcRemote pc) 0)) (\<lambda>r0.
                  bindS (getFakeTTL L p (pcRemote pc) (r0 = CHR ''['')) (\<lambda>ttl. case ttl of
                      Inl e \<Rightarrow> done1 (Some (OpError ''get fake ttl'' e))
                    | Inr ttl \<Rightarrow> bindS (desyncSend L c (r0 = CHR ''['') b sniStart sniLen ttl (FakeSleep p)) (\<lambda>e. done1 (WithStr ''ttl desync'' e))))
              | ModeTLSRF \<Rightarrow> bindS (fragmentHello L c p b sniStart sniLen) (\<lambda>e. done1 (WithStr ''tls fragment'' e))
              | _ \<Rightarrow> done1 None)))"

section \<open>The calls return\<close>

text \<open>What the calls rely on of the sockets: interrupted system calls end, the clock runs, and
  sending with a decoy returns.\<close>

definition socketsReturn :: "'w lib \<Rightarrow> bool" where
  "socketsReturn L \<longleftrightarrow> interrupts_end (kern L) \<and> clock_runs (kern L) \<and>
     (\<forall>h c v6 fake sent ttl dflt d. SendWithNoise L h c v6 fake sent ttl dflt d \<noteq> None)"

lemma safe_onHistory: "(\<And>h. m h \<noteq> None) \<Longrightarrow> safe L (onHistory m)"
proof -
  assume m: "\<And>h. m h \<noteq> None"
  have "Effects.returns (onHistory m) s (\<lambda>_. good L s)" if "wfCore L s" for s
  proof -
    obtain h r where "m (history s) = Some (h, r)" using m [of "history s"] by auto
    then show ?thesis using that by (auto simp: Effects.returns_def onHistory_def good_def wfCore_def conf_def)
  qed
  then show ?thesis by (simp add: safe_def)
qed

lemma safe_sockWrite [safe_rules]: "safe L (sockWrite L c p)"
  unfolding sockWrite_def by (rule safe_onHistory) (simp add: writeConn_def)

lemma safe_sockClose [safe_rules]: "safe L (sockClose c)"
  unfolding sockClose_def by (rule safe_onHistory) simp

lemma bindS_liftO [simp]: "bindS (liftO (Some x)) f = f x"
  by (simp add: bindS_def liftO_def fun_eq_iff)

lemma safe_liftO: "x = Some y \<Longrightarrow> safe L (f y) \<Longrightarrow> safe L (bindS (liftO x) f)"
  by simp

lemma safe_sendTLSAlert: "length v = 2 \<Longrightarrow> safe L (sendTLSAlert L c v desc level)"
  unfolding sendTLSAlert_def
  by (rule safe_liftO [where y = "[0x15, v ! 0, v ! 1, 0, 2, level, desc]"]) (simp add: at_def, intro safe_rules)

lemma safe_refuse [safe_rules]: "safe L (refuse t)"
  unfolding refuse_def by (intro safe_rules)

lemma safe_refuseAlert: "length v = 2 \<Longrightarrow> safe L (refuseAlert L t v desc)"
  unfolding refuseAlert_def by (intro safe_rules safe_sendTLSAlert)

lemma safe_flush [safe_rules]: "safe L (flushPendingLocked L t)"
  unfolding flushPendingLocked_def by (intro safe_rules)

lemma safe_fragmentHello:
  assumes "socketsReturn L" "10 \<le> length hello" "off < 0 \<or> 5 \<le> off"
  shows "safe L (fragmentHello L c p hello off n)"
  using returns_sendRecords [of "kern L" hello off] assms unfolding fragmentHello_def
  by (intro safe_onHistory) (auto simp: socketsReturn_def Fragment.returns_def)

lemma desyncData_run:
  assumes "0 \<le> off" "off \<le> int (length hello)"
  shows "desyncData hello off n \<noteq> None"
  using assms cut_le [of hello off n] by (auto simp: desyncData_def slice_def Let_def)

lemma safe_desyncSend:
  assumes "socketsReturn L" "0 \<le> off" "off \<le> int (length hello)"
  shows "safe L (desyncSend L c v6 hello off n ttl d)"
proof -
  obtain a x r where d: "desyncData hello off n = Some (a, x, r)" using desyncData_run [OF assms(2,3)] by (metis not_None_eq prod_cases3)
  define rest where "rest = (\<lambda>(h1, e1). case e1 of
      Some e \<Rightarrow> Some (h1, Some (OpError ''send data with noise'' e))
    | None \<Rightarrow> (case connWrite (kern L) h1 c r of (h2, e2) \<Rightarrow> Some (h2, WithStr ''send remaining data'' e2)))"
  have "rest u \<noteq> None" for u by (auto simp: rest_def split: option.split prod.split)
  then have nz: "Option.bind (SendWithNoise L h c v6 a x ttl dflt t) rest \<noteq> None" for h dflt t
    using assms(1) by (simp add: socketsReturn_def bind_eq_None_conv)
  show ?thesis unfolding desyncSend_def
    by (rule safe_onHistory) (use nz in \<open>simp add: d rest_def split: option.split sum.split\<close>)
qed

text \<open>A parsed hello: what its fields allow.\<close>

lemma parsed_hello:
  assumes "5 \<le> length hello"
  obtains v off n ks ech e where "parseClientHello hello = Some (v, off, n, ks, ech, e)"
    "e = None \<Longrightarrow> length v = 2 \<and> 10 \<le> length hello" "off < 0 \<or> 5 \<le> off" "0 \<le> n" "off + n \<le> int (length hello)"
  using parseClientHello_bounds [OF assms] by (fastforce simp: sni_in_def)

lemma sniVerdict_run:
  assumes "0 \<le> n" "off + n \<le> int (length hello)"
  obtains v where "sniVerdict tb mode hello off n ech = Some v" "\<And>m. v = SendIn m \<Longrightarrow> m = ModeDirect \<or> 0 < off"
proof (cases "off \<le> 0 \<or> n \<le> 0 \<or> ech")
  case True
  then show thesis by (intro that [of "SendIn ModeDirect"]) (auto simp: sniVerdict_def)
next
  case False
  then have "nat off \<le> nat (off + n)" "nat (off + n) \<le> length hello" using assms by auto
  then show thesis using False by (intro that [rotated]) (auto simp: sniVerdict_def slice_def Let_def)
qed

lemma safe_sendByMode:
  assumes "socketsReturn L" "10 \<le> length hello" "off < 0 \<or> 5 \<le> off" "off \<le> int (length hello)" "mode = ModeDirect \<or> 0 < off"
  shows "safe L (sendByMode L t mode hello off n)"
  unfolding sendByMode_def using assms by (intro safe_rules safe_fragmentHello safe_desyncSend) auto

lemma safe_handleTLSLocked:
  assumes "socketsReturn L" "5 \<le> length hello"
  shows "safe L (handleTLSLocked L t hello)"
proof -
  obtain v off n ks ech e where p: "parseClientHello hello = Some (v, off, n, ks, ech, e)"
    and len: "e = None \<Longrightarrow> length v = 2 \<and> 10 \<le> length hello" and off: "off < 0 \<or> 5 \<le> off" "0 \<le> n" "off + n \<le> int (length hello)"
    using parsed_hello [OF assms(2)] by metis
  have verdict: "safe L (bindS (liftO (sniVerdict tb mode hello off n ech)) f)"
    if f: "\<And>v. (\<And>m. v = SendIn m \<Longrightarrow> m = ModeDirect \<or> 0 < off) \<Longrightarrow> safe L (f v)" for tb mode and f :: "verdict \<Rightarrow> ('a, 'b) act"
  proof -
    obtain w where w: "sniVerdict tb mode hello off n ech = Some w" "\<And>m. w = SendIn m \<Longrightarrow> m = ModeDirect \<or> 0 < off"
      using sniVerdict_run [OF off(2,3)] by metis
    show ?thesis by (rule safe_liftO [OF w(1)]) (rule f [OF w(2)])
  qed
  have act: "safe L (case w of Refuse \<Rightarrow> refuse t | RefuseAlert \<Rightarrow> refuseAlert L t v tlsAlertAccessDenied
      | SendIn m \<Rightarrow> bindS (sendByMode L t m hello off n) (\<lambda>e. ret (t, e)))"
    if "e = None" "\<And>m. w = SendIn m \<Longrightarrow> m = ModeDirect \<or> 0 < off" for w
    using that len off assms(1) by (cases w) (auto intro!: safe_rules safe_refuseAlert safe_sendByMode)
  show ?thesis
    unfolding handleTLSLocked_def p bindS_liftO prod.case Let_def
    using len by (intro safe_if safe_flush safe_refuseAlert safe_bindS safe_gets verdict act) auto
qed

lemma safe_tryTLS:
  assumes "socketsReturn L" "5 \<le> k" "k \<le> length (tPending t)"
  shows "safe L (tryTLS L t k)"
  unfolding tryTLS_def Let_def using assms by (intro safe_rules safe_handleTLSLocked) auto

lemma header_length:
  assumes "5 \<le> length xs"
  obtains n where "Uint16At xs 3 = Some n"
proof -
  have "3 + 2 \<le> length xs" using assms by simp
  from Uint16At_Some [OF this] show thesis by (rule that)
qed

lemma safe_tryHandle:
  assumes "socketsReturn L"
  shows "safe L (tryHandlePendingLocked L t)"
proof -
  have u: "safe L (bindS (liftO (Uint16At (tPending t) 3)) (\<lambda>n. if length (tPending t) < 5 + n then ret (t, False) else tryTLS L t (5 + n)))"
    if five: "\<not> length (tPending t) < 5"
  proof -
    obtain n where n: "Uint16At (tPending t) 3 = Some n" using header_length [of "tPending t"] five by auto
    show ?thesis by (rule safe_liftO [OF n]) (use assms in \<open>intro safe_rules safe_tryTLS; simp\<close>)
  qed
  show ?thesis unfolding tryHandlePendingLocked_def Let_def by (intro safe_rules u)
qed

lemma safe_tunWrite: "socketsReturn L \<Longrightarrow> safe L (tunWrite L t p)"
  unfolding tunWrite_def by (intro safe_rules safe_tryHandle)

lemma safe_policyWrite:
  assumes "socketsReturn L" "5 \<le> length p" "pcRemote pc \<noteq> []"
  shows "safe L (policyWrite L pc p)"
proof -
  obtain v off n ks ech e where p: "parseClientHello p = Some (v, off, n, ks, ech, e)"
    and len: "e = None \<Longrightarrow> length v = 2 \<and> 10 \<le> length p" and off: "off < 0 \<or> 5 \<le> off" "0 \<le> n" "off + n \<le> int (length p)" "off < 0 \<Longrightarrow> off = -1"
    using parseClientHello_bounds [OF assms(2)] by (fastforce simp: sni_in_def)
  have r: "Prelude.at (pcRemote pc) 0 = Some (pcRemote pc ! 0)" using assms(3) by (simp add: at_def)
  have modes: "safe L (case m of ModeDirect \<Rightarrow> a | ModeRaw \<Rightarrow> a | ModeTTLD \<Rightarrow> d | ModeTLSRF \<Rightarrow> f | _ \<Rightarrow> g)"
    if "safe L a" "safe L d" "safe L f" "safe L g" for m and a d f g :: "('a, policyConn \<times> err option) act"
    using that by (cases m) auto
  show ?thesis
    unfolding policyWrite_def p r bindS_liftO prod.case Let_def
    using len off assms(1) by (intro safe_rules modes safe_desyncSend safe_fragmentHello) auto
qed

section \<open>A sequence of writes\<close>

fun tunWrites :: "'w lib \<Rightarrow> tunPolicyConn \<Rightarrow> bytes list \<Rightarrow> ('w, tunPolicyConn \<times> err option list) act" where
  "tunWrites L t [] = ret (t, [])"
| "tunWrites L t (p # ps) =
     bindS (tunWrite L t p) (\<lambda>(t1, e). bindS (tunWrites L t1 ps) (\<lambda>(t2, es). ret (t2, e # es)))"

lemma safe_tunWrites: "socketsReturn L \<Longrightarrow> safe L (tunWrites L t ps)"
  by (induction ps arbitrary: t) (unfold tunWrites.simps, (intro safe_rules safe_tunWrite; assumption)+)

text \<open>A step that has written given bytes to a connection and changed nothing else.\<close>

definition wrote :: "nat \<Rightarrow> bytes \<Rightarrow> 'w core \<Rightarrow> 'w core \<Rightarrow> bool" where
  "wrote c xs s s' \<longleftrightarrow> (\<exists>es. s' = s\<lparr>history := history s @ es\<rparr> \<and> plain c xs es)"

lemma wrote_refl: "wrote c [] s s"
  unfolding wrote_def by (rule exI [of _ "[]"]) simp

lemma wrote_trans: "wrote c xs s s1 \<Longrightarrow> wrote c ys s1 s2 \<Longrightarrow> wrote c (xs @ ys) s s2"
  unfolding wrote_def using plain_append by fastforce

lemma sockWrite_ok: "sockWrite L c p s = Some (None, s') \<Longrightarrow> wrote c p s s'"
  using success_write [of "kern L" c p] unfolding success_def wrote_def sockWrite_def onHistory_def by fastforce

lemma flush_ok:
  assumes "flushPendingLocked L t s = Some ((t', None), s')"
  shows "wrote (tcConn t) (tPending t) s s' \<and> t' = t\<lparr>tHandled := True, tPending := []\<rparr>"
proof (cases "tPending t = []")
  case True
  then show ?thesis using assms by (cases t) (auto simp: flushPendingLocked_def wrote_refl)
next
  case False
  then show ?thesis using assms
    by (auto simp: flushPendingLocked_def bindS_Some sockWrite_ok split: option.splits)
qed

lemma refuse_fails: "refuse t s = Some ((t', e), s') \<Longrightarrow> e \<noteq> None"
  by (auto simp: refuse_def bindS_Some)

lemma refuseAlert_fails: "refuseAlert L t v d s = Some ((t', e), s') \<Longrightarrow> e \<noteq> None"
  by (auto simp: refuseAlert_def bindS_Some dest: refuse_fails)

text \<open>A record that the parser refuses.\<close>

definition badRecord :: "bytes \<Rightarrow> bool" where
  "badRecord r \<longleftrightarrow> (\<exists>v off n ks ech e. parseClientHello r = Some (v, off, n, ks, ech, Some e))"

definition plainMode :: "Mode \<Rightarrow> bool" where
  "plainMode m \<longleftrightarrow> m \<noteq> ModeTLSRF \<and> m \<noteq> ModeTTLD"

lemma sniVerdict_plain: "sniVerdict tb mode hello off n ech = Some (SendIn m) \<Longrightarrow> plainMode mode \<Longrightarrow> plainMode m"
  by (auto simp: sniVerdict_def plainMode_def Let_def bind_eq_Some_conv split: if_splits option.splits)

lemma handleTLS_ok:
  assumes "handleTLSLocked L t hello s = Some ((t', None), s')" "plainMode (Mode' (dpPolicy (tcPlan t)))"
  shows "badRecord hello \<and> wrote (tcConn t) (tPending t) s s' \<and> t' = t\<lparr>tHandled := True, tPending := []\<rparr> \<or>
    wrote (tcConn t) hello s s' \<and> t' = t"
proof -
  let ?p = "dpPolicy (tcPlan t)"
  obtain v off n ks ech e where p: "parseClientHello hello = Some (v, off, n, ks, ech, e)"
    using assms(1) by (cases "parseClientHello hello") (auto simp: handleTLSLocked_def bindS_def liftO_def)
  show ?thesis
  proof (cases e)
    case (Some x)
    then have "flushPendingLocked L t s = Some ((t', None), s')" "badRecord hello"
      using assms(1) p by (simp_all add: handleTLSLocked_def badRecord_def)
    then show ?thesis using flush_ok by blast
  next
    case None
    have run: "bindS (liftO (sniVerdict (tables s) (Mode' ?p) hello off n ech)) (\<lambda>v'. case v' of
           Refuse \<Rightarrow> refuse t
         | RefuseAlert \<Rightarrow> refuseAlert L t v tlsAlertAccessDenied
         | SendIn mode \<Rightarrow> bindS (sendByMode L t mode hello off n) (\<lambda>e. ret (t, e))) s = Some ((t', None), s')"
      using assms(1) None by (auto simp: handleTLSLocked_def p Let_def bindS_gets dest!: refuseAlert_fails split: if_splits)
    then obtain w where w: "sniVerdict (tables s) (Mode' ?p) hello off n ech = Some w"
      by (cases "sniVerdict (tables s) (Mode' ?p) hello off n ech") (auto simp: bindS_def liftO_def)
    show ?thesis
    proof (cases w)
      case (SendIn m)
      then have "plainMode m" using sniVerdict_plain [of _ _ _ _ _ _ m] w assms(2) by simp
      then have "sockWrite L (tcConn t) hello s = Some (None, s') \<and> t' = t"
        using run SendIn by (auto simp: w bindS_Some sendByMode_def plainMode_def Let_def)
      then show ?thesis using sockWrite_ok by blast
    qed (use run w in \<open>auto dest: refuse_fails refuseAlert_fails\<close>)
  qed
qed

text \<open>What became of the bytes written so far: they are pending, or they were sent, or they were
  sent with the bytes that followed a refused record twice.\<close>

definition twice :: "bytes \<Rightarrow> bytes \<Rightarrow> bool" where
  "twice input sent \<longleftrightarrow> (\<exists>r tail later. badRecord r \<and> tail \<noteq> [] \<and> input = r @ tail @ later \<and> sent = r @ tail @ tail @ later)"

lemma twice_append: "twice input sent \<Longrightarrow> twice (input @ p) (sent @ p)"
  by (auto simp: twice_def) blast

lemma tryTLS_ok:
  assumes "tryTLS L t k s = Some ((t', d), s')" "\<not> tClosed t'" "plainMode (Mode' (dpPolicy (tcPlan t)))"
  shows "t' = t\<lparr>tHandled := True, tPending := []\<rparr> \<and>
    (wrote (tcConn t) (tPending t) s s' \<or> (\<exists>sent. twice (tPending t) sent \<and> wrote (tcConn t) sent s s'))"
proof -
  let ?r = "take k (tPending t)" and ?tail = "drop k (tPending t)"
  obtain t1 s1 where 1: "handleTLSLocked L t ?r s = Some ((t1, None), s1)"
    and 2: "(if ?tail = [] then ret (t1\<lparr>tHandled := True, tPending := []\<rparr>, True)
      else bindS (sockWrite L (tcConn t) ?tail) (\<lambda>e. ret (if e \<noteq> None then t1\<lparr>tHandled := True, tPending := [], tClosed := True\<rparr>
        else t1\<lparr>tHandled := True, tPending := []\<rparr>, True))) s1 = Some ((t', d), s')"
    using assms(1,2) by (auto simp: tryTLS_def Let_def bindS_Some split: if_splits)
  have t': "t' = t1\<lparr>tHandled := True, tPending := []\<rparr>" and tail: "wrote (tcConn t) ?tail s1 s'"
    using 2 assms(2) by (cases t1; auto simp: bindS_Some wrote_refl sockWrite_ok split: if_splits)+
  from handleTLS_ok [OF 1 assms(3)] show ?thesis
  proof
    assume h: "badRecord ?r \<and> wrote (tcConn t) (tPending t) s s1 \<and> t1 = t\<lparr>tHandled := True, tPending := []\<rparr>"
    then have w: "wrote (tcConn t) (tPending t @ ?tail) s s'" using wrote_trans tail by blast
    have "twice (tPending t) (tPending t @ ?tail)" if "?tail \<noteq> []"
      unfolding twice_def using h that by (intro exI [of _ ?r] exI [of _ ?tail] exI [of _ "[]"]) (simp add: append_assoc [symmetric] del: append_assoc)
    then show ?thesis using w h t' by (cases "?tail = []") auto
  next
    assume h: "wrote (tcConn t) ?r s s1 \<and> t1 = t"
    then have "wrote (tcConn t) (?r @ ?tail) s s'" using wrote_trans tail by blast
    then show ?thesis using h t' by simp
  qed
qed

definition relayed :: "bytes \<Rightarrow> tunPolicyConn \<Rightarrow> bytes \<Rightarrow> bool" where
  "relayed input t sent \<longleftrightarrow> (if tHandled t then tPending t = [] \<and> (sent = input \<or> twice input sent) else tPending t = input \<and> sent = [])"

lemma flush_relays:
  assumes "bindS (flushPendingLocked L t) (\<lambda>(t1, e). ret (t1\<lparr>tClosed := (e \<noteq> None)\<rparr>, True)) s = Some ((t', d), s')" "\<not> tClosed t'" "\<not> tClosed t"
  shows "t' = t\<lparr>tHandled := True, tPending := []\<rparr> \<and> wrote (tcConn t) (tPending t) s s'"
  using assms flush_ok [of L t s] by (cases t) (auto simp: bindS_Some)

lemma tryHandle_ok:
  assumes run: "tryHandlePendingLocked L t s = Some ((t', d), s')" and o: "\<not> tClosed t'" "\<not> tClosed t" "\<not> tHandled t"
    and m: "plainMode (Mode' (dpPolicy (tcPlan t)))"
  shows "tcConn t' = tcConn t \<and> tcPlan t' = tcPlan t \<and> (\<exists>sent. wrote (tcConn t) sent s s' \<and> relayed (tPending t) t' sent)"
proof -
  have wait: ?thesis if "t' = t" "s' = s" using that o by (auto simp: relayed_def intro: wrote_refl)
  have sent: ?thesis if "t' = t\<lparr>tHandled := True, tPending := []\<rparr>"
      "wrote (tcConn t) (tPending t) s s' \<or> (\<exists>sent. twice (tPending t) sent \<and> wrote (tcConn t) sent s s')"
    using that by (auto simp: relayed_def)
  consider "t' = t" "s' = s"
    | n where "tryTLS L t n s = Some ((t', d), s')"
    | u where "u = t \<or> u = t\<lparr>tHandled := True\<rparr>"
        "bindS (flushPendingLocked L u) (\<lambda>(t1, e). ret (t1\<lparr>tClosed := (e \<noteq> None)\<rparr>, True)) s = Some ((t', d), s')"
    using run o by (auto simp: tryHandlePendingLocked_def Let_def bindS_Some liftO_def split: if_splits)
  then show ?thesis
  proof cases
    case 2
    from tryTLS_ok [OF this o(1) m] show ?thesis using sent by blast
  next
    case (3 u)
    have u: "\<not> tClosed u" "tPending u = tPending t" "tcConn u = tcConn t" "u\<lparr>tHandled := True, tPending := []\<rparr> = t\<lparr>tHandled := True, tPending := []\<rparr>"
      using 3(1) o by auto
    from flush_relays [OF 3(2) o(1) u(1)] show ?thesis using sent u by simp
  qed (rule wait)
qed

lemma tunWrite_ok:
  assumes run: "tunWrite L t p s = Some ((t', None), s')" and o: "\<not> tClosed t'" and m: "plainMode (Mode' (dpPolicy (tcPlan t)))"
    and r: "relayed input t sent"
  shows "tcConn t' = tcConn t \<and> tcPlan t' = tcPlan t \<and> (\<exists>out. wrote (tcConn t) out s s' \<and> relayed (input @ p) t' (sent @ out))"
proof -
  have c: "\<not> tClosed t" using run by (auto simp: tunWrite_def)
  show ?thesis
  proof (cases "tHandled t")
    case True
    then have "t' = t" "wrote (tcConn t) p s s'" using run c by (auto simp: tunWrite_def bindS_Some sockWrite_ok)
    then show ?thesis using True r twice_append by (auto simp: relayed_def)
  next
    case False
    let ?t = "t\<lparr>tPending := tPending t @ p\<rparr>"
    obtain d where "tryHandlePendingLocked L ?t s = Some ((t', d), s')" using run c False by (auto simp: tunWrite_def bindS_Some)
    from tryHandle_ok [OF this o] c False m r show ?thesis by (auto simp: relayed_def)
  qed
qed

lemma closed_stays: "tClosed t \<Longrightarrow> tunWrites L t ps s = Some ((t', es), s') \<Longrightarrow> t' = t \<and> s' = s"
  by (induction ps arbitrary: es) (auto simp: tunWrite_def bindS_Some)

lemma tunWrites_ok:
  assumes "tunWrites L t ps s = Some ((t', es), s')" "\<forall>e \<in> set es. e = None" "\<not> tClosed t'"
    "plainMode (Mode' (dpPolicy (tcPlan t)))" "relayed input t sent"
  shows "\<exists>out. wrote (tcConn t) out s s' \<and> relayed (input @ concat ps) t' (sent @ out)"
  using assms
proof (induction ps arbitrary: t s es input sent)
  case Nil
  then show ?case by (auto intro!: exI [of _ "[]"] wrote_refl)
next
  case (Cons p ps)
  obtain t1 s1 es1 where 1: "tunWrite L t p s = Some ((t1, None), s1)" and 2: "tunWrites L t1 ps s1 = Some ((t', es1), s')"
    and es: "es = None # es1" using Cons.prems(1,2) by (auto simp: bindS_Some)
  have o: "\<not> tClosed t1" using closed_stays [OF _ 2] Cons.prems(3) by auto
  obtain out where k: "tcConn t1 = tcConn t" "tcPlan t1 = tcPlan t" and w: "wrote (tcConn t) out s s1" "relayed (input @ p) t1 (sent @ out)"
    using tunWrite_ok [OF 1 o Cons.prems(4,5)] by blast
  obtain out' where w': "wrote (tcConn t) out' s1 s'" "relayed ((input @ p) @ concat ps) t' ((sent @ out) @ out')"
    using Cons.IH [OF 2 _ Cons.prems(3) _ w(2)] Cons.prems(2,4) k es by auto
  show ?case using wrote_trans [OF w(1) w'(1)] w'(2) by auto
qed

section \<open>Streams that are stopped\<close>

lemma closed_run: "tClosed t \<Longrightarrow> tunWrites L t ps s = Some ((t, replicate (length ps) (Some EOF)), s)"
  by (induction ps) (auto simp: tunWrite_def bindS_def)

text \<open>A connection that waits for a number of bytes and then closes.\<close>

lemma tun_stops:
  assumes step: "\<And>x y. x @ y = input \<Longrightarrow> tryHandlePendingLocked L (t\<lparr>tPending := x\<rparr>) s =
      Some (if k \<le> length x then ((t\<lparr>tPending := x, tClosed := True\<rparr>, True), s\<lparr>history := history s @ [EvClose (tcConn t)]\<rparr>)
        else ((t\<lparr>tPending := x\<rparr>, False), s))"
    and "\<not> tClosed t" "\<not> tHandled t" "k \<le> length input"
  shows "x @ concat ps = input \<Longrightarrow> length x < k \<Longrightarrow>
    \<exists>t' errs. tunWrites L (t\<lparr>tPending := x\<rparr>) ps s = Some ((t', errs), s\<lparr>history := history s @ [EvClose (tcConn t)]\<rparr>) \<and> tClosed t'"
proof (induction ps arbitrary: x)
  case Nil
  then show ?case using assms(4) by simp
next
  case (Cons p ps)
  have run: "tryHandlePendingLocked L (t\<lparr>tPending := x @ p\<rparr>) s =
      Some (if k \<le> length (x @ p) then ((t\<lparr>tPending := x @ p, tClosed := True\<rparr>, True), s\<lparr>history := history s @ [EvClose (tcConn t)]\<rparr>)
        else ((t\<lparr>tPending := x @ p\<rparr>, False), s))"
    using Cons.prems(1) by (intro step [of _ "concat ps"]) simp
  show ?case
  proof (cases "k \<le> length (x @ p)")
    case True
    then show ?thesis using run assms(2,3) by (simp add: tunWrite_def bindS_def closed_run)
  next
    case False
    then show ?thesis using run assms(2,3) Cons.IH [of "x @ p"] Cons.prems(1)
      by (auto simp: tunWrite_def bindS_def)
  qed
qed

text \<open>A TLS record whose server name a rule blocks.\<close>

definition helloBlocked :: "Tables \<Rightarrow> Policy \<Rightarrow> bytes \<Rightarrow> bool" where
  "helloBlocked tb p r \<longleftrightarrow>
     5 \<le> length r \<and> r ! 0 = 0x16 \<and> r ! 1 = 0x03 \<and> Uint16At r 3 = Some (length r - 5) \<and> Mode' p \<notin> {ModeRaw, ModeTLSAlert} \<and>
     (case parseClientHello r of
        Some (_, off, n, ks, False, None) \<Rightarrow> 0 < off \<and> 0 < n \<and> (IsTrue (TLS13Only p) \<longrightarrow> ks) \<and>
          (case FindDomain (domainMatcher tb) (bytesString (take (nat n) (drop (nat off) r))) of
             Some q \<Rightarrow> Mode' (mergePolicies [q, defaultPolicy tb]) = ModeBlock
           | None \<Rightarrow> False)
      | _ \<Rightarrow> False)"

lemma hello_refused:
  assumes "helloBlocked (tables s) (dpPolicy (tcPlan t)) r"
  shows "handleTLSLocked L t r s = Some ((t\<lparr>tClosed := True\<rparr>, Some EOF), s\<lparr>history := history s @ [EvClose (tcConn t)]\<rparr>)"
proof -
  have "5 \<le> length r" using assms by (simp add: helloBlocked_def)
  then obtain v off n ks ech e where p: "parseClientHello r = Some (v, off, n, ks, ech, e)" and len: "off + n \<le> int (length r)"
    using parsed_hello by metis
  then have f: "\<not> ech" "e = None" "0 < off" "0 < n" "IsTrue (TLS13Only (dpPolicy (tcPlan t))) \<longrightarrow> ks"
    using assms by (auto simp: helloBlocked_def split: bool.splits option.splits)
  have sl: "slice r (nat off) (nat (off + n)) = Some (take (nat n) (drop (nat off) r))"
    using f len by (auto simp: slice_def nat_add_distrib)
  have "sniVerdict (tables s) (Mode' (dpPolicy (tcPlan t))) r off n ech = Some Refuse"
    using assms f by (auto simp: helloBlocked_def p sniVerdict_def sl split: option.splits)
  then show ?thesis
    using assms f by (auto simp: helloBlocked_def handleTLSLocked_def p Let_def bindS_gets refuse_def sockClose_def onHistory_def bindS_def)
qed

lemma tryHandle_blocked:
  assumes "helloBlocked (tables s) (dpPolicy (tcPlan t)) r" "x @ y = r @ z" "\<not> dpBlocked (tcPlan t)" "Mode' (dpPolicy (tcPlan t)) \<noteq> ModeBlock"
  shows "tryHandlePendingLocked L (t\<lparr>tPending := x\<rparr>) s =
      Some (if length r \<le> length x then ((t\<lparr>tPending := x, tClosed := True\<rparr>, True), s\<lparr>history := history s @ [EvClose (tcConn t)]\<rparr>)
        else ((t\<lparr>tPending := x\<rparr>, False), s))"
proof -
  have r: "5 \<le> length r" "r ! 0 = 0x16" "r ! 1 = 0x03" "Uint16At r 3 = Some (length r - 5)" "Mode' (dpPolicy (tcPlan t)) \<noteq> ModeRaw"
    using assms(1) by (auto simp: helloBlocked_def)
  show ?thesis
  proof (cases "length x < 5")
    case True
    then show ?thesis using r assms(3,4) by (auto simp: tryHandlePendingLocked_def)
  next
    case False
    have eq: "x ! i = r ! i" if "i < 5" for i
      using arg_cong [OF assms(2), of "\<lambda>l. l ! i"] that False r(1) by (simp add: nth_append)
    have n: "Uint16At x 3 = Some (length r - 5)"
    proof -
      have "3 + 2 \<le> length x" "3 + 2 \<le> length r" using False r(1) by simp_all
      from Uint16At_Some [OF this(1)] Uint16At_Some [OF this(2)] r(4) eq [of 3] eq [of 4] show ?thesis by simp
    qed
    have t: "take (length r) x = r" if "length r \<le> length x"
      using arg_cong [OF assms(2), of "take (length r)"] that by simp
    have h: "helloBlocked (tables s) (dpPolicy (tcPlan (t\<lparr>tPending := x\<rparr>))) r" using assms(1) by simp
    show ?thesis using False r assms(3,4) eq [of 0] eq [of 1] n t hello_refused [OF h, of L]
      by (auto simp: tryHandlePendingLocked_def Let_def tryTLS_def bindS_def)
  qed
qed

section \<open>Properties\<close>




section \<open>Examples\<close>

definition examplePlan :: "Policy \<Rightarrow> DialPlan" where
  "examplePlan p = \<lparr>Source = ''tun'', OriginHost = ''192.0.2.7'', OriginPort = 443, RecoveredDomain = [], MatchedDomain = False, MatchedIP = False,
     TargetHost = ''192.0.2.7'', TargetPort = 443, dpPolicy = p, dpBlocked = False\<rparr>"

definition exampleHello :: bytes where
  "exampleHello = enc_hello \<lparr>h_minor = 1, h_version = [3, 3], h_random = replicate 32 7, h_session = [], h_ciphers = [0x13, 1],
     h_compression = [0], h_extensions = [(0, sni_body (map (\<lambda>x. of_char x) ''example.org''))]\<rparr>"

lemma example_blocked: "helloBlocked blockTables (zeroPolicy\<lparr>Mode' := ModeTLSRF\<rparr>) exampleHello"
  by code_simp

definition tunLib :: "int lib" where
  "tunLib = exampleLib\<lparr>kern := quiet\<rparr>"

lemma example_sockets: "socketsReturn tunLib"
  using quiet_ok by (simp add: socketsReturn_def tunLib_def exampleLib_def)

lemma example_tun_wf: "\<exists>s. wfCore tunLib s \<and> tables s = loadTables zeroPolicy [] [] [] \<and> history s = []"
proof -
  obtain f c where "wfCore exampleLib (exampleCore f c)" using example_cache example_wf default_reach by blast
  then have "wfCore tunLib (exampleCore f c)" by (simp add: wfCore_def tunLib_def)
  then show ?thesis by (intro exI [of _ "exampleCore f c"]) (simp add: exampleCore_def Let_def)
qed



text \<open>A stream that is not TLS, and one whose first record is refused and followed by other bytes.\<close>

lemma quiet_write: "sockWrite tunLib c p s = Some (None, s\<lparr>history := history s @ [EvWrite c p]\<rparr>)"
  by (simp add: sockWrite_def onHistory_def writeConn_def connWrite_def tunLib_def quiet_def)

definition relayConn :: "bool \<Rightarrow> bytes \<Rightarrow> tunPolicyConn" where
  "relayConn hd' pend = \<lparr>tcConn = 4, tcPlan = examplePlan (zeroPolicy\<lparr>Mode' := ModeDirect\<rparr>), tHandled = hd', tClosed = False, tPending = pend\<rparr>"

lemma relay_new: "WrapTCPConn 4 (examplePlan (zeroPolicy\<lparr>Mode' := ModeDirect\<rparr>)) = relayConn False []"
  by (simp add: WrapTCPConn_def relayConn_def)

lemmas tun_defs = tunWrite_def tryHandlePendingLocked_def tryTLS_def handleTLSLocked_def flushPendingLocked_def relayConn_def examplePlan_def
  quiet_write bindS_def liftO_def Let_def

lemma example_relay:
  "tunWrites tunLib (relayConn False []) [[71, 69], [84, 32, 47, 10], [13]] s =
    Some ((relayConn True [], [None, None, None]), s\<lparr>history := history s @ [EvWrite 4 [71, 69, 84, 32, 47, 10], EvWrite 4 [13]]\<rparr>)"
proof -
  have "tunWrite tunLib (relayConn False []) [71, 69] s = Some ((relayConn False [71, 69], None), s)" by (simp add: tun_defs)
  moreover have "tunWrite tunLib (relayConn False [71, 69]) [84, 32, 47, 10] s =
      Some ((relayConn True [], None), s\<lparr>history := history s @ [EvWrite 4 [71, 69, 84, 32, 47, 10]]\<rparr>)" by (simp add: tun_defs)
  moreover have "tunWrite tunLib (relayConn True []) [13] s = Some ((relayConn True [], None), s\<lparr>history := history s @ [EvWrite 4 [13]]\<rparr>)" for s
    by (simp add: tun_defs)
  ultimately show ?thesis by (simp add: bindS_def)
qed

lemma example_twice:
  "tunWrites tunLib (relayConn False []) [[22, 3, 1, 0, 1, 9, 65]] s =
    Some ((relayConn True [], [None]), s\<lparr>history := history s @ [EvWrite 4 [22, 3, 1, 0, 1, 9, 65], EvWrite 4 [65]]\<rparr>)"
proof -
  have u: "Uint16At [22, 3, 1, 0, 1, 9, 65] 3 = Some 1" by code_simp
  obtain v off n ks ech e where "parseClientHello [22, 3, 1, 0, 1, 9] = Some (v, off, n, ks, ech, Some e)"
    by (auto simp: parseClientHello_def tls_consts helloErr_def)
  then show ?thesis by (simp add: u tun_defs)
qed


end
