(* ===== verification/Spec2Isabelle.thy ===== *)
theory Spec2Isabelle
  imports DNS_Hijack Tun_Bridge
begin

text \<open>
  A verification library for the local proxy under \<^verbatim>\<open>src/enimul\<close>.
\<close>

section \<open>From a captured DNS query to a dial plan\<close>



end
